(* ===== verification/Free_Queue.thy ===== *)
theory Free_Queue
  imports Prelude
begin

text \<open>
  The intrusive doubly linked list of free KV-cache blocks
  (\<^verbatim>\<open>KVCacheBlock\<close> and \<^verbatim>\<open>FreeKVCacheBlockQueue\<close> of \<^verbatim>\<open>vllm/v1/core/kv_cache_utils.py\<close>).
  The block objects live in a store indexed by their addresses; the two sentinel objects have
  addresses of their own. Every operation is the sequence of pointer assignments of the source.
  The abstraction is the list of addresses between the sentinels, and the refinement lemmas
  show that each operation acts on that list as a queue with removal in the middle.
\<close>

section \<open>Blocks and the object store\<close>

datatype node = Blk nat | FakeHead | FakeTail

record KVCacheBlock =
  block_id :: int
  ref_cnt :: int
  block_hash :: "bytes option"
  prev_free_block :: "node option"
  next_free_block :: "node option"
  is_null :: bool

type_synonym store = "node \<Rightarrow> KVCacheBlock"

definition new_block :: "int \<Rightarrow> KVCacheBlock" where
  "new_block i = \<lparr>block_id = i, ref_cnt = 0, block_hash = None,
     prev_free_block = None, next_free_block = None, is_null = False\<rparr>"

definition set_prev :: "node \<Rightarrow> node option \<Rightarrow> store \<Rightarrow> store" where
  "set_prev b p h = h(b := (h b)\<lparr>prev_free_block := p\<rparr>)"

definition set_next :: "node \<Rightarrow> node option \<Rightarrow> store \<Rightarrow> store" where
  "set_next b p h = h(b := (h b)\<lparr>next_free_block := p\<rparr>)"

record queue =
  objs :: store
  num_free_blocks :: int

section \<open>The operations\<close>

definition link_step :: "node list \<Rightarrow> nat \<Rightarrow> store \<Rightarrow> store" where
  "link_step bs i h =
     (let h1 = (if i > 0 then set_prev (bs ! i) (Some (bs ! (i - 1))) h else h)
      in if i + 1 < length bs then set_next (bs ! i) (Some (bs ! (i + 1))) h1 else h1)"

definition FreeKVCacheBlockQueue :: "node list \<Rightarrow> store \<Rightarrow> queue" where
  "FreeKVCacheBlockQueue bs h =
     (let h1 = fold (link_step bs) [0..<length bs] h;
          h2 = h1(FakeHead := new_block (-1), FakeTail := new_block (-1));
          h3 = (if bs \<noteq> []
                then set_next (last bs) (Some FakeTail)
                      (set_prev FakeTail (Some (last bs))
                        (set_prev (hd bs) (Some FakeHead)
                          (set_next FakeHead (Some (hd bs)) h2)))
                else set_prev FakeTail (Some FakeHead) (set_next FakeHead (Some FakeTail) h2))
      in \<lparr>objs = h3, num_free_blocks = int (length bs)\<rparr>)"

definition popleft :: "queue \<Rightarrow> (node \<times> queue) res" where
  "popleft q =
     (case next_free_block (objs q FakeHead) of
        None \<Rightarrow> if num_free_blocks q = 0 then Inl (ValueError ''No free blocks available'')
                else Inl AssertionError
      | Some first \<Rightarrow>
          if first = FakeTail then
            if num_free_blocks q = 0 then Inl (ValueError ''No free blocks available'')
            else Inl AssertionError
          else
            (case next_free_block (objs q first) of
               None \<Rightarrow> Inl (RuntimeError ''Invalid block found in popleft()'')
             | Some second \<Rightarrow>
                 let h1 = set_next FakeHead (Some second) (objs q);
                     h2 = set_prev second (Some FakeHead) h1;
                     h3 = set_next first None (set_prev first None h2)
                 in Inr (first, \<lparr>objs = h3, num_free_blocks = num_free_blocks q - 1\<rparr>)))"

primrec popleft_loop ::
  "nat \<Rightarrow> node option \<Rightarrow> node list \<Rightarrow> store \<Rightarrow> (node option \<times> node list \<times> store) res" where
  "popleft_loop 0 cur ret h = Inr (cur, ret, h)"
| "popleft_loop (Suc k) cur ret h =
     (case cur of
        None \<Rightarrow> Inl AssertionError
      | Some c \<Rightarrow> popleft_loop k (next_free_block (h c)) (ret @ [c])
                   (set_next c None (set_prev c None h)))"

definition popleft_n :: "int \<Rightarrow> queue \<Rightarrow> (node list \<times> queue) res" where
  "popleft_n n q =
     (if n = 0 then Inr ([], q)
      else if num_free_blocks q < n then Inl AssertionError
      else res_bind (popleft_loop (nat n) (next_free_block (objs q FakeHead)) [] (objs q))
        (\<lambda>(cur, ret, h).
          let h' = (case cur of
                      None \<Rightarrow> h
                    | Some c \<Rightarrow> set_prev c (Some FakeHead) (set_next FakeHead (Some c) h))
          in Inr (ret, \<lparr>objs = h', num_free_blocks = num_free_blocks q - n\<rparr>)))"

definition remove_block :: "node \<Rightarrow> queue \<Rightarrow> queue res" where
  "remove_block b q =
     (case (prev_free_block (objs q b), next_free_block (objs q b)) of
        (Some p, Some n) \<Rightarrow>
          let h1 = set_next p (Some n) (objs q);
              h2 = set_prev n (Some p) h1;
              h3 = set_next b None (set_prev b None h2)
          in Inr \<lparr>objs = h3, num_free_blocks = num_free_blocks q - 1\<rparr>
      | _ \<Rightarrow> Inl (RuntimeError ''remove() called on an invalid block''))"

definition append_block :: "node \<Rightarrow> queue \<Rightarrow> queue res" where
  "append_block b q =
     (case prev_free_block (objs q FakeTail) of
        None \<Rightarrow> Inl (RuntimeError ''prev_free_block of fake_free_list_tail should always exist'')
      | Some l \<Rightarrow>
          let h1 = set_next l (Some b) (objs q);
              h2 = set_prev b (Some l) h1;
              h3 = set_next b (Some FakeTail) h2;
              h4 = set_prev FakeTail (Some b) h3
          in Inr \<lparr>objs = h4, num_free_blocks = num_free_blocks q + 1\<rparr>)"

primrec append_loop :: "node list \<Rightarrow> node \<Rightarrow> store \<Rightarrow> node \<times> store" where
  "append_loop [] l h = (l, h)"
| "append_loop (b # bs) l h = append_loop bs b (set_next l (Some b) (set_prev b (Some l) h))"

definition append_n :: "node list \<Rightarrow> queue \<Rightarrow> queue res" where
  "append_n bs q =
     (if bs = [] then Inr q
      else (case prev_free_block (objs q FakeTail) of
        None \<Rightarrow> Inl AssertionError
      | Some l0 \<Rightarrow>
          (case append_loop bs l0 (objs q) of (l, h) \<Rightarrow>
            Inr \<lparr>objs = set_prev FakeTail (Some l) (set_next l (Some FakeTail) h),
                 num_free_blocks = num_free_blocks q + int (length bs)\<rparr>)))"

partial_function (option) free_blocks_loop ::
  "store \<Rightarrow> node \<Rightarrow> node list \<Rightarrow> node list option" where
  "free_blocks_loop h cur ret =
     (case next_free_block (h cur) of
        None \<Rightarrow> Some ret
      | Some n \<Rightarrow> free_blocks_loop h n (ret @ [cur]))"

declare free_blocks_loop.simps [code]

definition get_all_free_blocks :: "queue \<Rightarrow> node list res option" where
  "get_all_free_blocks q =
     (case next_free_block (objs q FakeHead) of
        None \<Rightarrow> Some (Inl (RuntimeError ''next_free_block of fake_free_list_head should always exist''))
      | Some c \<Rightarrow> map_option Inr (free_blocks_loop (objs q) c []))"

section \<open>Field access after pointer assignments\<close>

named_theorems link_simps \<open>reading a link field after an assignment to one\<close>

definition payload :: "store \<Rightarrow> node \<Rightarrow> int \<times> int \<times> bytes option \<times> bool" where
  "payload h n = (block_id (h n), ref_cnt (h n), block_hash (h n), is_null (h n))"

lemma prev_set_prev [link_simps]:
  "prev_free_block (set_prev b p h n) = (if n = b then p else prev_free_block (h n))"
  by (simp add: set_prev_def)

lemma next_set_prev [link_simps]: "next_free_block (set_prev b p h n) = next_free_block (h n)"
  by (simp add: set_prev_def)

lemma next_set_next [link_simps]:
  "next_free_block (set_next b p h n) = (if n = b then p else next_free_block (h n))"
  by (simp add: set_next_def)

lemma prev_set_next [link_simps]: "prev_free_block (set_next b p h n) = prev_free_block (h n)"
  by (simp add: set_next_def)

lemma payload_set_prev [simp]: "payload (set_prev b p h) = payload h"
  by (rule ext) (simp add: payload_def set_prev_def)

lemma payload_set_next [simp]: "payload (set_next b p h) = payload h"
  by (rule ext) (simp add: payload_def set_next_def)

section \<open>Chains of links\<close>

fun dlink :: "store \<Rightarrow> node list \<Rightarrow> bool" where
  "dlink h (x # y # zs) =
     (next_free_block (h x) = Some y \<and> prev_free_block (h y) = Some x \<and> dlink h (y # zs))"
| "dlink h _ = True"

lemma dlink_append:
  assumes "xs \<noteq> []" and "ys \<noteq> []"
  shows "dlink h (xs @ ys) \<longleftrightarrow> dlink h xs \<and> dlink h ys \<and>
     next_free_block (h (last xs)) = Some (hd ys) \<and> prev_free_block (h (hd ys)) = Some (last xs)"
  using assms
proof (induction xs rule: list_nonempty_induct)
  case (single x)
  then show ?case by (cases ys) auto
next
  case (cons x xs)
  then show ?case by (cases xs) auto
qed

lemma dlink_set_next [link_simps]:
  "b \<notin> set (butlast ns) \<Longrightarrow> dlink (set_next b p h) ns = dlink h ns"
  by (induction h ns rule: dlink.induct) (auto simp: link_simps)

lemma dlink_set_prev [link_simps]:
  "b \<notin> set (tl ns) \<Longrightarrow> dlink (set_prev b p h) ns = dlink h ns"
  by (induction h ns rule: dlink.induct) (auto simp: link_simps)

lemma dlink_cong:
  assumes "\<And>n. n \<in> set ns \<Longrightarrow> next_free_block (h n) = next_free_block (h' n)
     \<and> prev_free_block (h n) = prev_free_block (h' n)"
  shows "dlink h ns = dlink h' ns"
  using assms by (induction h ns rule: dlink.induct) auto

definition rep :: "queue \<Rightarrow> node list \<Rightarrow> bool" where
  "rep q xs \<longleftrightarrow>
     distinct (FakeHead # xs @ [FakeTail]) \<and>
     dlink (objs q) (FakeHead # xs @ [FakeTail]) \<and>
     prev_free_block (objs q FakeHead) = None \<and> next_free_block (objs q FakeTail) = None \<and>
     (\<forall>b. b \<notin> set (FakeHead # xs @ [FakeTail]) \<longrightarrow>
        prev_free_block (objs q b) = None \<and> next_free_block (objs q b) = None) \<and>
     num_free_blocks q = int (length xs)"

lemma rep_num: "rep q xs \<Longrightarrow> num_free_blocks q = int (length xs)"
  by (simp add: rep_def)

lemma rep_distinct: "rep q xs \<Longrightarrow> distinct xs \<and> FakeHead \<notin> set xs \<and> FakeTail \<notin> set xs"
  by (simp add: rep_def)

lemma dlink_mid:
  assumes "as \<noteq> []" and "cs \<noteq> []"
  shows "dlink h (as @ b # cs) \<longleftrightarrow> dlink h as \<and> dlink h cs \<and>
     next_free_block (h (last as)) = Some b \<and> prev_free_block (h b) = Some (last as) \<and>
     next_free_block (h b) = Some (hd cs) \<and> prev_free_block (h (hd cs)) = Some b"
proof (cases cs)
  case Nil
  with assms show ?thesis by simp
next
  case (Cons c cs')
  then show ?thesis using dlink_append [of as "b # cs" h] assms by auto
qed

lemma last_notin_butlast: "distinct xs \<Longrightarrow> xs \<noteq> [] \<Longrightarrow> last xs \<notin> set (butlast xs)"
  by (induction xs rule: rev_induct) auto

lemma hd_notin_tl: "distinct xs \<Longrightarrow> xs \<noteq> [] \<Longrightarrow> hd xs \<notin> set (tl xs)"
  by (cases xs) auto

lemma dlink_join:
  assumes "as \<noteq> []" "cs \<noteq> []" "distinct (as @ cs)" "dlink h as" "dlink h cs"
  shows "dlink (set_prev (hd cs) (Some (last as)) (set_next (last as) (Some (hd cs)) h)) (as @ cs)"
proof -
  have "hd cs \<notin> set as" "last as \<notin> set cs"
    using assms(1-3) by (auto dest: hd_in_set last_in_set)
  then have "hd cs \<notin> set (tl as)" "last as \<notin> set (butlast cs)" "hd cs \<noteq> last as"
    using assms(1,2) by (auto dest: in_set_butlastD list.set_sel(2))
  then show ?thesis
    using assms by (simp add: dlink_append link_simps last_notin_butlast hd_notin_tl)
qed

lemma rep_split:
  assumes "rep q (as @ b # cs)"
  shows "prev_free_block (objs q b) = Some (last (FakeHead # as))"
    and "next_free_block (objs q b) = Some (hd (cs @ [FakeTail]))"
    and "dlink (objs q) (FakeHead # as)"
    and "dlink (objs q) (cs @ [FakeTail])"
  using assms dlink_mid [of "FakeHead # as" "cs @ [FakeTail]" "objs q" b]
  by (simp_all add: rep_def)

lemma rep_remove:
  assumes "rep q (as @ b # cs)"
  shows "\<exists>q'. remove_block b q = Inr q' \<and> rep q' (as @ cs) \<and> payload (objs q') = payload (objs q)"
proof -
  let ?as = "FakeHead # as" and ?cs = "cs @ [FakeTail]"
  let ?h2 = "set_prev (hd ?cs) (Some (last ?as)) (set_next (last ?as) (Some (hd ?cs)) (objs q))"
  let ?h = "set_next b None (set_prev b None ?h2)"
  let ?q = "\<lparr>objs = ?h, num_free_blocks = num_free_blocks q - 1\<rparr>"
  note s = rep_split [OF assms]
  from assms have d: "distinct (?as @ b # ?cs)"
    by (simp add: rep_def)
  have ends: "last ?as \<in> set ?as" "hd ?cs \<in> set ?cs"
    by (rule last_in_set, simp) (rule hd_in_set, simp)
  have "dlink ?h2 (?as @ ?cs)"
    by (rule dlink_join) (use d s in auto)
  moreover have b: "b \<notin> set (?as @ ?cs)" using d by auto
  ultimately have "dlink ?h (?as @ ?cs)"
    by (metis dlink_set_next dlink_set_prev in_set_butlastD list.set_sel(2) tl_Nil)
  then have "rep ?q (as @ cs)"
    using assms ends b by (auto simp: rep_def link_simps)
  moreover have "remove_block b q = Inr ?q"
    by (simp add: remove_block_def s(1,2) Let_def del: last.simps)
  ultimately show ?thesis by (intro exI [of _ ?q]) simp
qed

lemma rep_popleft:
  assumes "rep q (b # cs)"
  shows "\<exists>q'. popleft q = Inr (b, q') \<and> rep q' cs \<and> payload (objs q') = payload (objs q)"
proof -
  have "next_free_block (objs q FakeHead) = Some b" "b \<noteq> FakeTail"
    using assms by (auto simp: rep_def)
  moreover have "prev_free_block (objs q b) = Some FakeHead"
    "next_free_block (objs q b) = Some (hd (cs @ [FakeTail]))"
    using rep_split [of q "[]" b cs] assms by simp_all
  ultimately have "popleft q = res_bind (remove_block b q) (\<lambda>q'. Inr (b, q'))"
    by (simp add: popleft_def remove_block_def Let_def)
  then show ?thesis using rep_remove [of q "[]" b cs] assms by auto
qed

lemma rep_popleft_empty:
  "rep q [] \<Longrightarrow> popleft q = Inl (ValueError ''No free blocks available'')"
  by (simp add: rep_def popleft_def)

abbreviation (input) reset_links :: "node \<Rightarrow> store \<Rightarrow> store" where
  "reset_links c h \<equiv> set_next c None (set_prev c None h)"

lemma popleft_loop_chain:
  assumes "dlink h (xs @ [t])" "distinct (xs @ [t])" "k \<le> length xs"
  shows "popleft_loop k (Some (hd (xs @ [t]))) ret h =
     Inr (Some (hd (drop k xs @ [t])), ret @ take k xs, fold reset_links (take k xs) h)"
  using assms
proof (induction k arbitrary: xs ret h)
  case 0
  then show ?case by simp
next
  case (Suc k)
  then obtain x ys where xs: "xs = x # ys" by (cases xs) auto
  have nx: "next_free_block (h x) = Some (hd (ys @ [t]))" and d: "dlink h (ys @ [t])"
    using Suc.prems(1) xs by (cases ys; simp)+
  have "x \<notin> set (butlast (ys @ [t]))" "x \<notin> set (tl (ys @ [t]))"
    using Suc.prems(2) xs by (auto dest: in_set_butlastD list.set_sel(2) [rotated])
  with d have "dlink (reset_links x h) (ys @ [t])" by (simp add: link_simps)
  from Suc.IH [OF this, of "ret @ [x]"] Suc.prems show ?case
    by (simp add: xs nx)
qed

lemma links_fold_reset:
  "prev_free_block (fold reset_links ys h n) = (if n \<in> set ys then None else prev_free_block (h n))"
  "next_free_block (fold reset_links ys h n) = (if n \<in> set ys then None else next_free_block (h n))"
  by (induction ys arbitrary: h) (auto simp: link_simps)

lemma payload_fold_reset [simp]: "payload (fold reset_links ys h) = payload h"
  by (induction ys arbitrary: h) auto

lemma rep_popleft_n:
  assumes r: "rep q xs" and n: "0 \<le> n" "n \<le> int (length xs)"
  shows "\<exists>q'. popleft_n n q = Inr (take (nat n) xs, q') \<and> rep q' (drop (nat n) xs)
     \<and> payload (objs q') = payload (objs q)"
proof (cases "n = 0")
  case True
  with r show ?thesis by (simp add: popleft_n_def)
next
  case False
  let ?k = "nat n" and ?c = "hd (drop (nat n) xs @ [FakeTail])"
  let ?h1 = "fold reset_links (take ?k xs) (objs q)"
  let ?h = "set_prev ?c (Some FakeHead) (set_next FakeHead (Some ?c) ?h1)"
  let ?q = "\<lparr>objs = ?h, num_free_blocks = num_free_blocks q - n\<rparr>"
  have k: "?k \<le> length xs" using n by simp
  have d: "distinct (FakeHead # xs @ [FakeTail])" and l: "dlink (objs q) (FakeHead # xs @ [FakeTail])"
    using r by (simp_all add: rep_def)
  have l': "dlink (objs q) (xs @ [FakeTail])"
    and hd: "next_free_block (objs q FakeHead) = Some (hd (xs @ [FakeTail]))"
    using l dlink_append [of "[FakeHead]" "xs @ [FakeTail]" "objs q"] by simp_all
  have dx: "distinct (take ?k xs @ drop ?k xs)" using d by simp
  have "dlink (objs q) (take ?k xs @ drop ?k xs @ [FakeTail])"
    using l' by (metis append.assoc append_take_drop_id)
  then have "dlink (objs q) (drop ?k xs @ [FakeTail])"
    by (cases "take ?k xs = []") (auto simp: dlink_append simp del: append_take_drop_id)
  moreover have "set (drop ?k xs @ [FakeTail]) \<inter> set (take ?k xs) = {}"
    using d dx by (auto simp del: append_take_drop_id dest: in_set_takeD)
  ultimately have "dlink ?h1 (drop ?k xs @ [FakeTail])"
    by (subst dlink_cong [of _ _ "objs q"]) (auto simp: links_fold_reset)
  then have "dlink ?h ([FakeHead] @ drop ?k xs @ [FakeTail])"
    using d dlink_join [of "[FakeHead]" "drop ?k xs @ [FakeTail]" ?h1]
    by (auto dest: in_set_dropD)
  moreover have "?c \<in> set (drop ?k xs @ [FakeTail])" by (rule hd_in_set) simp
  moreover have "set xs = set (take ?k xs) \<union> set (drop ?k xs)"
    by (metis append_take_drop_id set_append)
  ultimately have "rep ?q (drop ?k xs)"
    using r d n by (auto simp: rep_def link_simps links_fold_reset dest: in_set_dropD in_set_takeD)
  moreover have "popleft_n n q = Inr (take ?k xs, ?q)"
    using False n r popleft_loop_chain [OF l' _ k, of "[]"] d hd
    by (simp add: popleft_n_def rep_def Let_def)
  ultimately show ?thesis by (intro exI [of _ ?q]) simp
qed

lemma rep_tail:
  assumes "rep q xs"
  shows "prev_free_block (objs q FakeTail) = Some (last (FakeHead # xs))"
    and "dlink (objs q) (FakeHead # xs)"
  using assms dlink_append [of "FakeHead # xs" "[FakeTail]" "objs q"] by (simp_all add: rep_def)

lemma append_loop_chain:
  assumes "dlink h ns" "ns \<noteq> []" "distinct (ns @ bs)" "append_loop bs (last ns) h = (l, h')"
  shows "l = last (ns @ bs) \<and> dlink h' (ns @ bs) \<and> payload h' = payload h \<and>
     (\<forall>n. n \<notin> set bs \<longrightarrow> prev_free_block (h' n) = prev_free_block (h n)) \<and>
     (\<forall>n. n \<notin> set (ns @ bs) \<longrightarrow> next_free_block (h' n) = next_free_block (h n))"
  using assms
proof (induction bs arbitrary: ns h)
  case Nil
  then show ?case by simp
next
  case (Cons b bs)
  let ?h = "set_next (last ns) (Some b) (set_prev b (Some (last ns)) h)"
  have comm: "?h = set_prev (hd [b]) (Some (last ns)) (set_next (last ns) (Some (hd [b])) h)"
    by (rule ext) (auto simp: set_next_def set_prev_def)
  have "dlink ?h (ns @ [b])"
    unfolding comm by (rule dlink_join) (use Cons.prems in auto)
  with Cons.prems Cons.IH [of ?h "ns @ [b]"]
  have "l = last (ns @ b # bs) \<and> dlink h' (ns @ b # bs) \<and> payload h' = payload h \<and>
     (\<forall>n. n \<notin> set bs \<longrightarrow> prev_free_block (h' n) = prev_free_block (?h n)) \<and>
     (\<forall>n. n \<notin> set (ns @ b # bs) \<longrightarrow> next_free_block (h' n) = next_free_block (?h n))"
    by simp
  moreover have "last ns \<in> set ns" using Cons.prems(2) by simp
  ultimately show ?case by (auto simp: link_simps)
qed

lemma rep_append_n:
  assumes r: "rep q xs" and d: "distinct (FakeHead # xs @ bs @ [FakeTail])"
  shows "\<exists>q'. append_n bs q = Inr q' \<and> rep q' (xs @ bs) \<and> payload (objs q') = payload (objs q)"
proof (cases "bs = []")
  case True
  with r show ?thesis by (simp add: append_n_def)
next
  case False
  obtain l h where lh: "append_loop bs (last (FakeHead # xs)) (objs q) = (l, h)"
    by (cases "append_loop bs (last (FakeHead # xs)) (objs q)")
  let ?h = "set_prev FakeTail (Some l) (set_next l (Some FakeTail) h)"
  let ?q = "\<lparr>objs = ?h, num_free_blocks = num_free_blocks q + int (length bs)\<rparr>"
  note c = append_loop_chain [OF rep_tail(2) [OF r] _ _ lh]
  have l: "l = last ((FakeHead # xs) @ bs)" and dl: "dlink h ((FakeHead # xs) @ bs)"
    and pl: "payload h = payload (objs q)"
    and prev: "\<And>n. n \<notin> set bs \<Longrightarrow> prev_free_block (h n) = prev_free_block (objs q n)"
    and nxt: "\<And>n. n \<notin> set ((FakeHead # xs) @ bs) \<Longrightarrow>
        next_free_block (h n) = next_free_block (objs q n)"
    using c d by auto
  have "dlink ?h (((FakeHead # xs) @ bs) @ [FakeTail])"
    using dlink_join [of "(FakeHead # xs) @ bs" "[FakeTail]" h] dl d unfolding l by auto
  moreover have "l \<in> set (FakeHead # xs @ bs)" unfolding l by (metis append_Cons last_in_set list.discI)
  ultimately have "rep ?q (xs @ bs)"
    using r d prev nxt by (auto simp: rep_def link_simps)
  moreover have "append_n bs q = Inr ?q"
    using False lh rep_tail(1) [OF r] by (simp add: append_n_def)
  ultimately show ?thesis using pl by (intro exI [of _ ?q]) simp
qed

lemma append_block_eq:
  "prev_free_block (objs q FakeTail) = Some l \<Longrightarrow> append_block b q = append_n [b] q"
proof -
  have "set_prev b (Some l) (set_next l (Some b) h) = set_next l (Some b) (set_prev b (Some l) h)" for h
    by (rule ext) (auto simp: set_next_def set_prev_def)
  then show "prev_free_block (objs q FakeTail) = Some l \<Longrightarrow> append_block b q = append_n [b] q"
    by (simp add: append_block_def append_n_def Let_def)
qed

lemma rep_append:
  assumes "rep q xs" and "distinct (FakeHead # xs @ [b] @ [FakeTail])"
  shows "\<exists>q'. append_block b q = Inr q' \<and> rep q' (xs @ [b]) \<and> payload (objs q') = payload (objs q)"
  using append_block_eq [OF rep_tail(1) [OF assms(1)], of b] rep_append_n [OF assms] by simp

lemma free_blocks_loop_chain:
  assumes "dlink h (xs @ [t])" and "next_free_block (h t) = None"
  shows "free_blocks_loop h (hd (xs @ [t])) ret = Some (ret @ xs)"
  using assms
proof (induction xs arbitrary: ret)
  case Nil
  then show ?case by (simp add: free_blocks_loop.simps [of h t])
next
  case (Cons x xs)
  have "next_free_block (h x) = Some (hd (xs @ [t]))" "dlink h (xs @ [t])"
    using Cons.prems(1) by (cases xs; simp)+
  with Cons.IH Cons.prems(2) show ?case by (simp add: free_blocks_loop.simps [of h x])
qed

lemma rep_get_all: "rep q xs \<Longrightarrow> get_all_free_blocks q = Some (Inr xs)"
  using dlink_append [of "[FakeHead]" "xs @ [FakeTail]" "objs q"]
    free_blocks_loop_chain [of "objs q" xs FakeTail "[]"]
  by (simp add: get_all_free_blocks_def rep_def)

lemma rep_unique: "rep q xs \<Longrightarrow> rep q ys \<Longrightarrow> xs = ys"
  by (drule rep_get_all)+ simp

section \<open>Construction\<close>

lemma dlink_nth:
  "dlink h ns \<longleftrightarrow> (\<forall>i < length ns - 1.
     next_free_block (h (ns ! i)) = Some (ns ! Suc i) \<and>
     prev_free_block (h (ns ! Suc i)) = Some (ns ! i))"
  by (induction h ns rule: dlink.induct) (simp_all add: All_less_Suc2)

lemma link_step_links:
  "next_free_block (link_step bs i h n) =
     (if n = bs ! i \<and> Suc i < length bs then Some (bs ! Suc i) else next_free_block (h n))"
  "prev_free_block (link_step bs i h n) =
     (if n = bs ! i \<and> 0 < i then Some (bs ! (i - 1)) else prev_free_block (h n))"
  "payload (link_step bs i h) = payload h"
  by (auto simp: link_step_def Let_def link_simps)

lemma link_steps_links:
  assumes "distinct bs" "m \<le> length bs"
  shows "(\<forall>i < length bs. next_free_block (fold (link_step bs) [0..<m] h (bs ! i)) =
       (if i < m \<and> Suc i < length bs then Some (bs ! Suc i) else next_free_block (h (bs ! i)))
     \<and> prev_free_block (fold (link_step bs) [0..<m] h (bs ! i)) =
       (if i < m \<and> 0 < i then Some (bs ! (i - 1)) else prev_free_block (h (bs ! i))))
     \<and> (\<forall>b. b \<notin> set bs \<longrightarrow>
          next_free_block (fold (link_step bs) [0..<m] h b) = next_free_block (h b) \<and>
          prev_free_block (fold (link_step bs) [0..<m] h b) = prev_free_block (h b))
     \<and> payload (fold (link_step bs) [0..<m] h) = payload h"
  using assms(2)
proof (induction m)
  case 0
  then show ?case by simp
next
  case (Suc m)
  moreover from Suc.prems have "bs ! m \<in> set bs" "bs \<noteq> []" by auto
  ultimately show ?case
    using assms(1) by (auto simp: link_step_links nth_eq_iff_index_eq less_Suc_eq)
qed

lemma rep_FreeKVCacheBlockQueue:
  assumes d: "distinct (FakeHead # bs @ [FakeTail])"
    and fresh: "\<And>b. b \<notin> set bs \<Longrightarrow>
      prev_free_block (h b) = None \<and> next_free_block (h b) = None"
  shows "rep (FreeKVCacheBlockQueue bs h) bs"
    and "n \<notin> {FakeHead, FakeTail} \<Longrightarrow>
      payload (objs (FreeKVCacheBlockQueue bs h)) n = payload h n"
proof -
  let ?h1 = "fold (link_step bs) [0..<length bs] h"
  let ?h2 = "?h1(FakeHead := new_block (-1), FakeTail := new_block (-1))"
  let ?h3 = "set_prev (hd bs) (Some FakeHead) (set_next FakeHead (Some (hd bs)) ?h2)"
  have db: "distinct bs" using d by simp
  note ls = link_steps_links [OF db order_refl, of h]
  have "dlink ?h1 bs"
    using ls by (auto simp: dlink_nth)
  then have "dlink ?h2 bs"
    using d by (subst dlink_cong [of _ _ ?h1]) auto
  show "rep (FreeKVCacheBlockQueue bs h) bs"
  proof (cases "bs = []")
    case True
    then show ?thesis using fresh
      by (auto simp: rep_def FreeKVCacheBlockQueue_def Let_def link_simps new_block_def)
  next
    case False
    then have ends: "hd bs \<in> set bs" "last bs \<in> set bs" by simp_all
    with d have "hd bs \<noteq> FakeHead" "hd bs \<noteq> FakeTail" "last bs \<noteq> FakeHead" "last bs \<noteq> FakeTail"
      by auto
    moreover note ends
    moreover have "dlink ?h3 ([FakeHead] @ bs)"
      using dlink_join [of "[FakeHead]" bs ?h2] False d \<open>dlink ?h2 bs\<close> by auto
    then have "dlink (set_prev (hd [FakeTail]) (Some (last ([FakeHead] @ bs)))
        (set_next (last ([FakeHead] @ bs)) (Some (hd [FakeTail])) ?h3)) (([FakeHead] @ bs) @ [FakeTail])"
      by (intro dlink_join) (use False d in auto)
    moreover have "set_prev FakeTail p (set_next (last bs) n g) =
        set_next (last bs) n (set_prev FakeTail p g)" for p n g
      by (rule ext) (auto simp: set_next_def set_prev_def)
    ultimately show ?thesis
      using False d ends ls fresh
      by (auto simp: rep_def FreeKVCacheBlockQueue_def Let_def link_simps new_block_def)
  qed
  show "n \<notin> {FakeHead, FakeTail} \<Longrightarrow>
      payload (objs (FreeKVCacheBlockQueue bs h)) n = payload h n"
    using conjunct2 [OF conjunct2 [OF ls]]
    by (auto simp: FreeKVCacheBlockQueue_def Let_def fun_eq_iff)
      (auto simp: payload_def)
qed

section \<open>The queue interface\<close>

text \<open>
  What the block pool relies on: the queue holds a list of distinct blocks, takes from its front,
  appends at its back, removes any member, and never touches the other fields of a block.
\<close>

primrec pop_each :: "('q \<Rightarrow> ('n \<times> 'q) res) \<Rightarrow> nat \<Rightarrow> 'q \<Rightarrow> ('n list \<times> 'q) res" where
  "pop_each p 0 q = Inr ([], q)"
| "pop_each p (Suc k) q =
     res_bind (p q) (\<lambda>(x, q1). res_bind (pop_each p k q1) (\<lambda>(xs, q2). Inr (x # xs, q2)))"

locale block_queue =
  fixes holds :: "'q \<Rightarrow> 'n list \<Rightarrow> bool"
    and fields :: "'q \<Rightarrow> 'n \<Rightarrow> 'd"
    and size_of :: "'q \<Rightarrow> int"
    and ok :: "'n \<Rightarrow> bool"
    and pop :: "'q \<Rightarrow> ('n \<times> 'q) res"
    and pop_n :: "int \<Rightarrow> 'q \<Rightarrow> ('n list \<times> 'q) res"
    and del :: "'n \<Rightarrow> 'q \<Rightarrow> 'q res"
    and add_n :: "'n list \<Rightarrow> 'q \<Rightarrow> 'q res"
  assumes holds_unique: "holds q xs \<Longrightarrow> holds q ys \<Longrightarrow> xs = ys"
    and holds_distinct: "holds q xs \<Longrightarrow> distinct xs \<and> (\<forall>x \<in> set xs. ok x)"
    and size_law: "holds q xs \<Longrightarrow> size_of q = int (length xs)"
    and pop_law: "holds q (x # xs) \<Longrightarrow>
      \<exists>q'. pop q = Inr (x, q') \<and> holds q' xs \<and> fields q' = fields q"
    and pop_n_law: "holds q xs \<Longrightarrow> 0 \<le> n \<Longrightarrow> n \<le> int (length xs) \<Longrightarrow>
      \<exists>q'. pop_n n q = Inr (take (nat n) xs, q') \<and> holds q' (drop (nat n) xs) \<and> fields q' = fields q"
    and del_law: "holds q (xs @ x # ys) \<Longrightarrow>
      \<exists>q'. del x q = Inr q' \<and> holds q' (xs @ ys) \<and> fields q' = fields q"
    and add_n_law: "holds q xs \<Longrightarrow> distinct (xs @ ys) \<Longrightarrow> \<forall>y \<in> set ys. ok y \<Longrightarrow>
      \<exists>q'. add_n ys q = Inr q' \<and> holds q' (xs @ ys) \<and> fields q' = fields q"
begin

lemma pop_each_law:
  "holds q xs \<Longrightarrow> k \<le> length xs \<Longrightarrow>
     \<exists>q'. pop_each pop k q = Inr (take k xs, q') \<and> holds q' (drop k xs) \<and> fields q' = fields q"
proof (induction k arbitrary: q xs)
  case 0
  then show ?case by simp
next
  case (Suc k)
  then obtain x ys where xs: "xs = x # ys" by (cases xs) auto
  with Suc.prems obtain q1 where q1: "pop q = Inr (x, q1)" "holds q1 ys" "fields q1 = fields q"
    using pop_law by blast
  with Suc.IH [of q1 ys] Suc.prems xs show ?case by auto
qed

lemma del_member:
  assumes "holds q xs" and "x \<in> set xs"
  shows "\<exists>q'. del x q = Inr q' \<and> holds q' (remove1 x xs) \<and> fields q' = fields q"
proof -
  from assms(2) obtain ys zs where xs: "xs = ys @ x # zs" "x \<notin> set ys"
    by (meson split_list_first)
  then show ?thesis using del_law [of q ys x zs] assms(1) by (simp add: remove1_append)
qed

lemma pop_n_members:
  assumes "holds q xs" "0 \<le> n" "n \<le> size_of q" "pop_n n q = Inr (ys, q')"
  shows "ys = take (nat n) xs \<and> holds q' (drop (nat n) xs) \<and> fields q' = fields q"
  using pop_n_law [OF assms(1,2)] assms(3,4) size_law [OF assms(1)] by auto

lemma pop_n_add_n_multiset:
  assumes "holds q xs" "0 \<le> n" "n \<le> size_of q"
  shows "\<exists>ys q1 q2. pop_n n q = Inr (ys, q1) \<and> add_n ys q1 = Inr q2 \<and>
     holds q2 (rotate (nat n) xs) \<and> fields q2 = fields q"
proof -
  from assms size_law [OF assms(1)] obtain q1
    where q1: "pop_n n q = Inr (take (nat n) xs, q1)" "holds q1 (drop (nat n) xs)" "fields q1 = fields q"
    and n: "nat n \<le> length xs"
    using pop_n_law [OF assms(1,2)] by auto
  have d: "distinct xs" and o: "\<forall>x \<in> set xs. ok x"
    using holds_distinct [OF assms(1)] by auto
  have "distinct (drop (nat n) xs @ take (nat n) xs)"
    using d by (metis append_take_drop_id distinct_append inf_commute)
  then obtain q2 where "add_n (take (nat n) xs) q1 = Inr q2"
    "holds q2 (drop (nat n) xs @ take (nat n) xs)" "fields q2 = fields q1"
    using add_n_law [OF q1(2)] o by (meson in_set_takeD)
  moreover have "drop (nat n) xs @ take (nat n) xs = rotate (nat n) xs"
    using n by (cases "nat n = length xs") (simp_all add: rotate_drop_take)
  ultimately show ?thesis using q1 by auto
qed

end

interpretation fq: block_queue rep "\<lambda>q. payload (objs q)" num_free_blocks
  "\<lambda>n. n \<noteq> FakeHead \<and> n \<noteq> FakeTail" popleft popleft_n remove_block append_n
proof unfold_locales
  show "\<And>q xs. rep q xs \<Longrightarrow> distinct xs \<and> (\<forall>x \<in> set xs. x \<noteq> FakeHead \<and> x \<noteq> FakeTail)"
    by (auto dest: rep_distinct)
  show "\<exists>q'. append_n ys q = Inr q' \<and> rep q' (xs @ ys) \<and> payload (objs q') = payload (objs q)"
    if "rep q xs" "distinct (xs @ ys)" "\<forall>y \<in> set ys. y \<noteq> FakeHead \<and> y \<noteq> FakeTail" for q xs ys
    using that rep_distinct [OF that(1)] by (intro rep_append_n) auto
qed (auto intro: rep_unique rep_num rep_popleft rep_popleft_n rep_remove)

section \<open>Runs of queue operations\<close>

text \<open>
  A client's view of the queue: a sequence of operations, run on the linked list and on a plain
  list. The list run is undefined where the source's contract is violated (removing a block that
  is not free, appending one that is, popping more than there is).
\<close>

datatype queue_op = Pop | PopN int | Remove node | Append node | AppendN "node list"

fun queue_step :: "queue_op \<Rightarrow> queue \<Rightarrow> (node list \<times> queue) res" where
  "queue_step Pop q = res_bind (popleft q) (\<lambda>(b, q'). Inr ([b], q'))"
| "queue_step (PopN n) q = popleft_n n q"
| "queue_step (Remove b) q = res_bind (remove_block b q) (\<lambda>q'. Inr ([], q'))"
| "queue_step (Append b) q = res_bind (append_block b q) (\<lambda>q'. Inr ([], q'))"
| "queue_step (AppendN bs) q = res_bind (append_n bs q) (\<lambda>q'. Inr ([], q'))"

fun list_step :: "queue_op \<Rightarrow> node list \<Rightarrow> (node list \<times> node list) option" where
  "list_step Pop xs = (case xs of [] \<Rightarrow> None | x # ys \<Rightarrow> Some ([x], ys))"
| "list_step (PopN n) xs =
     (if 0 \<le> n \<and> n \<le> int (length xs) then Some (take (nat n) xs, drop (nat n) xs) else None)"
| "list_step (Remove b) xs = (if b \<in> set xs then Some ([], remove1 b xs) else None)"
| "list_step (Append b) xs =
     (if distinct (FakeHead # xs @ [b, FakeTail]) then Some ([], xs @ [b]) else None)"
| "list_step (AppendN bs) xs =
     (if distinct (FakeHead # xs @ bs @ [FakeTail]) then Some ([], xs @ bs) else None)"

primrec queue_run :: "queue_op list \<Rightarrow> queue \<Rightarrow> (node list \<times> queue) res" where
  "queue_run [] q = Inr ([], q)"
| "queue_run (a # as) q =
     res_bind (queue_step a q) (\<lambda>(out, q1). res_bind (queue_run as q1) (\<lambda>(outs, q2). Inr (out @ outs, q2)))"

primrec list_run :: "queue_op list \<Rightarrow> node list \<Rightarrow> (node list \<times> node list) option" where
  "list_run [] xs = Some ([], xs)"
| "list_run (a # as) xs =
     Option.bind (list_step a xs) (\<lambda>(out, ys). Option.bind (list_run as ys) (\<lambda>(outs, zs). Some (out @ outs, zs)))"

lemma queue_step_simulates:
  assumes r: "rep q xs" and s: "list_step a xs = Some (out, ys)"
  shows "\<exists>q'. queue_step a q = Inr (out, q') \<and> rep q' ys \<and> payload (objs q') = payload (objs q)"
proof (cases a)
  case Pop
  with s obtain x where "xs = x # ys" "out = [x]" by (auto split: list.splits)
  with fq.pop_law r show ?thesis by (fastforce simp: Pop)
next
  case (PopN n)
  with s show ?thesis using fq.pop_n_law [OF r, of n] by (auto split: if_splits)
next
  case (Remove b)
  with s show ?thesis using fq.del_member [OF r, of b] by (auto split: if_splits)
next
  case (Append b)
  with s show ?thesis using rep_append [OF r, of b] by (auto split: if_splits)
next
  case (AppendN bs)
  with s show ?thesis using rep_append_n [OF r, of bs] by (auto split: if_splits)
qed

lemma queue_run_simulates:
  "rep q xs \<Longrightarrow> list_run as xs = Some (outs, ys) \<Longrightarrow>
     \<exists>q'. queue_run as q = Inr (outs, q') \<and> rep q' ys \<and> payload (objs q') = payload (objs q)"
proof (induction as arbitrary: q xs outs)
  case Nil
  then show ?case by simp
next
  case (Cons a as)
  from Cons.prems(2) obtain out zs outs' where st: "list_step a xs = Some (out, zs)"
    "list_run as zs = Some (outs', ys)" "outs = out @ outs'"
    by (auto simp: bind_eq_Some_conv)
  from queue_step_simulates [OF Cons.prems(1) st(1)] obtain q1
    where "queue_step a q = Inr (out, q1)" "rep q1 zs" "payload (objs q1) = payload (objs q)"
    by blast
  with Cons.IH [of q1 zs outs'] st show ?case by auto
qed



text \<open>
  The bulk pop is equivalent to popping one block at a time: same blocks, same remaining
  queue, and in both cases no field but the links is written.
\<close>

lemma popleft_n_eq_pops:
  assumes "rep q xs" and "k \<le> length xs"
  shows "\<exists>q1 q2. popleft_n (int k) q = Inr (take k xs, q1) \<and>
     pop_each popleft k q = Inr (take k xs, q2) \<and>
     get_all_free_blocks q1 = get_all_free_blocks q2 \<and>
     num_free_blocks q1 = num_free_blocks q2 \<and> payload (objs q1) = payload (objs q2)"
proof -
  obtain q1 where "popleft_n (int k) q = Inr (take k xs, q1)" "rep q1 (drop k xs)"
    "payload (objs q1) = payload (objs q)"
    using fq.pop_n_law [OF assms(1), of "int k"] assms(2) by auto
  moreover obtain q2 where "pop_each popleft k q = Inr (take k xs, q2)" "rep q2 (drop k xs)"
    "payload (objs q2) = payload (objs q)"
    using fq.pop_each_law [OF assms] by auto
  ultimately show ?thesis by (auto simp: rep_get_all rep_num)
qed

end
