(* ===== verification/Block_Hash.thy ===== *)
theory Block_Hash
  imports Prelude
begin

text \<open>
  Block hashes for prefix caching: the hash and group-id keys, the extra keys of multi-modal,
  LoRA, salted and embedding requests, the chained block hash, the per-request hasher and the
  hash list at a coarser block size (\<^verbatim>\<open>vllm/v1/core/kv_cache_utils.py\<close>, lines 53-110, 373-567,
  635-686 and 2056-2123; \<^verbatim>\<open>append_output_token_ids\<close> and \<^verbatim>\<open>update_block_hashes\<close> of
  \<^verbatim>\<open>vllm/v1/request.py\<close>).
  The hash function is an argument here as it is in the source; \<^verbatim>\<open>NONE_HASH\<close> and the SHA-256
  digest of an embedding slice are arguments too.
\<close>

section \<open>Keys\<close>

definition to_bytes4 :: "int \<Rightarrow> bytes res" where
  "to_bytes4 g =
     (if 0 \<le> g \<and> g < 2 ^ 32
      then Inr (map (\<lambda>k. word_of_int (g div 256 ^ k)) [3, 2, 1, 0])
      else Inl OverflowError)"

definition from_bytes :: "bytes \<Rightarrow> int" where
  "from_bytes bs = foldl (\<lambda>a b. a * 256 + uint b) 0 bs"

definition make_block_hash_with_group_id :: "bytes \<Rightarrow> int \<Rightarrow> bytes res" where
  "make_block_hash_with_group_id block_hash group_id =
     res_bind (to_bytes4 group_id) (\<lambda>b. Inr (block_hash @ b))"

definition get_block_hash :: "bytes \<Rightarrow> bytes" where
  "get_block_hash key = take (length key - 4) key"

definition get_group_id :: "bytes \<Rightarrow> int" where
  "get_group_id key = from_bytes (drop (length key - 4) key)"

datatype ExternalBlockHash = ExtBytes bytes | ExtInt int

definition maybe_convert_block_hash :: "bool \<Rightarrow> bytes \<Rightarrow> ExternalBlockHash" where
  "maybe_convert_block_hash use_int hash_bytes =
     (if \<not> use_int then ExtBytes hash_bytes else ExtInt (from_bytes hash_bytes mod 2 ^ 64))"

section \<open>Requests and extra keys\<close>

record mm_feature =
  mm_identifier :: string
  mm_offset :: int
  mm_length :: int

text \<open>
  An element of the extra-key tuple. Python compares the tuple's elements by value, so a LoRA
  name and a cache salt are both plain strings here.
\<close>

datatype py_key = KStr string | KPair string int | KBytes bytes

record Request =
  request_id :: string
  all_token_ids :: "int list"
  mm_features :: "mm_feature list"
  lora_request :: "(string \<times> int) option"
  cache_salt :: "string option"
  prompt_embeds :: "int list list option"
  prompt_embeds_per_block_hashes :: "((int \<times> int) \<times> bytes) list"
  block_hashes :: "bytes list"

definition py_slice :: "'a list \<Rightarrow> int \<Rightarrow> int \<Rightarrow> 'a list" where
  "py_slice xs s e = take (nat (e - s)) (drop (nat s) xs)"

definition need_extra_keys :: "Request \<Rightarrow> bool" where
  "need_extra_keys r \<longleftrightarrow> mm_features r \<noteq> [] \<or> lora_request r \<noteq> None \<or> cache_salt r \<noteq> None"

text \<open>The loop over the features from index \<open>idx\<close> on, the argument list being that suffix.\<close>

fun mm_loop :: "mm_feature list \<Rightarrow> int \<Rightarrow> int \<Rightarrow> int \<Rightarrow> py_key list \<Rightarrow> py_key list \<times> int" where
  "mm_loop [] s e idx keys = (keys, idx)"
| "mm_loop (f # fs) s e idx keys =
     (if mm_offset f < e then
        if mm_offset f + mm_length f \<le> s then mm_loop fs s e (idx + 1) keys
        else
          let keys' = keys @ [KPair (mm_identifier f) (mm_offset f - s)]
          in if mm_offset f + mm_length f \<le> e then mm_loop fs s e (idx + 1) keys'
             else (keys', idx)
      else (keys, idx))"

definition gen_mm_extra_hash_keys ::
  "Request \<Rightarrow> int \<Rightarrow> int \<Rightarrow> int \<Rightarrow> (py_key list \<times> int) res" where
  "gen_mm_extra_hash_keys r s e start_mm_idx =
     (let fs = mm_features r in
      if fs = [] then Inr ([], start_mm_idx)
      else if mm_offset (last fs) + mm_length (last fs) \<le> s then Inr ([], start_mm_idx)
      else if start_mm_idx < 0 \<and> \<not> - start_mm_idx \<le> int (length fs) then Inl AssertionError
      else
        let i = (if start_mm_idx < 0 then int (length fs) + start_mm_idx else start_mm_idx)
        in Inr (mm_loop (drop (nat i) fs) s e i []))"

definition gen_lora_extra_hash_keys :: "Request \<Rightarrow> py_key list" where
  "gen_lora_extra_hash_keys r =
     (case lora_request r of None \<Rightarrow> [] | Some (name, _) \<Rightarrow> [KStr name])"

definition gen_prompt_embeds_extra_hash_keys ::
  "(int list list \<Rightarrow> bytes) \<Rightarrow> Request \<Rightarrow> int \<Rightarrow> int \<Rightarrow> py_key list \<times> Request" where
  "gen_prompt_embeds_extra_hash_keys sha r s e =
     (case prompt_embeds r of
        None \<Rightarrow> ([], r)
      | Some rows \<Rightarrow>
          (case map_of (prompt_embeds_per_block_hashes r) (s, e) of
             Some h \<Rightarrow> ([KBytes h], r)
           | None \<Rightarrow>
               let h = sha (py_slice rows s e)
               in ([KBytes h], r\<lparr>prompt_embeds_per_block_hashes :=
                     ((s, e), h) # prompt_embeds_per_block_hashes r\<rparr>)))"

definition cache_salt_keys :: "Request \<Rightarrow> int \<Rightarrow> py_key list" where
  "cache_salt_keys r s =
     (case cache_salt r of
        Some salt \<Rightarrow> if s = 0 \<and> salt \<noteq> [] then [KStr salt] else []
      | None \<Rightarrow> [])"

definition generate_block_hash_extra_keys ::
  "(int list list \<Rightarrow> bytes) \<Rightarrow> Request \<Rightarrow> int \<Rightarrow> int \<Rightarrow> int
     \<Rightarrow> (py_key list option \<times> int \<times> Request) res" where
  "generate_block_hash_extra_keys sha r s e start_mm_idx =
     res_bind (gen_mm_extra_hash_keys r s e start_mm_idx) (\<lambda>(mm_keys, idx).
       case gen_prompt_embeds_extra_hash_keys sha r s e of (embed_keys, r') \<Rightarrow>
         let keys = gen_lora_extra_hash_keys r @ mm_keys @ cache_salt_keys r s @ embed_keys
         in Inr (if keys = [] then None else Some keys, idx, r'))"

section \<open>Block hashes\<close>

type_synonym hash_fn = "bytes \<times> int list \<times> py_key list option \<Rightarrow> bytes"

definition hash_block_tokens ::
  "bytes \<Rightarrow> hash_fn \<Rightarrow> bytes option \<Rightarrow> int list \<Rightarrow> py_key list option \<Rightarrow> bytes" where
  "hash_block_tokens NONE_HASH hash_function parent toks extra_keys =
     (let p = (case parent of None \<Rightarrow> NONE_HASH | Some b \<Rightarrow> if b = [] then NONE_HASH else b)
      in hash_function (p, toks, extra_keys))"

text \<open>
  The \<^verbatim>\<open>while True\<close> loop of the hasher. \<^const>\<open>None\<close> is a loop that does not end, which a block
  size of zero would give.
\<close>

partial_function (option) hasher_loop ::
  "(int list list \<Rightarrow> bytes) \<Rightarrow> bytes \<Rightarrow> hash_fn \<Rightarrow> int \<Rightarrow> Request \<Rightarrow> int \<Rightarrow> int
     \<Rightarrow> bytes option \<Rightarrow> bytes list \<Rightarrow> (bytes list \<times> Request) res option" where
  "hasher_loop sha NONE_HASH hash_function bs r s mm_idx prev out =
     (let e = s + bs in
      if int (length (all_token_ids r)) < e then Some (Inr (out, r))
      else (case generate_block_hash_extra_keys sha r s e mm_idx of
              Inl err \<Rightarrow> Some (Inl err)
            | Inr (keys, mm_idx', r') \<Rightarrow>
                let h = hash_block_tokens NONE_HASH hash_function prev
                          (py_slice (all_token_ids r) s e) keys
                in hasher_loop sha NONE_HASH hash_function bs r' e mm_idx' (Some h) (out @ [h])))"

declare hasher_loop.simps [code]

definition request_block_hasher ::
  "(int list list \<Rightarrow> bytes) \<Rightarrow> bytes \<Rightarrow> hash_fn \<Rightarrow> int \<Rightarrow> Request
     \<Rightarrow> (bytes list \<times> Request) res option" where
  "request_block_hasher sha NONE_HASH hash_function bs r =
     (let s = int (length (block_hashes r)) * bs in
      if int (length (all_token_ids r)) < s + bs then Some (Inr ([], r))
      else hasher_loop sha NONE_HASH hash_function bs r s (if s > 0 then - 1 else 0)
             (if block_hashes r = [] then None else Some (last (block_hashes r))) [])"

definition update_block_hashes ::
  "(int list list \<Rightarrow> bytes) \<Rightarrow> bytes \<Rightarrow> hash_fn \<Rightarrow> int \<Rightarrow> Request \<Rightarrow> Request res option" where
  "update_block_hashes sha NONE_HASH hash_function bs r =
     map_option (\<lambda>m. res_bind m (\<lambda>(new, r'). Inr (r'\<lparr>block_hashes := block_hashes r' @ new\<rparr>)))
       (request_block_hasher sha NONE_HASH hash_function bs r)"

definition append_output_token_ids ::
  "(int list list \<Rightarrow> bytes) \<Rightarrow> bytes \<Rightarrow> hash_fn \<Rightarrow> int \<Rightarrow> int list \<Rightarrow> Request \<Rightarrow> Request res option" where
  "append_output_token_ids sha NONE_HASH hash_function bs toks r =
     update_block_hashes sha NONE_HASH hash_function bs
       (r\<lparr>all_token_ids := all_token_ids r @ toks\<rparr>)"

section \<open>Hash lists at a coarser block size\<close>

record BlockHashListWithBlockSize =
  bl_hashes :: "bytes list"
  scale_factor :: int

definition make_block_hash_list :: "bytes list \<Rightarrow> int \<Rightarrow> int \<Rightarrow> BlockHashListWithBlockSize res" where
  "make_block_hash_list hs hash_block_size target_block_size =
     (if hash_block_size = 0 then Inl ZeroDivisionError
      else if target_block_size mod hash_block_size = 0
      then Inr \<lparr>bl_hashes = hs, scale_factor = target_block_size div hash_block_size\<rparr>
      else Inl AssertionError)"

definition bl_len :: "BlockHashListWithBlockSize \<Rightarrow> int" where
  "bl_len l = int (length (bl_hashes l)) div scale_factor l"

definition get_value_at :: "BlockHashListWithBlockSize \<Rightarrow> int \<Rightarrow> bytes" where
  "get_value_at l idx =
     (let base = idx * scale_factor l
      in concat (py_slice (bl_hashes l) base (base + scale_factor l)))"

definition bl_from :: "BlockHashListWithBlockSize \<Rightarrow> int \<Rightarrow> bytes list" where
  "bl_from l start = map (get_value_at l) [start..bl_len l - 1]"

section \<open>Keys round trip\<close>

lemma to_bytes4_length: "to_bytes4 g = Inr b \<Longrightarrow> length b = 4"
  by (auto simp: to_bytes4_def split: if_splits)

lemma base256_digits:
  fixes g :: int
  assumes "g = 256 * a + x" "a = 256 * b + y" "b = 256 * c + z" "c' = c"
  shows "((c' * 256 + z) * 256 + y) * 256 + x = g"
  using assms by simp

lemma from_to_bytes4: "to_bytes4 g = Inr b \<Longrightarrow> from_bytes b = g"
proof -
  assume *: "to_bytes4 g = Inr b"
  then have g: "0 \<le> g" "g < 2 ^ 32"
    and b: "b = map (\<lambda>k. word_of_int (g div 256 ^ k)) [3, 2, 1, 0]"
    by (auto simp: to_bytes4_def split: if_splits)
  have u: "uint (word_of_int x :: 8 word) = x mod 256" for x :: int
    by (simp add: uint_word_of_int)
  have "from_bytes b = ((g div 256 ^ 3 mod 256 * 256 + g div 256 ^ 2 mod 256) * 256
      + g div 256 mod 256) * 256 + g mod 256"
    by (simp add: b from_bytes_def u)
  also have "\<dots> = g"
  proof -
    have d: "g div 256 ^ 2 = g div 256 div 256" "g div 256 ^ 3 = g div 256 div 256 div 256"
      by (simp_all add: zdiv_zmult2_eq [symmetric])
    have "0 \<le> g div 256 div 256 div 256" "g div 256 div 256 div 256 < 256" using g by simp_all
    then have "g div 256 div 256 div 256 mod 256 = g div 256 div 256 div 256" by simp
    then show ?thesis unfolding d
      by (intro base256_digits mult_div_mod_eq [symmetric]) (simp_all add: mult_div_mod_eq)
  qed
  finally show "from_bytes b = g" .
qed

lemma make_key_cases:
  "make_block_hash_with_group_id h g = Inr k \<longleftrightarrow> (\<exists>b. to_bytes4 g = Inr b \<and> k = h @ b)"
  by (auto simp: make_block_hash_with_group_id_def res_simps)

section \<open>Reference semantics of the hashes\<close>

definition mm_end :: "mm_feature \<Rightarrow> int" where
  "mm_end f = mm_offset f + mm_length f"

definition mm_sorted :: "mm_feature list \<Rightarrow> bool" where
  "mm_sorted fs \<longleftrightarrow> sorted_wrt (\<lambda>f g. mm_end f \<le> mm_offset g) fs \<and> (\<forall>f \<in> set fs. 0 < mm_length f)"

definition mm_keys :: "mm_feature list \<Rightarrow> int \<Rightarrow> int \<Rightarrow> py_key list" where
  "mm_keys fs s e = map (\<lambda>f. KPair (mm_identifier f) (mm_offset f - s))
     (filter (\<lambda>f. mm_offset f < e \<and> s < mm_end f) fs)"

definition embed_keys :: "(int list list \<Rightarrow> bytes) \<Rightarrow> Request \<Rightarrow> int \<Rightarrow> int \<Rightarrow> py_key list" where
  "embed_keys sha r s e =
     (case prompt_embeds r of None \<Rightarrow> [] | Some rows \<Rightarrow> [KBytes (sha (py_slice rows s e))])"

definition block_keys :: "(int list list \<Rightarrow> bytes) \<Rightarrow> Request \<Rightarrow> int \<Rightarrow> int \<Rightarrow> py_key list option" where
  "block_keys sha r s e =
     (let ks = gen_lora_extra_hash_keys r @ mm_keys (mm_features r) s e @ cache_salt_keys r s
               @ embed_keys sha r s e
      in if ks = [] then None else Some ks)"

primrec chain_hashes ::
  "bytes \<Rightarrow> hash_fn \<Rightarrow> int \<Rightarrow> int list \<Rightarrow> (int \<Rightarrow> int \<Rightarrow> py_key list option)
     \<Rightarrow> nat \<Rightarrow> int \<Rightarrow> bytes option \<Rightarrow> bytes list" where
  "chain_hashes N f bs toks K 0 s prev = []"
| "chain_hashes N f bs toks K (Suc k) s prev =
     (let h = hash_block_tokens N f prev (py_slice toks s (s + bs)) (K s (s + bs))
      in h # chain_hashes N f bs toks K k (s + bs) (Some h))"

definition ref_hashes :: "(int list list \<Rightarrow> bytes) \<Rightarrow> bytes \<Rightarrow> hash_fn \<Rightarrow> int \<Rightarrow> Request \<Rightarrow> bytes list" where
  "ref_hashes sha N f bs r = chain_hashes N f bs (all_token_ids r) (block_keys sha r)
     (length (all_token_ids r) div nat bs) 0 None"

definition memo_ok :: "(int list list \<Rightarrow> bytes) \<Rightarrow> Request \<Rightarrow> bool" where
  "memo_ok sha r \<longleftrightarrow> (\<forall>rows s e h. prompt_embeds r = Some rows \<longrightarrow>
     map_of (prompt_embeds_per_block_hashes r) (s, e) = Some h \<longrightarrow> h = sha (py_slice rows s e))"

definition same_but_memo :: "Request \<Rightarrow> Request \<Rightarrow> bool" where
  "same_but_memo r r' \<longleftrightarrow> (\<exists>m. r' = r\<lparr>prompt_embeds_per_block_hashes := m\<rparr>)"

lemma same_but_memo_refl [simp]: "same_but_memo r r"
  unfolding same_but_memo_def by (rule exI [of _ "prompt_embeds_per_block_hashes r"]) simp

lemma same_but_memo_trans: "same_but_memo r r' \<Longrightarrow> same_but_memo r' r'' \<Longrightarrow> same_but_memo r r''"
  unfolding same_but_memo_def by auto

lemma same_but_memo_hashes:
  "same_but_memo r r' \<Longrightarrow> same_but_memo (r\<lparr>block_hashes := h\<rparr>) (r'\<lparr>block_hashes := h\<rparr>)"
  unfolding same_but_memo_def by (cases r) auto

lemma same_but_memo_fields:
  assumes "same_but_memo r r'"
  shows "all_token_ids r' = all_token_ids r" "mm_features r' = mm_features r"
    "block_keys sha r' = block_keys sha r" "block_hashes r' = block_hashes r"
    "prompt_embeds r' = prompt_embeds r"
  using assms
  by (auto simp: same_but_memo_def block_keys_def gen_lora_extra_hash_keys_def cache_salt_keys_def
      embed_keys_def fun_eq_iff)

lemma gen_embeds_spec:
  assumes "memo_ok sha r"
  shows "\<exists>r'. gen_prompt_embeds_extra_hash_keys sha r s e = (embed_keys sha r s e, r') \<and>
     same_but_memo r r' \<and> memo_ok sha r'"
proof (cases "prompt_embeds r")
  case None
  then show ?thesis using assms
    by (auto simp: gen_prompt_embeds_extra_hash_keys_def embed_keys_def)
next
  case (Some rows)
  show ?thesis
  proof (cases "map_of (prompt_embeds_per_block_hashes r) (s, e)")
    case None
    with Some assms show ?thesis
      by (auto simp: gen_prompt_embeds_extra_hash_keys_def embed_keys_def Let_def memo_ok_def
          same_but_memo_def)
  next
    case (Some h)
    with \<open>prompt_embeds r = Some rows\<close> assms show ?thesis
      by (auto simp: gen_prompt_embeds_extra_hash_keys_def embed_keys_def memo_ok_def)
  qed
qed

section \<open>Multi-modal keys\<close>

definition idx_ok :: "mm_feature list \<Rightarrow> int \<Rightarrow> int \<Rightarrow> bool" where
  "idx_ok fs s i \<longleftrightarrow>
     (0 \<le> i \<and> i \<le> int (length fs) \<and> (\<forall>f \<in> set (take (nat i) fs). mm_end f \<le> s)) \<or>
     (i = - 1 \<and> (\<forall>f \<in> set (butlast fs). mm_end f \<le> s))"

lemma idx_ok_mono: "idx_ok fs s i \<Longrightarrow> s \<le> t \<Longrightarrow> idx_ok fs t i"
  by (fastforce simp: idx_ok_def)

lemma mm_sorted_Cons:
  "mm_sorted (f # fs) \<Longrightarrow> mm_sorted fs \<and> 0 < mm_length f \<and> (\<forall>g \<in> set fs. mm_end f \<le> mm_offset g)"
  by (auto simp: mm_sorted_def)

lemma mm_sorted_last: "mm_sorted fs \<Longrightarrow> f \<in> set fs \<Longrightarrow> mm_end f \<le> mm_end (last fs)"
  by (induction fs rule: rev_induct) (force simp: mm_sorted_def sorted_wrt_append mm_end_def)+

lemma mm_keys_past: "\<forall>f \<in> set fs. mm_end f \<le> s \<Longrightarrow> mm_keys fs s e = []"
  by (auto simp: mm_keys_def filter_empty_conv)

lemma mm_keys_future: "\<forall>f \<in> set fs. e \<le> mm_offset f \<Longrightarrow> mm_keys fs s e = []"
  by (auto simp: mm_keys_def filter_empty_conv)

lemma mm_keys_append: "mm_keys (fs @ gs) s e = mm_keys fs s e @ mm_keys gs s e"
  by (simp add: mm_keys_def)

lemma mm_loop_spec:
  assumes "mm_sorted fs" "s < e"
  shows "\<exists>k \<le> length fs. mm_loop fs s e i keys = (keys @ mm_keys fs s e, i + int k) \<and>
     (\<forall>f \<in> set (take k fs). mm_end f \<le> e)"
  using assms(1)
proof (induction fs arbitrary: i keys)
  case Nil
  then show ?case by (simp add: mm_keys_def)
next
  case (Cons f fs)
  note srt = mm_sorted_Cons [OF Cons.prems]
  have keys_Cons: "mm_keys (f # fs) s e =
      (if mm_offset f < e \<and> s < mm_end f then [KPair (mm_identifier f) (mm_offset f - s)] else [])
      @ mm_keys fs s e"
    by (simp add: mm_keys_def)
  consider (future) "e \<le> mm_offset f"
    | (past) "mm_offset f < e" "mm_end f \<le> s"
    | (ends) "mm_offset f < e" "s < mm_end f" "mm_end f \<le> e"
    | (spans) "mm_offset f < e" "s < mm_end f" "e < mm_end f"
    by linarith
  then show ?case
  proof cases
    case future
    with srt have "\<forall>g \<in> set (f # fs). e \<le> mm_offset g" by (auto simp: mm_end_def)
    then show ?thesis using future
      by (intro exI [of _ 0]) (simp add: mm_keys_future)
  next
    case past
    with Cons.IH [of "i + 1" keys] srt obtain k where "k \<le> length fs"
      "mm_loop fs s e (i + 1) keys = (keys @ mm_keys fs s e, i + 1 + int k)"
      "\<forall>g \<in> set (take k fs). mm_end g \<le> e" by auto
    with past assms(2) show ?thesis
      by (intro exI [of _ "Suc k"]) (auto simp: keys_Cons mm_end_def)
  next
    case ends
    let ?keys = "keys @ [KPair (mm_identifier f) (mm_offset f - s)]"
    from Cons.IH [of "i + 1" ?keys] srt obtain k where "k \<le> length fs"
      "mm_loop fs s e (i + 1) ?keys = (?keys @ mm_keys fs s e, i + 1 + int k)"
      "\<forall>g \<in> set (take k fs). mm_end g \<le> e" by auto
    with ends show ?thesis
      by (intro exI [of _ "Suc k"]) (auto simp: keys_Cons mm_end_def Let_def)
  next
    case spans
    with srt have "mm_keys fs s e = []" by (intro mm_keys_future) auto
    with spans show ?thesis
      by (intro exI [of _ 0]) (auto simp: keys_Cons mm_end_def Let_def)
  qed
qed

lemma gen_mm_spec:
  assumes srt: "mm_sorted (mm_features r)" and ok: "idx_ok (mm_features r) s i" and "s < e"
  shows "\<exists>i'. gen_mm_extra_hash_keys r s e i = Inr (mm_keys (mm_features r) s e, i') \<and>
     idx_ok (mm_features r) e i'"
proof -
  let ?fs = "mm_features r"
  consider (none) "?fs = []" | (past) "?fs \<noteq> []" "mm_end (last ?fs) \<le> s"
    | (loop) "?fs \<noteq> []" "s < mm_end (last ?fs)" by linarith
  then show ?thesis
  proof cases
    case none
    then show ?thesis using ok \<open>s < e\<close>
      by (auto simp: gen_mm_extra_hash_keys_def mm_keys_def idx_ok_def)
  next
    case past
    then have "\<forall>f \<in> set ?fs. mm_end f \<le> s"
      using mm_sorted_last [OF srt] by force
    then have "mm_keys ?fs s e = []" by (intro mm_keys_past) auto
    with past ok \<open>s < e\<close> show ?thesis
      by (auto simp: gen_mm_extra_hash_keys_def mm_end_def Let_def intro: idx_ok_mono)
  next
    case loop
    define j where "j = (if i < 0 then int (length ?fs) + i else i)"
    have j: "0 \<le> j" "j \<le> int (length ?fs)" "\<forall>f \<in> set (take (nat j) ?fs). mm_end f \<le> s"
      and no_assert: "\<not> (i < 0 \<and> \<not> - i \<le> int (length ?fs))"
      using ok loop(1) by (auto simp: idx_ok_def j_def butlast_conv_take nat_diff_distrib Suc_leI)
    have "mm_sorted (drop (nat j) ?fs)"
      using srt by (auto simp: mm_sorted_def sorted_wrt_drop dest: in_set_dropD)
    from mm_loop_spec [OF this \<open>s < e\<close>, of j "[]"] obtain k where k: "k \<le> length (drop (nat j) ?fs)"
      "mm_loop (drop (nat j) ?fs) s e j [] = (mm_keys (drop (nat j) ?fs) s e, j + int k)"
      "\<forall>f \<in> set (take k (drop (nat j) ?fs)). mm_end f \<le> e" by auto
    have "mm_keys ?fs s e = mm_keys (drop (nat j) ?fs) s e"
      using mm_keys_append [of "take (nat j) ?fs" "drop (nat j) ?fs" s e] mm_keys_past [OF j(3), of e]
      by simp
    moreover have "idx_ok ?fs e (j + int k)"
      using j k(1,3) \<open>s < e\<close>
      by (auto simp: idx_ok_def nat_add_distrib take_add)
    moreover have "gen_mm_extra_hash_keys r s e i = Inr (mm_loop (drop (nat j) ?fs) s e j [])"
      using loop no_assert by (simp add: gen_mm_extra_hash_keys_def mm_end_def Let_def j_def)
    ultimately show ?thesis
      unfolding k(2) by (intro exI [of _ "j + int k"]) simp
  qed
qed

section \<open>The hasher computes the reference hashes\<close>

lemma extra_keys_spec:
  assumes "memo_ok sha r" "mm_sorted (mm_features r)" "idx_ok (mm_features r) s i" "s < e"
  shows "\<exists>i' r'. generate_block_hash_extra_keys sha r s e i = Inr (block_keys sha r s e, i', r') \<and>
     idx_ok (mm_features r) e i' \<and> same_but_memo r r' \<and> memo_ok sha r'"
proof -
  obtain i' where "gen_mm_extra_hash_keys r s e i = Inr (mm_keys (mm_features r) s e, i')"
    "idx_ok (mm_features r) e i'"
    using gen_mm_spec [OF assms(2-4)] by blast
  moreover obtain r' where "gen_prompt_embeds_extra_hash_keys sha r s e = (embed_keys sha r s e, r')"
    "same_but_memo r r'" "memo_ok sha r'"
    using gen_embeds_spec [OF assms(1)] by blast
  ultimately show ?thesis
    by (intro exI [of _ i'] exI [of _ r'])
      (simp add: generate_block_hash_extra_keys_def block_keys_def Let_def)
qed

lemma hasher_loop_spec:
  assumes "0 < bs" "memo_ok sha r" "mm_sorted (mm_features r)" "idx_ok (mm_features r) s i"
    and "int k * bs \<le> int (length (all_token_ids r)) - s"
    and "int (length (all_token_ids r)) - s < int k * bs + bs"
  shows "\<exists>r'. hasher_loop sha N f bs r s i prev out =
       Some (Inr (out @ chain_hashes N f bs (all_token_ids r) (block_keys sha r) k s prev, r')) \<and>
     same_but_memo r r' \<and> memo_ok sha r'"
  using assms(2-)
proof (induction k arbitrary: r s i prev out)
  case 0
  then show ?case by (intro exI [of _ r]) (simp add: hasher_loop.simps [of sha N f bs r s])
next
  case (Suc k)
  obtain i' r' where g: "generate_block_hash_extra_keys sha r s (s + bs) i =
      Inr (block_keys sha r s (s + bs), i', r')"
    and r': "idx_ok (mm_features r) (s + bs) i'" "same_but_memo r r'" "memo_ok sha r'"
    using extra_keys_spec [of sha r s i "s + bs"] Suc.prems assms(1) by auto
  let ?h = "hash_block_tokens N f prev (py_slice (all_token_ids r) s (s + bs)) (block_keys sha r s (s + bs))"
  note fld = same_but_memo_fields [OF r'(2)]
  from Suc.IH [of r' "s + bs" i' "Some ?h" "out @ [?h]"] obtain r'' where
    "hasher_loop sha N f bs r' (s + bs) i' (Some ?h) (out @ [?h]) =
       Some (Inr ((out @ [?h]) @ chain_hashes N f bs (all_token_ids r) (block_keys sha r) k (s + bs) (Some ?h), r''))"
    "same_but_memo r' r''" "memo_ok sha r''"
    using Suc.prems r' by (auto simp: fld algebra_simps)
  moreover have "\<not> int (length (all_token_ids r)) < s + bs"
  proof -
    have "0 \<le> int k * bs" using assms(1) by simp
    then show ?thesis using Suc.prems(4) by (simp add: algebra_simps)
  qed
  ultimately show ?case
    using g r'(2) by (intro exI [of _ r'']) (auto simp: hasher_loop.simps [of sha N f bs r s] Let_def
        intro: same_but_memo_trans)
qed

lemma chain_length [simp]: "length (chain_hashes N f bs toks K n s prev) = n"
  by (induction n arbitrary: s prev) (simp_all add: Let_def)

lemma chain_Nil [simp]: "chain_hashes N f bs toks K n s prev = [] \<longleftrightarrow> n = 0"
  by (cases n) (simp_all add: Let_def)

lemma chain_add:
  "chain_hashes N f bs toks K (j + k) s prev =
     chain_hashes N f bs toks K j s prev @
     chain_hashes N f bs toks K k (s + int j * bs)
       (if j = 0 then prev else Some (last (chain_hashes N f bs toks K j s prev)))"
  by (induction j arbitrary: s prev) (auto simp: Let_def algebra_simps)

lemma py_slice_append:
  "0 \<le> s \<Longrightarrow> e \<le> int (length xs) \<Longrightarrow> py_slice (xs @ ys) s e = py_slice xs s e"
  by (cases "nat s \<le> length xs") (auto simp: py_slice_def)

lemma chain_append_tokens:
  "0 < bs \<Longrightarrow> 0 \<le> s \<Longrightarrow> s + int n * bs \<le> int (length toks) \<Longrightarrow>
     chain_hashes N f bs (toks @ xs) K n s prev = chain_hashes N f bs toks K n s prev"
proof (induction n arbitrary: s prev)
  case 0
  then show ?case by simp
next
  case (Suc n)
  have "0 \<le> int n * bs" using Suc.prems(1) by simp
  then have "s + bs \<le> int (length toks)" using Suc.prems(3) by (simp add: algebra_simps)
  with Suc.IH [of "s + bs"] Suc.prems show ?case
    by (simp add: py_slice_append Let_def algebra_simps)
qed

lemma blocks_bound:
  assumes "0 < bs"
  shows "int (len div nat bs) * bs \<le> int len" "int len < int (len div nat bs) * bs + bs"
proof -
  have b: "int (nat bs) = bs" using assms by simp
  have e: "int (len div nat bs) = int len div bs" by (metis zdiv_int b)
  show "int (len div nat bs) * bs \<le> int len"
    unfolding e using assms by (simp add: minus_mod_eq_div_mult [symmetric])
  show "int len < int (len div nat bs) * bs + bs"
    unfolding e using assms pos_mod_bound [of bs "int len"] div_mult_mod_eq [of "int len" bs] by linarith
qed

lemma update_block_hashes_spec:
  assumes bs: "0 < bs" and m: "memo_ok sha r" and srt: "mm_sorted (mm_features r)"
    and pre: "block_hashes r = chain_hashes N f bs (all_token_ids r) (block_keys sha r) j 0 None"
    and j: "j \<le> length (all_token_ids r) div nat bs"
    and tail: "j \<noteq> 0 \<longrightarrow> (\<forall>g \<in> set (butlast (mm_features r)). mm_end g \<le> int j * bs)"
  shows "\<exists>r'. update_block_hashes sha N f bs r = Some (Inr r') \<and>
     block_hashes r' = ref_hashes sha N f bs r \<and>
     same_but_memo (r\<lparr>block_hashes := block_hashes r'\<rparr>) r' \<and> memo_ok sha r'"
proof -
  let ?len = "length (all_token_ids r)" and ?s = "int j * bs"
  let ?C = "chain_hashes N f bs (all_token_ids r) (block_keys sha r)"
  let ?prev = "if j = 0 then None else Some (last (?C j 0 None))"
  obtain k where k: "?len div nat bs = j + k" using j le_Suc_ex by blast
  have bb: "int (j + k) * bs \<le> int ?len" "int ?len < int (j + k) * bs + bs"
    using blocks_bound [OF bs, of ?len] k by simp_all
  have kb: "int k * bs \<le> int ?len - ?s" "int ?len - ?s < int k * bs + bs"
    using bb by (simp_all add: algebra_simps)
  have idx: "idx_ok (mm_features r) ?s (if ?s > 0 then - 1 else 0)"
    using tail bs by (auto simp: idx_ok_def zero_less_mult_iff)
  have ref: "ref_hashes sha N f bs r = ?C j 0 None @ ?C k ?s ?prev"
    by (simp add: ref_hashes_def k chain_add)
  have len: "length (block_hashes r) = j" using pre by simp
  obtain r' where r': "request_block_hasher sha N f bs r = Some (Inr (?C k ?s ?prev, r'))"
    "same_but_memo r r'" "memo_ok sha r'"
  proof (cases "int ?len < ?s + bs")
    case True
    then have "k = 0"
    proof (cases k)
      case (Suc k')
      have "0 \<le> int k' * bs" using bs by simp
      with Suc kb(1) True show ?thesis by (simp add: algebra_simps)
    qed simp
    with True m show ?thesis
      by (intro that [of r]) (simp_all add: request_block_hasher_def len)
  next
    case False
    have prev: "(if block_hashes r = [] then None else Some (last (block_hashes r))) = ?prev"
      using len pre by auto
    obtain r0 where "hasher_loop sha N f bs r ?s (if ?s > 0 then - 1 else 0) ?prev [] =
        Some (Inr (?C k ?s ?prev, r0))" "same_but_memo r r0" "memo_ok sha r0"
      using hasher_loop_spec [OF bs m srt idx kb, of N f ?prev "[]"] by auto
    moreover from this(1) have "request_block_hasher sha N f bs r = Some (Inr (?C k ?s ?prev, r0))"
      using False unfolding request_block_hasher_def len Let_def prev by simp
    ultimately show ?thesis using that by blast
  qed
  have "update_block_hashes sha N f bs r = Some (Inr (r'\<lparr>block_hashes := ref_hashes sha N f bs r\<rparr>))"
    using r'(1) same_but_memo_fields(4) [OF r'(2)] ref pre by (simp add: update_block_hashes_def)
  with r'(2,3) show ?thesis
    by (intro exI [of _ "r'\<lparr>block_hashes := ref_hashes sha N f bs r\<rparr>"])
      (simp add: same_but_memo_hashes memo_ok_def)
qed

lemma ref_hashes_append:
  assumes "0 < bs"
  shows "\<exists>j \<le> length (all_token_ids r @ toks) div nat bs. j = length (all_token_ids r) div nat bs \<and>
     ref_hashes sha N f bs r =
       chain_hashes N f bs (all_token_ids r @ toks) (block_keys sha r) j 0 None"
proof -
  let ?j = "length (all_token_ids r) div nat bs"
  have "?j \<le> length (all_token_ids r @ toks) div nat bs" by (simp add: div_le_mono)
  moreover have "int ?j * bs \<le> int (length (all_token_ids r))" using blocks_bound [OF assms] by simp
  then have "ref_hashes sha N f bs r =
       chain_hashes N f bs (all_token_ids r @ toks) (block_keys sha r) ?j 0 None"
    using chain_append_tokens [OF assms, of 0 ?j "all_token_ids r"] by (simp add: ref_hashes_def)
  ultimately show ?thesis by blast
qed

lemma ref_hashes_cong:
  "all_token_ids r = all_token_ids r' \<Longrightarrow> block_keys sha r = block_keys sha r' \<Longrightarrow>
     ref_hashes sha N f bs r = ref_hashes sha N f bs r'"
  by (simp add: ref_hashes_def)

lemma block_keys_upd [simp]:
  "block_keys sha (r\<lparr>all_token_ids := t\<rparr>) = block_keys sha r"
  "block_keys sha (r\<lparr>block_hashes := h\<rparr>) = block_keys sha r"
  by (simp_all add: block_keys_def gen_lora_extra_hash_keys_def cache_salt_keys_def embed_keys_def
      fun_eq_iff)

lemma memo_ok_upd [simp]:
  "memo_ok sha (r\<lparr>all_token_ids := t\<rparr>) = memo_ok sha r"
  by (simp add: memo_ok_def)

definition same_request :: "Request \<Rightarrow> Request \<Rightarrow> bool" where
  "same_request r r' \<longleftrightarrow> mm_features r' = mm_features r \<and> lora_request r' = lora_request r \<and>
     cache_salt r' = cache_salt r \<and> prompt_embeds r' = prompt_embeds r"

lemma same_request_keys: "same_request r r' \<Longrightarrow> block_keys sha r' = block_keys sha r"
  by (auto simp: same_request_def block_keys_def gen_lora_extra_hash_keys_def cache_salt_keys_def
      embed_keys_def fun_eq_iff)

lemma same_request_trans: "same_request r r' \<Longrightarrow> same_request r' r'' \<Longrightarrow> same_request r r''"
  by (simp add: same_request_def)

lemma same_but_memo_request: "same_but_memo r r' \<Longrightarrow> same_request r r'"
  by (auto simp: same_but_memo_def same_request_def)

lemma append_output_spec:
  assumes bs: "0 < bs" and m: "memo_ok sha r" and srt: "mm_sorted (mm_features r)"
    and h: "block_hashes r = ref_hashes sha N f bs r"
    and tail: "block_hashes r \<noteq> [] \<longrightarrow>
      (\<forall>g \<in> set (butlast (mm_features r)). mm_end g \<le> int (length (block_hashes r)) * bs)"
  shows "\<exists>r'. append_output_token_ids sha N f bs toks r = Some (Inr r') \<and>
     block_hashes r' = ref_hashes sha N f bs r' \<and> all_token_ids r' = all_token_ids r @ toks \<and>
     same_request r r' \<and> memo_ok sha r'"
proof -
  let ?r = "r\<lparr>all_token_ids := all_token_ids r @ toks\<rparr>"
  obtain j where j: "j \<le> length (all_token_ids r @ toks) div nat bs"
    "ref_hashes sha N f bs r =
       chain_hashes N f bs (all_token_ids r @ toks) (block_keys sha r) j 0 None"
    using ref_hashes_append [OF bs] by blast
  then have len: "length (block_hashes r) = j" using h by simp
  obtain r' where r': "update_block_hashes sha N f bs ?r = Some (Inr r')"
    "block_hashes r' = ref_hashes sha N f bs ?r"
    "same_but_memo (?r\<lparr>block_hashes := block_hashes r'\<rparr>) r'" "memo_ok sha r'"
    using update_block_hashes_spec [of bs sha ?r N f j] bs m srt h j tail len by auto
  have "ref_hashes sha N f bs r' = ref_hashes sha N f bs ?r"
    by (rule ref_hashes_cong) (simp_all add: same_but_memo_fields(1,3) [OF r'(3)])
  moreover have "same_request r r'"
    using same_but_memo_request [OF r'(3)] by (simp add: same_request_def)
  ultimately show ?thesis using r' same_but_memo_fields(1) [OF r'(3)]
    by (auto simp: append_output_token_ids_def)
qed

section \<open>What equal hashes mean\<close>

definition block_input :: "(int list list \<Rightarrow> bytes) \<Rightarrow> bytes \<Rightarrow> hash_fn \<Rightarrow> int \<Rightarrow> Request \<Rightarrow> nat
    \<Rightarrow> bytes \<times> int list \<times> py_key list option" where
  "block_input sha N f bs r k =
     (if k = 0 then N else ref_hashes sha N f bs r ! (k - 1),
      py_slice (all_token_ids r) (int k * bs) (int k * bs + bs),
      block_keys sha r (int k * bs) (int k * bs + bs))"

definition block_inputs :: "(int list list \<Rightarrow> bytes) \<Rightarrow> bytes \<Rightarrow> hash_fn \<Rightarrow> int \<Rightarrow> Request
    \<Rightarrow> (bytes \<times> int list \<times> py_key list option) list" where
  "block_inputs sha N f bs r =
     map (block_input sha N f bs r) [0..<length (ref_hashes sha N f bs r)]"

lemma chain_nth:
  assumes "k < n"
  shows "chain_hashes N f bs toks K n s prev ! k =
     hash_block_tokens N f (if k = 0 then prev else Some (chain_hashes N f bs toks K n s prev ! (k - 1)))
       (py_slice toks (s + int k * bs) (s + int k * bs + bs)) (K (s + int k * bs) (s + int k * bs + bs))"
  using assms
proof (induction n arbitrary: k s prev)
  case 0
  then show ?case by simp
next
  case (Suc n)
  show ?case
  proof (cases k)
    case 0
    then show ?thesis by (simp add: Let_def)
  next
    case (Suc k')
    with Suc.prems have "k' < n" by simp
    with Suc.IH [OF this, of "s + bs"] Suc show ?thesis
      by (cases k') (simp_all add: Let_def algebra_simps)
  qed
qed

lemma ref_hashes_nth:
  assumes "k < length (ref_hashes sha N f bs r)" "\<forall>x. f x \<noteq> []"
  shows "ref_hashes sha N f bs r ! k = f (block_input sha N f bs r k)"
proof -
  have "ref_hashes sha N f bs r ! j \<noteq> []" if "j < length (ref_hashes sha N f bs r)" for j
    using that assms(2) chain_nth [of j] by (simp add: ref_hashes_def hash_block_tokens_def)
  then show ?thesis
    using assms chain_nth [of k "length (all_token_ids r) div nat bs" N f bs "all_token_ids r"
        "block_keys sha r" 0 None]
    by (auto simp: ref_hashes_def [symmetric] block_input_def hash_block_tokens_def)
      (simp_all add: ref_hashes_def)
qed

lemma block_input_in:
  "k < length (ref_hashes sha N f bs r) \<Longrightarrow>
     block_input sha N f bs r k \<in> set (block_inputs sha N f bs r)"
  by (simp add: block_inputs_def)

lemma equal_hash_input:
  assumes "\<forall>x. f x \<noteq> []"
    and "inj_on f (set (block_inputs sha N f bs r1) \<union> set (block_inputs sha N f bs r2))"
    and "i < length (ref_hashes sha N f bs r1)" and "j < length (ref_hashes sha N f bs r2)"
    and "ref_hashes sha N f bs r1 ! i = ref_hashes sha N f bs r2 ! j"
  shows "block_input sha N f bs r1 i = block_input sha N f bs r2 j"
  using assms(2)
proof (rule inj_onD)
  show "f (block_input sha N f bs r1 i) = f (block_input sha N f bs r2 j)"
    using assms(5) ref_hashes_nth [OF assms(3,1)] ref_hashes_nth [OF assms(4,1)] by simp
qed (use assms(3,4) in \<open>auto intro: block_input_in\<close>)

lemma equal_hash_prefix:
  assumes ne: "\<forall>x. f x \<noteq> []" and nn: "\<forall>x. f x \<noteq> N"
    and inj: "inj_on f (set (block_inputs sha N f bs r1) \<union> set (block_inputs sha N f bs r2))"
    and i: "i < length (ref_hashes sha N f bs r1)" and j: "j < length (ref_hashes sha N f bs r2)"
    and eq: "ref_hashes sha N f bs r1 ! i = ref_hashes sha N f bs r2 ! j"
  shows "i = j \<and> (\<forall>k \<le> i. snd (block_input sha N f bs r1 k) = snd (block_input sha N f bs r2 k))"
  using i j eq
proof (induction i arbitrary: j)
  case (0 j)
  have in_eq: "block_input sha N f bs r1 0 = block_input sha N f bs r2 j"
    by (rule equal_hash_input [OF ne inj 0])
  have "j = 0"
  proof (rule ccontr)
    assume "j \<noteq> 0"
    then have "N = ref_hashes sha N f bs r2 ! (j - 1)" "j - 1 < length (ref_hashes sha N f bs r2)"
      using in_eq 0 by (auto simp: block_input_def)
    with ref_hashes_nth [OF _ ne] nn show False by metis
  qed
  with in_eq show ?case by simp
next
  case (Suc i)
  have in_eq: "block_input sha N f bs r1 (Suc i) = block_input sha N f bs r2 j"
    by (rule equal_hash_input [OF ne inj Suc.prems])
  have "j \<noteq> 0"
  proof
    assume "j = 0"
    then have "ref_hashes sha N f bs r1 ! i = N"
      using in_eq by (auto simp: block_input_def)
    with ref_hashes_nth [OF _ ne, of i] nn Suc.prems(1) show False by (metis Suc_lessD)
  qed
  then obtain j' where j': "j = Suc j'" by (cases j) auto
  have "ref_hashes sha N f bs r1 ! i = ref_hashes sha N f bs r2 ! j'"
    using in_eq j' by (simp add: block_input_def)
  with Suc.IH [of j'] Suc.prems j' have "i = j' \<and>
      (\<forall>k \<le> i. snd (block_input sha N f bs r1 k) = snd (block_input sha N f bs r2 k))" by simp
  with in_eq j' show ?case by (auto simp: le_Suc_eq)
qed

section \<open>Properties\<close>

lemma make_key_inj:
  assumes "make_block_hash_with_group_id h g = Inr k" "make_block_hash_with_group_id h' g' = Inr k"
  shows "h = h' \<and> g = g'"
proof -
  obtain b b' where b: "to_bytes4 g = Inr b" "k = h @ b" "to_bytes4 g' = Inr b'" "k = h' @ b'"
    using assms by (auto simp: make_key_cases)
  then have "h = h' \<and> b = b'" using to_bytes4_length by (metis append_eq_append_conv)
  with b show ?thesis by (metis from_to_bytes4)
qed

lemma make_key_parts:
  assumes "make_block_hash_with_group_id h g = Inr k"
  shows "get_block_hash k = h \<and> get_group_id k = g"
  using assms by (auto simp: make_key_cases get_block_hash_def get_group_id_def to_bytes4_length from_to_bytes4)

text \<open>
  C32. The cache key of a block is a faithful packing of its hash and its group id. Packing
  succeeds exactly for group ids that fit in four unsigned bytes, raises OverflowError otherwise,
  and both components are recovered from the key.
\<close>

theorem block_hash_key_roundtrip:
  "case make_block_hash_with_group_id h g of
     Inr k \<Rightarrow> 0 \<le> g \<and> g < 2 ^ 32 \<and> get_block_hash k = h \<and> get_group_id k = g
   | Inl e \<Rightarrow> e = OverflowError \<and> \<not> (0 \<le> g \<and> g < 2 ^ 32)"
proof (cases "to_bytes4 g")
  case (Inl e)
  then show ?thesis
    by (auto simp: make_block_hash_with_group_id_def to_bytes4_def split: if_splits)
next
  case (Inr b)
  moreover from Inr have "length b = 4" "from_bytes b = g" "0 \<le> g" "g < 2 ^ 32"
    by (simp_all add: to_bytes4_length from_to_bytes4) (auto simp: to_bytes4_def split: if_splits)
  ultimately show ?thesis
    by (simp add: make_block_hash_with_group_id_def get_block_hash_def get_group_id_def)
qed

primrec append_chunks ::
  "(int list list \<Rightarrow> bytes) \<Rightarrow> bytes \<Rightarrow> hash_fn \<Rightarrow> int \<Rightarrow> int list list \<Rightarrow> Request \<Rightarrow> Request res option" where
  "append_chunks sha N f bs [] r = Some (Inr r)"
| "append_chunks sha N f bs (c # cs) r =
     Option.bind (append_output_token_ids sha N f bs c r)
       (\<lambda>m. case m of Inl e \<Rightarrow> Some (Inl e) | Inr r' \<Rightarrow> append_chunks sha N f bs cs r')"

lemma append_chunks_spec:
  assumes "0 < bs" "memo_ok sha r" "mm_sorted (mm_features r)" "length (mm_features r) \<le> 1"
    and "block_hashes r = ref_hashes sha N f bs r"
  shows "\<exists>r'. append_chunks sha N f bs cs r = Some (Inr r') \<and>
     block_hashes r' = ref_hashes sha N f bs r' \<and> all_token_ids r' = all_token_ids r @ concat cs \<and>
     same_request r r'"
  using assms(2-)
proof (induction cs arbitrary: r)
  case Nil
  then show ?case by (simp add: same_request_def)
next
  case (Cons c cs)
  have "butlast (mm_features r) = []"
    using Cons.prems(3) by (cases "mm_features r") auto
  then obtain r' where "append_output_token_ids sha N f bs c r = Some (Inr r')"
    "block_hashes r' = ref_hashes sha N f bs r'" "all_token_ids r' = all_token_ids r @ c"
    "same_request r r'" "memo_ok sha r'"
    using append_output_spec [OF assms(1) Cons.prems(1,2,4), of c] by auto
  moreover from this(4) have "mm_features r' = mm_features r" by (simp add: same_request_def)
  ultimately show ?case
    using Cons.IH [of r'] Cons.prems by (auto intro: same_request_trans)
qed

definition example_hash :: hash_fn where
  "example_hash = (\<lambda>(p, toks, keys). 1 # map word_of_int toks @ [word_of_int (int (length p))] @
     (case keys of None \<Rightarrow> [] | Some ks \<Rightarrow> concat (map (\<lambda>k. case k of
        KStr x \<Rightarrow> map of_char x | KPair x i \<Rightarrow> map of_char x @ [word_of_int i] | KBytes b \<Rightarrow> b) ks)) @ p)"

definition text_request :: "mm_feature list \<Rightarrow> int list \<Rightarrow> Request" where
  "text_request fs toks = \<lparr>request_id = ''r'', all_token_ids = toks, mm_features = fs,
     lora_request = None, cache_salt = None, prompt_embeds = None,
     prompt_embeds_per_block_hashes = [], block_hashes = []\<rparr>"

text \<open>
  C25. Incremental hashing is chunking-independent. For a request with at most one multi-modal
  input whose hashes are up to date, appending tokens chunk by chunk (the decode loop) and
  appending them all at once both terminate without error and produce the same block hashes,
  one for every full block, each chained to its predecessor and covering its own extra keys.
\<close>

theorem incremental_hashing:
  assumes "0 < bs" and "memo_ok sha r" and "mm_sorted (mm_features r)"
    and "length (mm_features r) \<le> 1" and "block_hashes r = ref_hashes sha N f bs r"
  shows "\<exists>r1 r2. append_chunks sha N f bs cs r = Some (Inr r1) \<and>
     append_output_token_ids sha N f bs (concat cs) r = Some (Inr r2) \<and>
     block_hashes r1 = block_hashes r2 \<and>
     length (block_hashes r2) = length (all_token_ids r @ concat cs) div nat bs"
proof -
  obtain r1 where r1: "append_chunks sha N f bs cs r = Some (Inr r1)"
    "block_hashes r1 = ref_hashes sha N f bs r1" "all_token_ids r1 = all_token_ids r @ concat cs"
    "same_request r r1"
    using append_chunks_spec [OF assms] by blast
  obtain r2 where r2: "append_chunks sha N f bs [concat cs] r = Some (Inr r2)"
    "block_hashes r2 = ref_hashes sha N f bs r2" "all_token_ids r2 = all_token_ids r @ concat [concat cs]"
    "same_request r r2"
    using append_chunks_spec [OF assms] by blast
  have "ref_hashes sha N f bs r1 = ref_hashes sha N f bs r2"
    by (rule ref_hashes_cong) (use r1(3) r2(3) in simp, simp add: same_request_keys [OF r1(4)] same_request_keys [OF r2(4)])
  then have "block_hashes r1 = block_hashes r2" using r1 r2 by simp
  moreover have "append_output_token_ids sha N f bs (concat cs) r = Some (Inr r2)"
    using r2(1)
    by (cases "append_output_token_ids sha N f bs (concat cs) r") (auto split: sum.splits)
  ultimately show ?thesis using r1 r2 by (auto simp: ref_hashes_def)
qed

theorem incremental_hashing_witness:
  "\<exists>r1 r2. append_chunks (\<lambda>_. []) [0] example_hash 2 [[4], [5, 6], [7]]
       (text_request [\<lparr>mm_identifier = ''img'', mm_offset = 0, mm_length = 1\<rparr>] [3]) = Some (Inr r1) \<and>
     append_output_token_ids (\<lambda>_. []) [0] example_hash 2 (concat [[4], [5, 6], [7]])
       (text_request [\<lparr>mm_identifier = ''img'', mm_offset = 0, mm_length = 1\<rparr>] [3]) = Some (Inr r2) \<and>
     block_hashes r1 = block_hashes r2 \<and>
     length (block_hashes r2) = length (all_token_ids
       (text_request [\<lparr>mm_identifier = ''img'', mm_offset = 0, mm_length = 1\<rparr>] [3]) @
       concat [[4], [5, 6], [7]]) div nat 2"
  by (rule incremental_hashing)
    (simp_all add: text_request_def memo_ok_def mm_sorted_def ref_hashes_def)



section \<open>Two ways in which different content gets equal hashes\<close>

definition two_images :: "string \<Rightarrow> string \<Rightarrow> mm_feature list" where
  "two_images a b = [\<lparr>mm_identifier = a, mm_offset = 4, mm_length = 1\<rparr>,
     \<lparr>mm_identifier = b, mm_offset = 5, mm_length = 1\<rparr>]"

lemmas hasher_eval = append_chunks.simps append_output_token_ids_def update_block_hashes_def
  request_block_hasher_def hasher_loop.simps generate_block_hash_extra_keys_def
  gen_mm_extra_hash_keys_def gen_lora_extra_hash_keys_def gen_prompt_embeds_extra_hash_keys_def
  cache_salt_keys_def py_slice_def Let_def


text \<open>
  A LoRA name and a cache salt enter the extra keys as bare strings, so a request for the adapter
  named \<^verbatim>\<open>x\<close> and a base-model request salted with \<^verbatim>\<open>x\<close> get the same hash for their first block.
\<close>

lemma lora_name_equals_salt_collides:
  "\<exists>r1 r2. update_block_hashes sha N f 2 ((text_request [] [1, 2])\<lparr>lora_request := Some (''x'', i)\<rparr>) = Some (Inr r1) \<and>
     update_block_hashes sha N f 2 ((text_request [] [1, 2])\<lparr>cache_salt := Some ''x''\<rparr>) = Some (Inr r2) \<and>
     block_hashes r1 = block_hashes r2 \<and> length (block_hashes r1) = 1 \<and> lora_request r1 \<noteq> lora_request r2"
  by (simp add: hasher_eval text_request_def)

end
