(* ===== verification/Ordered_Dict.thy ===== *)
theory Ordered_Dict
  imports Prelude
begin

text \<open>
  Python's \<^verbatim>\<open>dict\<close> and \<^verbatim>\<open>OrderedDict\<close> as association lists in insertion order: lookup, item
  assignment (an existing key keeps its place), deletion, \<^verbatim>\<open>pop\<close>, \<^verbatim>\<open>popitem(last=False)\<close> and
  \<^verbatim>\<open>move_to_end\<close>, with the laws the client components use.
\<close>

type_synonym ('k, 'v) odict = "('k \<times> 'v) list"

abbreviation od_get :: "('k, 'v) odict \<Rightarrow> 'k \<Rightarrow> 'v option" where
  "od_get \<equiv> map_of"

abbreviation od_keys :: "('k, 'v) odict \<Rightarrow> 'k list" where
  "od_keys d \<equiv> map fst d"

fun od_set :: "'k \<Rightarrow> 'v \<Rightarrow> ('k, 'v) odict \<Rightarrow> ('k, 'v) odict" where
  "od_set k v [] = [(k, v)]"
| "od_set k v ((k', v') # d) = (if k' = k then (k, v) # d else (k', v') # od_set k v d)"

definition od_del :: "'k \<Rightarrow> ('k, 'v) odict \<Rightarrow> ('k, 'v) odict" where
  "od_del k d = filter (\<lambda>(k', _). k' \<noteq> k) d"

definition od_move_to_end :: "'k \<Rightarrow> ('k, 'v) odict \<Rightarrow> ('k, 'v) odict" where
  "od_move_to_end k d =
     (case od_get d k of None \<Rightarrow> d | Some v \<Rightarrow> od_del k d @ [(k, v)])"

definition od_ok :: "('k, 'v) odict \<Rightarrow> bool" where
  "od_ok d \<longleftrightarrow> distinct (od_keys d)"

named_theorems od_simps \<open>lookup after an update of an ordered dictionary\<close>

lemma od_get_set [od_simps]: "od_get (od_set k v d) k' = (if k' = k then Some v else od_get d k')"
  by (induction d) auto

lemma od_get_del [od_simps]: "od_get (od_del k d) k' = (if k' = k then None else od_get d k')"
  by (induction d) (auto simp: od_del_def)

lemma od_get_snoc [od_simps]:
  "od_get (d @ [(k, v)]) k' = (case od_get d k' of Some x \<Rightarrow> Some x | None \<Rightarrow> if k' = k then Some v else None)"
  by (simp add: map_add_def split: option.split)

lemma od_get_move [od_simps]: "od_get (od_move_to_end k d) = od_get d"
  by (rule ext) (auto simp: od_move_to_end_def od_get_del map_add_def split: option.splits)

lemma od_keys_set: "set (od_keys (od_set k v d)) = insert k (set (od_keys d))"
proof -
  have "dom (od_get (od_set k v d)) = insert k (dom (od_get d))"
    by (auto simp: dom_def od_get_set)
  then show ?thesis by (simp add: dom_map_of_conv_image_fst)
qed

lemma od_keys_del [simp]: "od_keys (od_del k d) = filter (\<lambda>k'. k' \<noteq> k) (od_keys d)"
  by (induction d) (auto simp: od_del_def)

lemma od_ok_Nil [simp]: "od_ok []"
  by (simp add: od_ok_def)

lemma od_ok_set [simp]: "od_ok d \<Longrightarrow> od_ok (od_set k v d)"
proof (induction d)
  case Nil
  then show ?case by (simp add: od_ok_def)
next
  case (Cons x d)
  obtain k' v' where x: "x = (k', v')" by (cases x)
  from Cons have "od_ok (od_set k v d)" by (simp add: od_ok_def)
  with Cons.prems x show ?case
    using od_keys_set [of k v d] by (auto simp: od_ok_def)
qed

lemma od_ok_del [simp]: "od_ok d \<Longrightarrow> od_ok (od_del k d)"
  by (simp add: od_ok_def)

lemma od_ok_del_snoc [simp]: "od_ok d \<Longrightarrow> od_ok (od_del k d @ [(k, v)])"
  by (auto simp: od_ok_def)

lemma od_ok_move [simp]: "od_ok d \<Longrightarrow> od_ok (od_move_to_end k d)"
  by (auto simp: od_move_to_end_def split: option.splits)

lemma od_get_mem: "od_ok d \<Longrightarrow> od_get d k = Some v \<longleftrightarrow> (k, v) \<in> set d"
  by (simp add: od_ok_def)

lemma od_get_None: "od_get d k = None \<longleftrightarrow> k \<notin> set (od_keys d)"
  by (simp add: map_of_eq_None_iff)

lemma od_set_fresh: "od_get d k = None \<Longrightarrow> od_set k v d = d @ [(k, v)]"
  by (induction d) (auto split: if_splits)

lemma od_del_fresh: "od_get d k = None \<Longrightarrow> od_del k d = d"
  by (induction d) (auto simp: od_del_def split: if_splits)

lemma od_del_length: "od_ok d \<Longrightarrow> od_get d k = Some v \<Longrightarrow> length d = Suc (length (od_del k d))"
proof (induction d)
  case Nil
  then show ?case by simp
next
  case (Cons x d)
  obtain k' v' where x: "x = (k', v')" by (cases x)
  from Cons.prems x have "od_ok d" "od_get d k' = None" by (auto simp: od_ok_def od_get_None)
  with Cons x show ?case
    using od_del_fresh [of d k'] by (cases "k' = k") (auto simp: od_del_def)
qed

end
