(* ===== verification/Hash_Map.thy ===== *)
theory Hash_Map
  imports Free_Queue Block_Hash Ordered_Dict
begin

text \<open>
  \<^verbatim>\<open>BlockHashToBlockMap\<close> of \<^verbatim>\<open>vllm/v1/core/block_pool.py\<close>: a Python dict from a cache key to one block,
  or to a dict of blocks by id once two blocks share the key. The interface the block pool relies
  on is the locale \<^verbatim>\<open>block_index\<close>: the map stores a set of blocks per key, finds one of them, and
  inserts and deletes single blocks. The client lemmas keep such a map in agreement with the
  \<^verbatim>\<open>block_hash\<close> field of the blocks.
\<close>

section \<open>The hash map\<close>

datatype cache_entry = OneBlock node | ManyBlocks "(int, node) odict"

type_synonym hash_map = "(bytes, cache_entry) odict"

definition get_one_block :: "bytes \<Rightarrow> hash_map \<Rightarrow> node option res" where
  "get_one_block key c =
     (case od_get c key of
        None \<Rightarrow> Inr None
      | Some (OneBlock b) \<Rightarrow> Inr (Some b)
      | Some (ManyBlocks d) \<Rightarrow> (case d of [] \<Rightarrow> Inl StopIteration | (_, b) # _ \<Rightarrow> Inr (Some b)))"

definition insert_block :: "store \<Rightarrow> bytes \<Rightarrow> node \<Rightarrow> hash_map \<Rightarrow> hash_map" where
  "insert_block h key b c =
     (case od_get c key of
        None \<Rightarrow> od_set key (OneBlock b) c
      | Some (OneBlock b0) \<Rightarrow>
          od_set key (ManyBlocks (od_set (block_id (h b)) b (od_set (block_id (h b0)) b0 []))) c
      | Some (ManyBlocks d) \<Rightarrow> od_set key (ManyBlocks (od_set (block_id (h b)) b d)) c)"

definition pop_block :: "store \<Rightarrow> bytes \<Rightarrow> int \<Rightarrow> hash_map \<Rightarrow> node option \<times> hash_map" where
  "pop_block h key bid c =
     (case od_get c key of
        None \<Rightarrow> (None, c)
      | Some (OneBlock b) \<Rightarrow>
          if block_id (h b) = bid then (Some b, od_del key c)
          else (None, od_set key (OneBlock b) (od_del key c))
      | Some (ManyBlocks d) \<Rightarrow>
          let d' = od_del bid d
          in (od_get d bid,
              if d' \<noteq> [] then od_set key (ManyBlocks d') (od_del key c) else od_del key c))"

section \<open>The sets of blocks the map stores\<close>

definition entry_blocks :: "cache_entry \<Rightarrow> node set" where
  "entry_blocks e = (case e of OneBlock b \<Rightarrow> {b} | ManyBlocks d \<Rightarrow> snd ` set d)"

definition entry_ok :: "store \<Rightarrow> cache_entry \<Rightarrow> bool" where
  "entry_ok h e =
     (case e of OneBlock b \<Rightarrow> True
      | ManyBlocks d \<Rightarrow> d \<noteq> [] \<and> od_ok d \<and> (\<forall>(i, b) \<in> set d. block_id (h b) = i))"

definition map_ok :: "store \<Rightarrow> hash_map \<Rightarrow> bool" where
  "map_ok h c \<longleftrightarrow> od_ok c \<and> (\<forall>k e. od_get c k = Some e \<longrightarrow> entry_ok h e)"

definition map_blocks :: "hash_map \<Rightarrow> bytes \<Rightarrow> node set" where
  "map_blocks c k = (case od_get c k of None \<Rightarrow> {} | Some e \<Rightarrow> entry_blocks e)"

section \<open>The contract of the map\<close>

locale block_index =
  fixes ident :: "'s \<Rightarrow> 'b \<Rightarrow> int"
    and ok :: "'s \<Rightarrow> 'c \<Rightarrow> bool"
    and stored :: "'c \<Rightarrow> 'k \<Rightarrow> 'b set"
    and empty :: 'c
    and find :: "'k \<Rightarrow> 'c \<Rightarrow> 'b option res"
    and ins :: "'s \<Rightarrow> 'k \<Rightarrow> 'b \<Rightarrow> 'c \<Rightarrow> 'c"
    and del :: "'s \<Rightarrow> 'k \<Rightarrow> int \<Rightarrow> 'c \<Rightarrow> 'b option \<times> 'c"
  assumes empty_law: "ok s empty \<and> stored empty k = {}"
    and ok_cong: "ident s = ident s' \<Longrightarrow> ok s c = ok s' c"
    and find_law: "ok s c \<Longrightarrow>
      \<exists>r. find k c = Inr r \<and> (case r of None \<Rightarrow> stored c k = {} | Some b \<Rightarrow> b \<in> stored c k)"
    and ins_law: "ok s c \<Longrightarrow> inj_on (ident s) (insert b (stored c k)) \<Longrightarrow>
      ok s (ins s k b c) \<and> stored (ins s k b c) = (stored c)(k := insert b (stored c k))"
    and del_law: "ok s c \<Longrightarrow> inj_on (ident s) (stored c k) \<Longrightarrow> b \<in> stored c k \<Longrightarrow>
      \<exists>c'. del s k (ident s b) c = (Some b, c') \<and> ok s c' \<and>
        stored c' = (stored c)(k := stored c k - {b})"
begin

definition agrees :: "'s \<Rightarrow> 'b set \<Rightarrow> ('b \<Rightarrow> 'k option) \<Rightarrow> 'c \<Rightarrow> bool" where
  "agrees s B H c \<longleftrightarrow> ok s c \<and> inj_on (ident s) B \<and>
     (\<forall>k b. b \<in> stored c k \<longleftrightarrow> b \<in> B \<and> H b = Some k)"

lemma agrees_cong:
  assumes "agrees s B H c" "\<And>b. ident s b = ident s' b" "\<And>b. b \<in> B \<Longrightarrow> H b = H' b"
  shows "agrees s' B H' c"
proof -
  have "ident s = ident s'" using assms(2) by (rule ext)
  then show ?thesis using assms(1,3) ok_cong [of s s'] unfolding agrees_def by auto
qed

lemma agrees_empty:
  "inj_on (ident s) B \<Longrightarrow> (\<And>b. b \<in> B \<Longrightarrow> H b = None) \<Longrightarrow> agrees s B H empty"
  using empty_law by (auto simp: agrees_def)

lemma agrees_insert:
  assumes "agrees s B H c" "b \<in> B" "H b = None"
  shows "agrees s B (H(b := Some k)) (ins s k b c)"
proof -
  have "insert b (stored c k) \<subseteq> B" using assms by (auto simp: agrees_def)
  moreover have "inj_on (ident s) B" using assms(1) by (simp add: agrees_def)
  ultimately have "inj_on (ident s) (insert b (stored c k))" by (rule inj_on_subset [rotated])
  then show ?thesis using ins_law [of s c b k] assms by (auto simp: agrees_def)
qed

lemma agrees_delete:
  assumes "agrees s B H c" "b \<in> B" "H b = Some k"
  shows "\<exists>c'. del s k (ident s b) c = (Some b, c') \<and> agrees s B (H(b := None)) c'"
proof -
  have "stored c k \<subseteq> B" "b \<in> stored c k" using assms by (auto simp: agrees_def)
  moreover from this have "inj_on (ident s) (stored c k)"
    using assms(1) by (auto simp: agrees_def intro: inj_on_subset)
  ultimately obtain c' where "del s k (ident s b) c = (Some b, c')" "ok s c'"
      "stored c' = (stored c)(k := stored c k - {b})"
    using del_law [of s c k b] assms(1) by (auto simp: agrees_def)
  then show ?thesis using assms by (auto simp: agrees_def)
qed

lemma agrees_find:
  assumes "agrees s B H c"
  shows "\<exists>r. find k c = Inr r \<and>
     (case r of None \<Rightarrow> \<forall>b \<in> B. H b \<noteq> Some k | Some b \<Rightarrow> b \<in> B \<and> H b = Some k)"
proof -
  obtain r where r: "find k c = Inr r" "case r of None \<Rightarrow> stored c k = {} | Some b \<Rightarrow> b \<in> stored c k"
    using find_law [of s c k] assms by (auto simp: agrees_def)
  then show ?thesis using assms by (cases r) (auto simp: agrees_def)
qed

end

section \<open>The contract holds\<close>

lemma od_set_members:
  assumes "od_ok d"
  shows "set (od_set k v d) = insert (k, v) {(k', v') \<in> set d. k' \<noteq> k}"
  using od_get_set [of k v d] od_get_mem [OF assms] od_get_mem [OF od_ok_set [OF assms, of k v]]
  by (auto split: if_splits) (metis option.inject)+

lemma od_del_members: "set (od_del k d) = {(k', v') \<in> set d. k' \<noteq> k}"
  by (auto simp: od_del_def)

lemma od_set_not_Nil [simp]: "od_set k v d \<noteq> []"
  using od_keys_set [of k v d] by auto

lemma many_insert:
  assumes "od_ok d" "\<forall>(i, x) \<in> set d. block_id (h x) = i"
    and "inj_on (\<lambda>x. block_id (h x)) (insert b (snd ` set d))"
  shows "entry_ok h (ManyBlocks (od_set (block_id (h b)) b d))"
    and "entry_blocks (ManyBlocks (od_set (block_id (h b)) b d)) = insert b (snd ` set d)"
proof -
  show "entry_ok h (ManyBlocks (od_set (block_id (h b)) b d))"
    using assms(1,2) by (auto simp: entry_ok_def od_set_members)
  have "x = b" if "(i, x) \<in> set d" "i = block_id (h b)" for i x
    using that assms(2) inj_onD [OF assms(3), of x b] by force
  then show "entry_blocks (ManyBlocks (od_set (block_id (h b)) b d)) = insert b (snd ` set d)"
    using assms(1) by (force simp: entry_blocks_def od_set_members image_iff)
qed

lemma insert_block_cong:
  "(\<And>x. block_id (h x) = block_id (h' x)) \<Longrightarrow> insert_block h k b c = insert_block h' k b c"
  by (simp add: insert_block_def split: option.split cache_entry.split)

lemma insert_block_ok:
  assumes c: "map_ok h c" and i: "inj_on (\<lambda>x. block_id (h x)) (insert b (map_blocks c k))"
  shows "map_ok h (insert_block h k b c)"
    and "map_blocks (insert_block h k b c) = (map_blocks c)(k := insert b (map_blocks c k))"
proof -
  have "\<exists>e. insert_block h k b c = od_set k e c \<and> entry_ok h e \<and> entry_blocks e = insert b (map_blocks c k)"
  proof (cases "od_get c k")
    case None
    then show ?thesis by (auto simp: insert_block_def entry_ok_def entry_blocks_def map_blocks_def)
  next
    case (Some e0)
    with c have e0: "entry_ok h e0" by (simp add: map_ok_def)
    have m: "map_blocks c k = entry_blocks e0" by (simp add: map_blocks_def Some)
    show ?thesis
    proof (cases e0)
      case (OneBlock b0)
      then show ?thesis
        using many_insert [of "[(block_id (h b0), b0)]" h b] i Some m
        by (auto simp: insert_block_def entry_blocks_def od_ok_def)
    next
      case (ManyBlocks d)
      then show ?thesis
        using many_insert [of d h b] i Some m e0
        by (intro exI [of _ "ManyBlocks (od_set (block_id (h b)) b d)"])
          (simp add: insert_block_def entry_blocks_def, simp add: entry_ok_def)
    qed
  qed
  then show "map_ok h (insert_block h k b c)"
    and "map_blocks (insert_block h k b c) = (map_blocks c)(k := insert b (map_blocks c k))"
    using c by (auto simp: map_ok_def od_simps map_blocks_def fun_eq_iff split: if_splits)
qed

lemma map_ok_put_back:
  "map_ok h c \<Longrightarrow> entry_ok h e \<Longrightarrow> map_ok h (od_set k e (od_del k c)) \<and>
     map_blocks (od_set k e (od_del k c)) = (map_blocks c)(k := entry_blocks e)"
  by (auto simp: map_ok_def od_simps map_blocks_def fun_eq_iff)

lemma map_ok_del:
  "map_ok h c \<Longrightarrow> map_ok h (od_del k c) \<and> map_blocks (od_del k c) = (map_blocks c)(k := {})"
  by (auto simp: map_ok_def od_simps map_blocks_def fun_eq_iff)

lemma pop_block_ok:
  assumes c: "map_ok h c" and i: "inj_on (\<lambda>x. block_id (h x)) (map_blocks c k)" and b: "b \<in> map_blocks c k"
  shows "\<exists>c'. pop_block h k (block_id (h b)) c = (Some b, c') \<and> map_ok h c' \<and>
     map_blocks c' = (map_blocks c)(k := map_blocks c k - {b})"
proof -
  from b obtain e where e: "od_get c k = Some e" and m: "map_blocks c k = entry_blocks e"
    by (auto simp: map_blocks_def split: option.splits)
  with c have eo: "entry_ok h e" by (simp add: map_ok_def)
  show ?thesis
  proof (cases e)
    case (OneBlock b0)
    with b m have "b0 = b" by (simp add: entry_blocks_def)
    then show ?thesis
      using OneBlock e m map_ok_del [OF c, of k] by (simp add: pop_block_def entry_blocks_def)
  next
    case (ManyBlocks d)
    let ?d = "od_del (block_id (h b)) d"
    have d: "od_ok d" "\<forall>(i, x) \<in> set d. block_id (h x) = i" "b \<in> snd ` set d"
      using eo b m ManyBlocks by (auto simp: entry_ok_def entry_blocks_def)
    then have g: "od_get d (block_id (h b)) = Some b" by (force simp: od_get_mem)
    have u: "x = b" if "(block_id (h b), x) \<in> set d" for x
      using that g od_get_mem [OF d(1)] by (metis option.inject)
    have r: "snd ` set ?d = snd ` set d - {b}"
      using u d(2) by (force simp: od_del_members image_iff)
    show ?thesis
    proof (cases "?d = []")
      case True
      with r m ManyBlocks have n: "map_blocks c k - {b} = {}" by (simp add: entry_blocks_def)
      show ?thesis unfolding n
        using True ManyBlocks e g map_ok_del [OF c, of k] by (simp add: pop_block_def)
    next
      case False
      have "entry_ok h (ManyBlocks ?d)" using False d by (auto simp: entry_ok_def od_del_members)
      then show ?thesis
        using False ManyBlocks e m g r map_ok_put_back [OF c, of "ManyBlocks ?d" k]
        by (simp add: pop_block_def entry_blocks_def Let_def)
    qed
  qed
qed

lemma get_one_block_ok:
  assumes "map_ok h c"
  shows "\<exists>r. get_one_block k c = Inr r \<and>
     (case r of None \<Rightarrow> map_blocks c k = {} | Some b \<Rightarrow> b \<in> map_blocks c k)"
proof (cases "od_get c k")
  case None
  then show ?thesis by (simp add: get_one_block_def map_blocks_def)
next
  case (Some e)
  with assms have "entry_ok h e" by (simp add: map_ok_def)
  with Some show ?thesis
    by (auto simp: get_one_block_def map_blocks_def entry_ok_def entry_blocks_def split: cache_entry.splits list.splits)
qed

interpretation bi: block_index "\<lambda>h b. block_id (h b)" map_ok map_blocks "[]"
  get_one_block insert_block pop_block
proof unfold_locales
  show "map_ok s c = map_ok s' c" if "(\<lambda>b. block_id (s b)) = (\<lambda>b. block_id (s' b))" for s s' :: store and c
  proof -
    from fun_cong [OF that] have "entry_ok s = entry_ok s'" by (simp add: entry_ok_def fun_eq_iff split: cache_entry.splits)
    then show ?thesis by (simp add: map_ok_def)
  qed
  show "map_ok s [] \<and> map_blocks [] k = {}" for s k by (simp add: map_ok_def map_blocks_def)
qed (simp_all add: insert_block_ok pop_block_ok get_one_block_ok)

end
