(* ===== verification/Block_Pool.thy ===== *)
theory Block_Pool
  imports Hash_Map
begin

text \<open>
  The GPU block pool with prefix caching (\<^verbatim>\<open>BlockPool\<close> of \<^verbatim>\<open>vllm/v1/core/block_pool.py\<close>). Blocks are
  addresses into the object store of the free queue. Calls to the
  optional metrics collector are recorded as a log; KV-cache events are recorded in the event
  queue as the source does. The properties are the pool invariant (reference counts, free list
  and hash map agree), its preservation by every operation, and what it means for clients.
\<close>

section \<open>The pool\<close>

datatype kv_event =
    BlockStored "ExternalBlockHash list" "ExternalBlockHash option" "int list" int "int option"
      "string option" "py_key list option list option" int
  | BlockRemoved "ExternalBlockHash list" int
  | AllBlocksCleared

datatype metric_call = OnAllocated node | OnEvicted node | OnAccessed node | MetricsReset

record BlockPool =
  num_gpu_blocks :: int
  enable_caching :: bool
  hash_block_size :: int
  blocks :: "node list"
  free_block_queue :: queue
  cached_block_hash_to_block :: hash_map
  null_block :: node
  enable_kv_cache_events :: bool
  use_int_block_hashes :: bool
  kv_event_queue :: "kv_event list"
  metrics_collector :: "metric_call list option"

abbreviation heap :: "BlockPool \<Rightarrow> store" where
  "heap p \<equiv> objs (free_block_queue p)"

definition upd_block :: "node \<Rightarrow> (KVCacheBlock \<Rightarrow> KVCacheBlock) \<Rightarrow> BlockPool \<Rightarrow> BlockPool" where
  "upd_block b g p = p\<lparr>free_block_queue := (free_block_queue p)
     \<lparr>objs := (heap p)(b := g (heap p b))\<rparr>\<rparr>"

definition metric :: "metric_call \<Rightarrow> BlockPool \<Rightarrow> BlockPool" where
  "metric m p = p\<lparr>metrics_collector := map_option (\<lambda>l. l @ [m]) (metrics_collector p)\<rparr>"

definition emit :: "kv_event \<Rightarrow> BlockPool \<Rightarrow> BlockPool" where
  "emit ev p = (if enable_kv_cache_events p then p\<lparr>kv_event_queue := kv_event_queue p @ [ev]\<rparr> else p)"

definition make_block_pool ::
  "int \<Rightarrow> bool \<Rightarrow> int \<Rightarrow> bool \<Rightarrow> bool \<Rightarrow> metric_call list option \<Rightarrow> BlockPool res" where
  "make_block_pool n caching hbs events use_int metrics =
     (if \<not> 0 < n then Inl AssertionError
      else
        let bs = map Blk [0..<nat n];
            h = (\<lambda>a. case a of Blk i \<Rightarrow> new_block (int i) | _ \<Rightarrow> new_block (- 1))
        in res_bind (popleft (FreeKVCacheBlockQueue bs h)) (\<lambda>(nb, q).
          Inr \<lparr>num_gpu_blocks = n, enable_caching = caching, hash_block_size = hbs, blocks = bs,
               free_block_queue = q\<lparr>objs := (objs q)(nb := (objs q nb)\<lparr>is_null := True\<rparr>)\<rparr>,
               cached_block_hash_to_block = [], null_block = nb,
               enable_kv_cache_events = events, use_int_block_hashes = use_int,
               kv_event_queue = [], metrics_collector = metrics\<rparr>))"

definition get_num_free_blocks :: "BlockPool \<Rightarrow> int" where
  "get_num_free_blocks p = num_free_blocks (free_block_queue p)"

fun get_cached_block :: "bytes \<Rightarrow> int list \<Rightarrow> BlockPool \<Rightarrow> node list option res" where
  "get_cached_block bh [] p = Inr (Some [])"
| "get_cached_block bh (g # gs) p =
     res_bind (make_block_hash_with_group_id bh g) (\<lambda>key.
     res_bind (get_one_block key (cached_block_hash_to_block p)) (\<lambda>r.
       case r of
         None \<Rightarrow> Inr None
       | Some b \<Rightarrow> res_bind (get_cached_block bh gs p)
                     (\<lambda>bs. Inr (map_option (\<lambda>l. b # l) bs))))"

definition maybe_evict_cached_block :: "node \<Rightarrow> BlockPool \<Rightarrow> bool \<times> BlockPool" where
  "maybe_evict_cached_block b p0 =
     (let p = metric (OnEvicted b) p0 in
      case block_hash (heap p b) of
        None \<Rightarrow> (False, p)
      | Some key \<Rightarrow>
          (case pop_block (heap p) key (block_id (heap p b)) (cached_block_hash_to_block p) of
             (None, c) \<Rightarrow> (False, p\<lparr>cached_block_hash_to_block := c\<rparr>)
           | (Some _, c) \<Rightarrow>
               let p1 = upd_block b (\<lambda>k. k\<lparr>block_hash := None\<rparr>) (p\<lparr>cached_block_hash_to_block := c\<rparr>)
               in (True, emit (BlockRemoved
                     [maybe_convert_block_hash (use_int_block_hashes p1) (get_block_hash key)]
                     (get_group_id key)) p1)))"

definition alloc_block :: "node \<Rightarrow> BlockPool \<Rightarrow> BlockPool res" where
  "alloc_block b p =
     (let p1 = (if enable_caching p then snd (maybe_evict_cached_block b p) else p)
      in if ref_cnt (heap p1 b) \<noteq> 0 then Inl AssertionError
         else Inr (metric (OnAllocated b) (upd_block b (\<lambda>k. k\<lparr>ref_cnt := ref_cnt k + 1\<rparr>) p1)))"

definition get_new_blocks :: "int \<Rightarrow> BlockPool \<Rightarrow> (node list \<times> BlockPool) res" where
  "get_new_blocks n p =
     (if get_num_free_blocks p < n then Inl (ValueError ''Cannot get free blocks from the pool'')
      else res_bind (popleft_n n (free_block_queue p)) (\<lambda>(ret, q).
        res_bind (res_fold alloc_block ret (p\<lparr>free_block_queue := q\<rparr>)) (\<lambda>p'. Inr (ret, p'))))"

definition touch_block :: "node \<Rightarrow> BlockPool \<Rightarrow> BlockPool res" where
  "touch_block b p =
     res_bind (if ref_cnt (heap p b) = 0 \<and> \<not> is_null (heap p b)
               then res_bind (remove_block b (free_block_queue p)) (\<lambda>q. Inr (p\<lparr>free_block_queue := q\<rparr>))
               else Inr p)
       (\<lambda>p1. Inr (metric (OnAccessed b) (upd_block b (\<lambda>k. k\<lparr>ref_cnt := ref_cnt k + 1\<rparr>) p1)))"

definition touch :: "node list \<Rightarrow> BlockPool \<Rightarrow> BlockPool res" where
  "touch bs p = res_fold touch_block bs p"

definition free_blocks :: "node list \<Rightarrow> BlockPool \<Rightarrow> BlockPool res" where
  "free_blocks bs p =
     (let p1 = fold (\<lambda>b. upd_block b (\<lambda>k. k\<lparr>ref_cnt := ref_cnt k - 1\<rparr>)) bs p
      in res_bind (append_n (filter (\<lambda>b. ref_cnt (heap p1 b) = 0 \<and> \<not> is_null (heap p1 b)) bs)
                    (free_block_queue p1))
           (\<lambda>q. Inr (p1\<lparr>free_block_queue := q\<rparr>)))"

text \<open>The loop over a set of block ids, in the order the argument lists them.\<close>

definition evict_block_id :: "int \<Rightarrow> BlockPool \<Rightarrow> BlockPool res" where
  "evict_block_id i p =
     (if \<not> i < int (length (blocks p)) then Inl AssertionError
      else res_bind (py_nth (blocks p) i) (\<lambda>b. Inr (snd (maybe_evict_cached_block b p))))"

definition evict_blocks :: "int list \<Rightarrow> BlockPool \<Rightarrow> BlockPool res" where
  "evict_blocks ids p = res_fold evict_block_id ids p"

definition reset_prefix_cache :: "BlockPool \<Rightarrow> bool \<times> BlockPool" where
  "reset_prefix_cache p =
     (if num_gpu_blocks p - get_num_free_blocks p \<noteq> 1 then (False, p)
      else
        let p1 = fold (\<lambda>b. upd_block b (\<lambda>k. k\<lparr>block_hash := None\<rparr>)) (blocks p)
                   (p\<lparr>cached_block_hash_to_block := []\<rparr>)
        in (True, emit AllBlocksCleared (metric MetricsReset p1)))"

definition take_events :: "BlockPool \<Rightarrow> kv_event list \<times> BlockPool" where
  "take_events p =
     (if \<not> enable_kv_cache_events p then ([], p)
      else (kv_event_queue p, p\<lparr>kv_event_queue := []\<rparr>))"

section \<open>Caching full blocks\<close>

text \<open>
  The hash list of a request at the granularity of the group, and the two ways the source
  subscripts it.
\<close>

datatype block_hash_list = PlainHashes "bytes list" | ScaledHashes BlockHashListWithBlockSize

fun hashes_from :: "block_hash_list \<Rightarrow> int \<Rightarrow> bytes list" where
  "hashes_from (PlainHashes hs) n = drop (nat n) hs"
| "hashes_from (ScaledHashes l) n = bl_from l n"

fun hash_at :: "block_hash_list \<Rightarrow> int \<Rightarrow> bytes res" where
  "hash_at (PlainHashes hs) i = py_nth hs i"
| "hash_at (ScaledHashes l) i = Inr (get_value_at l i)"

definition group_hashes :: "BlockPool \<Rightarrow> Request \<Rightarrow> int \<Rightarrow> block_hash_list res" where
  "group_hashes p r block_size =
     (if block_size = hash_block_size p then Inr (PlainHashes (block_hashes r))
      else res_bind (make_block_hash_list (block_hashes r) (hash_block_size p) block_size)
             (\<lambda>l. Inr (ScaledHashes l)))"

definition cache_one_block ::
  "bytes list \<Rightarrow> int \<Rightarrow> nat \<times> node \<Rightarrow> BlockPool \<times> ExternalBlockHash list
     \<Rightarrow> (BlockPool \<times> ExternalBlockHash list) res" where
  "cache_one_block new_block_hashes gid = (\<lambda>(i, b) (p, new_hashes).
     if is_null (heap p b) then Inr (p, new_hashes)
     else if block_hash (heap p b) \<noteq> None then Inl AssertionError
     else res_bind (py_nth new_block_hashes (int i)) (\<lambda>bh.
       res_bind (make_block_hash_with_group_id bh gid) (\<lambda>key.
         let p1 = upd_block b (\<lambda>k. k\<lparr>block_hash := Some key\<rparr>) p
         in Inr (p1\<lparr>cached_block_hash_to_block :=
                     insert_block (heap p1) key b (cached_block_hash_to_block p1)\<rparr>,
                 if enable_kv_cache_events p
                 then new_hashes @ [maybe_convert_block_hash (use_int_block_hashes p) bh]
                 else new_hashes))))"

definition extra_keys_step ::
  "(int list list \<Rightarrow> bytes) \<Rightarrow> BlockPool \<Rightarrow> node list \<Rightarrow> int \<Rightarrow> int
     \<Rightarrow> Request \<times> int \<times> py_key list option list
     \<Rightarrow> (Request \<times> int \<times> py_key list option list) res" where
  "extra_keys_step sha p bs block_size i = (\<lambda>(r, mm_idx, acc).
     res_bind (py_nth bs i) (\<lambda>b.
       if is_null (heap p b) then Inr (r, mm_idx, acc)
       else res_bind (generate_block_hash_extra_keys sha r (i * block_size)
                        (i * block_size + block_size) mm_idx)
              (\<lambda>(keys, mm_idx', r'). Inr (r', mm_idx', acc @ [keys]))))"

definition cache_full_blocks ::
  "(int list list \<Rightarrow> bytes) \<Rightarrow> Request \<Rightarrow> node list \<Rightarrow> int \<Rightarrow> int \<Rightarrow> int \<Rightarrow> int \<Rightarrow> BlockPool
     \<Rightarrow> (Request \<times> BlockPool) res" where
  "cache_full_blocks sha r bs num_cached num_full block_size gid p =
     (if num_full \<le> num_cached then Inr (r, p)
      else if int (length (block_hashes r)) < num_full then Inl AssertionError
      else
        res_bind (group_hashes p r block_size) (\<lambda>hashes.
        res_bind (res_fold (cache_one_block (hashes_from hashes num_cached) gid)
                   (enumerate 0 (py_slice bs num_cached num_full)) (p, [])) (\<lambda>(p1, new_hashes).
          if \<not> enable_kv_cache_events p1 then Inr (r, p1)
          else
            res_bind (if num_cached = 0 then Inr None
                      else res_bind (hash_at hashes (num_cached - 1))
                             (\<lambda>x. Inr (Some (maybe_convert_block_hash (use_int_block_hashes p1) x))))
              (\<lambda>parent.
            res_bind (res_fold (extra_keys_step sha p1 bs block_size)
                       [num_cached..num_full - 1] (r, 0, []))
              (\<lambda>(r', _, keys).
                Inr (r', emit (BlockStored new_hashes parent
                       (py_slice (all_token_ids r) (num_cached * block_size) (num_full * block_size))
                       block_size (map_option snd (lora_request r)) (map_option fst (lora_request r))
                       (if keys = [] then None else Some keys) gid) p1))))))"

section \<open>Field equations\<close>

named_theorems pool_simps \<open>reading a field of the pool after a primitive update\<close>

lemma metric_fields [pool_simps]:
  "free_block_queue (metric m p) = free_block_queue p" "blocks (metric m p) = blocks p"
  "num_gpu_blocks (metric m p) = num_gpu_blocks p" "null_block (metric m p) = null_block p"
  "cached_block_hash_to_block (metric m p) = cached_block_hash_to_block p"
  "enable_caching (metric m p) = enable_caching p"
  "hash_block_size (metric m p) = hash_block_size p"
  "enable_kv_cache_events (metric m p) = enable_kv_cache_events p"
  by (simp_all add: metric_def)

lemma emit_fields [pool_simps]:
  "free_block_queue (emit e p) = free_block_queue p" "blocks (emit e p) = blocks p"
  "num_gpu_blocks (emit e p) = num_gpu_blocks p" "null_block (emit e p) = null_block p"
  "cached_block_hash_to_block (emit e p) = cached_block_hash_to_block p"
  "enable_caching (emit e p) = enable_caching p"
  "hash_block_size (emit e p) = hash_block_size p"
  "enable_kv_cache_events (emit e p) = enable_kv_cache_events p"
  by (simp_all add: emit_def)

lemma upd_block_fields [pool_simps]:
  "heap (upd_block b g p) = (heap p)(b := g (heap p b))"
  "num_free_blocks (free_block_queue (upd_block b g p)) = num_free_blocks (free_block_queue p)"
  "blocks (upd_block b g p) = blocks p"
  "num_gpu_blocks (upd_block b g p) = num_gpu_blocks p" "null_block (upd_block b g p) = null_block p"
  "cached_block_hash_to_block (upd_block b g p) = cached_block_hash_to_block p"
  "enable_caching (upd_block b g p) = enable_caching p"
  "hash_block_size (upd_block b g p) = hash_block_size p"
  "enable_kv_cache_events (upd_block b g p) = enable_kv_cache_events p"
  by (simp_all add: upd_block_def)

text \<open>The fields no operation of the pool changes.\<close>

definition same_frame :: "BlockPool \<Rightarrow> BlockPool \<Rightarrow> bool" where
  "same_frame p p' \<longleftrightarrow> blocks p' = blocks p \<and> num_gpu_blocks p' = num_gpu_blocks p \<and>
     null_block p' = null_block p \<and> enable_caching p' = enable_caching p \<and>
     hash_block_size p' = hash_block_size p \<and> enable_kv_cache_events p' = enable_kv_cache_events p"

lemma same_frame_refl [simp]: "same_frame p p"
  by (simp add: same_frame_def)

lemma same_frame_trans: "same_frame p q \<Longrightarrow> same_frame q r \<Longrightarrow> same_frame p r"
  by (simp add: same_frame_def)

lemma same_frame_upd [simp]:
  "same_frame p (metric m q) = same_frame p q" "same_frame p (emit e q) = same_frame p q"
  "same_frame p (upd_block b g q) = same_frame p q"
  by (simp_all add: same_frame_def pool_simps)

lemma payload_eqD:
  assumes "payload h = payload h'"
  shows "block_id (h b) = block_id (h' b)" "ref_cnt (h b) = ref_cnt (h' b)"
    "block_hash (h b) = block_hash (h' b)" "is_null (h b) = is_null (h' b)"
  using fun_cong [OF assms, of b] by (simp_all add: payload_def)

lemma rep_upd_block:
  assumes "rep (free_block_queue p) xs"
    and "\<And>k. next_free_block (g k) = next_free_block k" "\<And>k. prev_free_block (g k) = prev_free_block k"
  shows "rep (free_block_queue (upd_block b g p)) xs"
proof -
  let ?ns = "FakeHead # xs @ [FakeTail]"
  have "dlink (heap (upd_block b g p)) ?ns = dlink (heap p) ?ns"
    by (rule dlink_cong) (simp add: pool_simps assms)
  then show ?thesis using assms by (auto simp: rep_def pool_simps)
qed

section \<open>The invariant\<close>

text \<open>
  \<open>pool_at p xs D\<close>: the free list is \<open>xs\<close>, and the blocks of \<open>D\<close> have no reference but are not
  (or not yet) in the free list. \<open>D\<close> is empty between operations; inside an operation it holds
  the blocks between the two halves of a transition.
\<close>

definition pool_at :: "BlockPool \<Rightarrow> node list \<Rightarrow> node set \<Rightarrow> bool" where
  "pool_at p xs D \<longleftrightarrow>
     rep (free_block_queue p) xs \<and> set xs \<inter> D = {} \<and>
     0 < num_gpu_blocks p \<and> blocks p = map Blk [0..<nat (num_gpu_blocks p)] \<and>
     null_block p = Blk 0 \<and>
     (\<forall>i < nat (num_gpu_blocks p). block_id (heap p (Blk i)) = int i \<and>
        (is_null (heap p (Blk i)) \<longleftrightarrow> i = 0)) \<and>
     set xs \<union> D = {b \<in> set (blocks p). b \<noteq> null_block p \<and> ref_cnt (heap p b) = 0} \<and>
     (\<forall>b \<in> set (blocks p). b \<noteq> null_block p \<longrightarrow> 0 \<le> ref_cnt (heap p b)) \<and>
     block_hash (heap p (null_block p)) = None \<and>
     bi.agrees (heap p) (set (blocks p)) (\<lambda>b. block_hash (heap p b)) (cached_block_hash_to_block p)"

definition pool_inv :: "BlockPool \<Rightarrow> bool" where
  "pool_inv p \<longleftrightarrow> (\<exists>xs. pool_at p xs {})"

lemma pool_atD:
  assumes "pool_at p xs D"
  shows "rep (free_block_queue p) xs" and "set xs \<inter> D = {}"
    and "0 < num_gpu_blocks p" and "blocks p = map Blk [0..<nat (num_gpu_blocks p)]"
    and "null_block p = Blk 0"
    and "\<forall>i < nat (num_gpu_blocks p). block_id (heap p (Blk i)) = int i \<and>
        (is_null (heap p (Blk i)) \<longleftrightarrow> i = 0)"
    and "set xs \<union> D = {b \<in> set (blocks p). b \<noteq> null_block p \<and> ref_cnt (heap p b) = 0}"
    and "\<forall>b \<in> set (blocks p). b \<noteq> null_block p \<longrightarrow> 0 \<le> ref_cnt (heap p b)"
    and "block_hash (heap p (null_block p)) = None"
    and "bi.agrees (heap p) (set (blocks p)) (\<lambda>b. block_hash (heap p b)) (cached_block_hash_to_block p)"
  using assms unfolding pool_at_def by blast+

lemma pool_at_metric [simp]: "pool_at (metric m p) xs D = pool_at p xs D"
  by (simp only: pool_at_def pool_simps)

lemma pool_at_emit [simp]: "pool_at (emit e p) xs D = pool_at p xs D"
  by (simp only: pool_at_def pool_simps)

lemma pool_at_null:
  assumes "pool_at p xs D" "b \<in> set (blocks p)"
  shows "is_null (heap p b) \<longleftrightarrow> b = null_block p"
  using assms by (auto simp: pool_at_def)

lemma pool_at_null_block: "pool_at p xs D \<Longrightarrow> null_block p \<in> set (blocks p)"
  by (auto simp: pool_at_def)

lemma pool_at_free:
  assumes "pool_at p xs D" "b \<in> set xs \<union> D"
  shows "b \<in> set (blocks p)" "b \<noteq> null_block p" "ref_cnt (heap p b) = 0"
  using assms(2) unfolding pool_atD(7) [OF assms(1)] by simp_all

lemma pool_at_real: "pool_at p xs D \<Longrightarrow> b \<in> set (blocks p) \<Longrightarrow> b \<noteq> FakeHead \<and> b \<noteq> FakeTail"
  by (auto simp: pool_at_def)

text \<open>
  A change of the queue, of the reference counts or of the hashes keeps the rest of the invariant:
  ids and null flags stay, and the other clauses are re-established for the new state.
\<close>

lemma pool_at_step:
  assumes p: "pool_at p xs D" and f: "same_frame p p'"
    and ids: "\<And>b. b \<in> set (blocks p) \<Longrightarrow> block_id (heap p' b) = block_id (heap p b) \<and> is_null (heap p' b) = is_null (heap p b)"
    and q: "rep (free_block_queue p') ys" "set ys \<inter> E = {}"
    and free: "set ys \<union> E = {b \<in> set (blocks p). b \<noteq> null_block p \<and> ref_cnt (heap p' b) = 0}"
    and ref: "\<And>b. b \<in> set (blocks p) \<Longrightarrow> b \<noteq> null_block p \<Longrightarrow> 0 \<le> ref_cnt (heap p' b)"
    and null: "block_hash (heap p' (null_block p)) = None"
    and idx: "bi.agrees (heap p') (set (blocks p)) (\<lambda>b. block_hash (heap p' b)) (cached_block_hash_to_block p')"
  shows "pool_at p' ys E"
proof -
  note d = pool_atD [OF p]
  have e: "blocks p' = blocks p" "num_gpu_blocks p' = num_gpu_blocks p" "null_block p' = null_block p"
    using f by (simp_all add: same_frame_def)
  have "block_id (heap p' (Blk i)) = int i \<and> (is_null (heap p' (Blk i)) \<longleftrightarrow> i = 0)"
    if "i < nat (num_gpu_blocks p)" for i
    using ids [of "Blk i"] d(4,6) that by auto
  then show ?thesis
    unfolding pool_at_def e using d(3,4,5) q free ref null idx by (intro conjI) blast+
qed

lemma pool_at_queue:
  assumes p: "pool_at p xs D" and q: "rep q ys" "payload (objs q) = payload (heap p)"
    and "set ys \<inter> E = {}" "set ys \<union> E = set xs \<union> D"
  shows "pool_at (p\<lparr>free_block_queue := q\<rparr>) ys E"
proof -
  note f = payload_eqD [OF q(2)] and d = pool_atD [OF p]
  have "bi.agrees (objs q) (set (blocks p)) (\<lambda>b. block_hash (objs q b)) (cached_block_hash_to_block p)"
    by (rule bi.agrees_cong [OF d(10)]) (simp_all add: f)
  then show ?thesis
    using assms d(7,8,9) by (intro pool_at_step [OF p]) (simp_all add: f same_frame_def)
qed

lemma pool_at_ref:
  assumes p: "pool_at p xs D" and b: "b \<in> set (blocks p)" "b \<notin> set xs"
    and r: "b \<noteq> null_block p \<Longrightarrow> 0 \<le> f (ref_cnt (heap p b))"
  shows "pool_at (upd_block b (\<lambda>k. k\<lparr>ref_cnt := f (ref_cnt k)\<rparr>) p) xs
     (if b \<noteq> null_block p \<and> f (ref_cnt (heap p b)) = 0 then insert b D else D - {b})" (is "pool_at ?p xs ?E")
proof (rule pool_at_step [OF p])
  note d = pool_atD [OF p]
  show "rep (free_block_queue ?p) xs" by (rule rep_upd_block [OF d(1)]) simp_all
  show "bi.agrees (heap ?p) (set (blocks p)) (\<lambda>b. block_hash (heap ?p b)) (cached_block_hash_to_block ?p)"
    unfolding pool_simps by (rule bi.agrees_cong [OF d(10)]) auto
  show "set xs \<union> ?E = {b \<in> set (blocks p). b \<noteq> null_block p \<and> ref_cnt (heap ?p b) = 0}"
    using b d(7) by (auto simp: pool_simps)
  show "set xs \<inter> ?E = {}" using d(2) b by auto
qed (use pool_atD(8,9) [OF p] r in \<open>auto simp: pool_simps\<close>)

lemma pool_at_hash:
  assumes p: "pool_at p xs D" and b: "b \<noteq> null_block p"
    and c: "bi.agrees (heap p) (set (blocks p)) ((\<lambda>b. block_hash (heap p b))(b := k)) c"
  shows "pool_at (upd_block b (\<lambda>a. a\<lparr>block_hash := k\<rparr>) (p\<lparr>cached_block_hash_to_block := c\<rparr>)) xs D"
    (is "pool_at ?p xs D")
proof (rule pool_at_step [OF p])
  note d = pool_atD [OF p]
  show "rep (free_block_queue ?p) xs" using d(1) by (intro rep_upd_block) simp_all
  show "bi.agrees (heap ?p) (set (blocks p)) (\<lambda>b. block_hash (heap ?p b)) (cached_block_hash_to_block ?p)"
    using c by (auto simp: pool_simps elim!: bi.agrees_cong)
  show "set xs \<union> D = {b \<in> set (blocks p). b \<noteq> null_block p \<and> ref_cnt (heap ?p b) = 0}"
    unfolding d(7) by (auto simp: pool_simps)
qed (use pool_atD(2,8,9) [OF p] b in \<open>auto simp: pool_simps same_frame_def\<close>)

section \<open>Eviction\<close>

lemma evict_spec:
  assumes p: "pool_at p xs D" and b: "b \<in> set (blocks p)"
  shows "\<exists>p'. maybe_evict_cached_block b p = (block_hash (heap p b) \<noteq> None, p') \<and> pool_at p' xs D \<and>
     heap p' = (heap p)(b := (heap p b)\<lparr>block_hash := None\<rparr>) \<and> same_frame p p'"
proof (cases "block_hash (heap p b)")
  case None
  then have "heap p = (heap p)(b := (heap p b)\<lparr>block_hash := None\<rparr>)" by (simp add: fun_eq_iff)
  with None p show ?thesis by (simp add: maybe_evict_cached_block_def pool_simps)
next
  case (Some k)
  obtain c where c: "pop_block (heap p) k (block_id (heap p b)) (cached_block_hash_to_block p) = (Some b, c)"
    "bi.agrees (heap p) (set (blocks p)) ((\<lambda>b. block_hash (heap p b))(b := None)) c"
    using bi.agrees_delete [OF pool_atD(10) [OF p] b Some] by blast
  have n: "b \<noteq> null_block p" using Some pool_atD(9) [OF p] by auto
  have "pool_at (upd_block b (\<lambda>a. a\<lparr>block_hash := None\<rparr>)
     ((metric (OnEvicted b) p)\<lparr>cached_block_hash_to_block := c\<rparr>)) xs D"
    by (rule pool_at_hash) (use p n c(2) in \<open>simp_all add: pool_simps\<close>)
  then show ?thesis
    using Some c(1) by (simp add: maybe_evict_cached_block_def pool_simps same_frame_def Let_def)
qed

section \<open>Allocation\<close>

lemma alloc_block_spec:
  assumes p: "pool_at p xs D" and b: "b \<in> D"
  shows "\<exists>p'. alloc_block b p = Inr p' \<and> pool_at p' xs (D - {b}) \<and> same_frame p p' \<and>
     ref_cnt (heap p' b) = 1 \<and> (enable_caching p \<longrightarrow> block_hash (heap p' b) = None) \<and>
     (\<forall>c. c \<noteq> b \<longrightarrow> heap p' c = heap p c)"
proof -
  have bb: "b \<in> set (blocks p)" "b \<noteq> null_block p" "ref_cnt (heap p b) = 0" "b \<notin> set xs"
    using pool_atD(2,7) [OF p] b by blast+
  define p1 where "p1 = (if enable_caching p then snd (maybe_evict_cached_block b p) else p)"
  have p1: "pool_at p1 xs D" "same_frame p p1" "ref_cnt (heap p1 b) = 0"
    "enable_caching p \<longrightarrow> block_hash (heap p1 b) = None" "\<forall>c. c \<noteq> b \<longrightarrow> heap p1 c = heap p c"
    using evict_spec [OF p bb(1)] p bb(3) by (auto simp: p1_def)
  have "pool_at (upd_block b (\<lambda>k. k\<lparr>ref_cnt := ref_cnt k + 1\<rparr>) p1) xs (D - {b})"
    using pool_at_ref [OF p1(1), of b "\<lambda>r. r + 1"] p1 bb by (simp add: same_frame_def)
  then show ?thesis
    using p1 unfolding alloc_block_def p1_def [symmetric] by (simp add: Let_def pool_simps)
qed

lemma alloc_blocks_spec:
  "pool_at p xs (set bs) \<Longrightarrow> distinct bs \<Longrightarrow>
   \<exists>p'. res_fold alloc_block bs p = Inr p' \<and> pool_at p' xs {} \<and> same_frame p p' \<and>
     (\<forall>b \<in> set bs. ref_cnt (heap p' b) = 1 \<and> (enable_caching p \<longrightarrow> block_hash (heap p' b) = None)) \<and>
     (\<forall>c. c \<notin> set bs \<longrightarrow> heap p' c = heap p c)"
proof (induction bs arbitrary: p)
  case Nil
  then show ?case by simp
next
  case (Cons b bs)
  obtain p1 where p1: "alloc_block b p = Inr p1" "pool_at p1 xs (set (b # bs) - {b})" "same_frame p p1"
    "ref_cnt (heap p1 b) = 1" "enable_caching p \<longrightarrow> block_hash (heap p1 b) = None"
    "\<forall>c. c \<noteq> b \<longrightarrow> heap p1 c = heap p c"
    using alloc_block_spec [OF Cons.prems(1), of b] by auto
  have "set (b # bs) - {b} = set bs" using Cons.prems(2) by auto
  with p1(2) obtain p2 where p2: "res_fold alloc_block bs p1 = Inr p2" "pool_at p2 xs {}" "same_frame p1 p2"
    "\<forall>b \<in> set bs. ref_cnt (heap p2 b) = 1 \<and> (enable_caching p1 \<longrightarrow> block_hash (heap p2 b) = None)"
    "\<forall>c. c \<notin> set bs \<longrightarrow> heap p2 c = heap p1 c"
    using Cons.IH [of p1] Cons.prems(2) by auto
  then show ?case
    using p1 Cons.prems(2) by (auto simp: same_frame_def)
qed

lemma get_new_blocks_spec:
  assumes p: "pool_at p xs {}" and n: "0 \<le> n" "n \<le> int (length xs)"
  shows "\<exists>p'. get_new_blocks n p = Inr (take (nat n) xs, p') \<and> pool_at p' (drop (nat n) xs) {} \<and>
     same_frame p p' \<and>
     (\<forall>b \<in> set (take (nat n) xs). ref_cnt (heap p' b) = 1 \<and>
        (enable_caching p \<longrightarrow> block_hash (heap p' b) = None)) \<and>
     (\<forall>c. c \<notin> set (take (nat n) xs) \<longrightarrow> payload (heap p') c = payload (heap p) c)"
proof -
  let ?bs = "take (nat n) xs" and ?xs = "drop (nat n) xs"
  obtain q where q: "popleft_n n (free_block_queue p) = Inr (?bs, q)" "rep q ?xs"
    "payload (objs q) = payload (heap p)"
    using fq.pop_n_law [OF pool_atD(1) [OF p] n] by blast
  have d: "distinct (?bs @ ?xs)" using rep_distinct [OF pool_atD(1) [OF p]] by simp
  have "set ?bs \<union> set ?xs = set xs" by (metis append_take_drop_id set_append)
  moreover have "set ?xs \<inter> set ?bs = {}" using d unfolding distinct_append by blast
  ultimately have "pool_at (p\<lparr>free_block_queue := q\<rparr>) ?xs (set ?bs)"
    by (intro pool_at_queue [OF p q(2,3)]) auto
  then obtain p' where p': "res_fold alloc_block ?bs (p\<lparr>free_block_queue := q\<rparr>) = Inr p'" "pool_at p' ?xs {}"
    "same_frame (p\<lparr>free_block_queue := q\<rparr>) p'"
    "\<forall>b \<in> set ?bs. ref_cnt (heap p' b) = 1 \<and> (enable_caching p \<longrightarrow> block_hash (heap p' b) = None)"
    "\<forall>c. c \<notin> set ?bs \<longrightarrow> heap p' c = objs q c"
    using alloc_blocks_spec [of _ ?xs ?bs] d by fastforce
  have "get_new_blocks n p = Inr (?bs, p')"
    using n q(1) p'(1) rep_num [OF pool_atD(1) [OF p]]
    by (simp add: get_new_blocks_def get_num_free_blocks_def)
  moreover have "payload (heap p') c = payload (heap p) c" if "c \<notin> set ?bs" for c
    using p'(5) that fun_cong [OF q(3), of c] by (simp add: payload_def)
  ultimately show ?thesis using p' by (simp add: same_frame_def)
qed

lemma get_new_blocks_error:
  "pool_at p xs D \<Longrightarrow> int (length xs) < n \<Longrightarrow>
     get_new_blocks n p = Inl (ValueError ''Cannot get free blocks from the pool'')"
  using rep_num [OF pool_atD(1)] by (simp add: get_new_blocks_def get_num_free_blocks_def)

section \<open>Touching and freeing\<close>

text \<open>The change an operation makes to the reference counts, and that it makes no other.\<close>

definition refs_by :: "(node \<Rightarrow> int) \<Rightarrow> BlockPool \<Rightarrow> BlockPool \<Rightarrow> bool" where
  "refs_by f p p' \<longleftrightarrow> (\<forall>b. ref_cnt (heap p' b) = ref_cnt (heap p b) + f b \<and>
     block_hash (heap p' b) = block_hash (heap p b) \<and> block_id (heap p' b) = block_id (heap p b) \<and>
     is_null (heap p' b) = is_null (heap p b)) \<and>
     cached_block_hash_to_block p' = cached_block_hash_to_block p"

lemma touch_block_spec:
  assumes p: "pool_at p xs {}" and b: "b \<in> set (blocks p)"
  shows "\<exists>p'. touch_block b p = Inr p' \<and> pool_at p' (remove1 b xs) {} \<and> same_frame p p' \<and>
     refs_by (\<lambda>c. if c = b then 1 else 0) p p'"
proof -
  note d = pool_atD [OF p]
  have xs: "b \<in> set xs \<longleftrightarrow> ref_cnt (heap p b) = 0 \<and> \<not> is_null (heap p b)"
    using d(7) b pool_at_null [OF p b] by blast
  have "\<exists>q. (if ref_cnt (heap p b) = 0 \<and> \<not> is_null (heap p b)
       then res_bind (remove_block b (free_block_queue p)) (\<lambda>q. Inr (p\<lparr>free_block_queue := q\<rparr>))
       else Inr p) = Inr (p\<lparr>free_block_queue := q\<rparr>) \<and> rep q (remove1 b xs) \<and> payload (objs q) = payload (heap p)"
  proof (cases "b \<in> set xs")
    case True
    then show ?thesis using xs fq.del_member [OF d(1) True] by auto
  next
    case False
    then show ?thesis using xs d(1) by (intro exI [of _ "free_block_queue p"]) (auto simp: remove1_idem)
  qed
  then obtain q where q: "(if ref_cnt (heap p b) = 0 \<and> \<not> is_null (heap p b)
       then res_bind (remove_block b (free_block_queue p)) (\<lambda>q. Inr (p\<lparr>free_block_queue := q\<rparr>))
       else Inr p) = Inr (p\<lparr>free_block_queue := q\<rparr>)" "rep q (remove1 b xs)" "payload (objs q) = payload (heap p)"
    by blast
  let ?E = "set xs \<inter> {b}" and ?p = "p\<lparr>free_block_queue := q\<rparr>"
  have s: "set (remove1 b xs) = set xs - {b}" using rep_distinct [OF d(1)] by (simp add: set_remove1_eq)
  have p1: "pool_at ?p (remove1 b xs) ?E"
    by (rule pool_at_queue [OF p q(2,3)]) (use s in auto)
  have e: "?E - {b} = {}" by blast
  have "pool_at (upd_block b (\<lambda>k. k\<lparr>ref_cnt := ref_cnt k + 1\<rparr>) ?p) (remove1 b xs) {}"
    using pool_at_ref [OF p1, of b "\<lambda>r. r + 1"] b s d(8) payload_eqD(2) [OF q(3), of b]
    unfolding e by (auto split: if_splits)
  then show ?thesis
    using q(1) by (simp add: touch_block_def pool_simps refs_by_def payload_eqD [OF q(3)] same_frame_def)
qed

lemma refs_by_trans:
  "refs_by f p q \<Longrightarrow> refs_by g q r \<Longrightarrow> (\<And>b. h b = f b + g b) \<Longrightarrow> refs_by h p r"
  by (simp add: refs_by_def)

lemma touch_spec:
  "pool_at p xs {} \<Longrightarrow> set bs \<subseteq> set (blocks p) \<Longrightarrow>
   \<exists>p'. touch bs p = Inr p' \<and> pool_at p' (fold remove1 bs xs) {} \<and> same_frame p p' \<and>
     refs_by (\<lambda>c. int (count_list bs c)) p p'"
proof (induction bs arbitrary: p xs)
  case Nil
  then show ?case by (simp add: touch_def refs_by_def)
next
  case (Cons b bs)
  obtain p1 where p1: "touch_block b p = Inr p1" "pool_at p1 (remove1 b xs) {}" "same_frame p p1"
    "refs_by (\<lambda>c. if c = b then 1 else 0) p p1"
    using touch_block_spec [of p xs b] Cons.prems by auto
  have "set bs \<subseteq> set (blocks p1)" using Cons.prems(2) p1(3) by (simp add: same_frame_def)
  then obtain p2 where p2: "touch bs p1 = Inr p2" "pool_at p2 (fold remove1 bs (remove1 b xs)) {}"
    "same_frame p1 p2" "refs_by (\<lambda>c. int (count_list bs c)) p1 p2"
    using Cons.IH [OF p1(2)] by auto
  have "refs_by (\<lambda>c. int (count_list (b # bs) c)) p p2"
    by (rule refs_by_trans [OF p1(4) p2(4)]) auto
  then show ?case
    using p1 p2 same_frame_trans [OF p1(3) p2(3)] by (auto simp: touch_def)
qed

definition decr_refs :: "node list \<Rightarrow> BlockPool \<Rightarrow> BlockPool" where
  "decr_refs bs p = fold (\<lambda>b. upd_block b (\<lambda>k. k\<lparr>ref_cnt := ref_cnt k - 1\<rparr>)) bs p"

lemma decr_refs_spec:
  "pool_at p xs D \<Longrightarrow> set bs \<subseteq> set (blocks p) \<Longrightarrow> distinct (filter (\<lambda>b. b \<noteq> null_block p) bs) \<Longrightarrow>
   (\<forall>b \<in> set bs. b \<noteq> null_block p \<longrightarrow> 1 \<le> ref_cnt (heap p b)) \<Longrightarrow>
   pool_at (decr_refs bs p) xs (D \<union> {b \<in> set bs. b \<noteq> null_block p \<and> ref_cnt (heap p b) = 1}) \<and>
     same_frame p (decr_refs bs p) \<and> refs_by (\<lambda>c. - int (count_list bs c)) p (decr_refs bs p)"
proof (induction bs arbitrary: p D)
  case Nil
  then show ?case by (simp add: decr_refs_def refs_by_def)
next
  case (Cons b bs)
  let ?p = "upd_block b (\<lambda>k. k\<lparr>ref_cnt := ref_cnt k - 1\<rparr>) p"
  let ?D = "if b \<noteq> null_block p \<and> ref_cnt (heap p b) = 1 then insert b D else D"
  have b: "b \<notin> set xs \<union> D" using pool_at_free [OF Cons.prems(1), of b] Cons.prems(4) by fastforce
  then have p1: "pool_at ?p xs ?D"
    using pool_at_ref [OF Cons.prems(1), of b "\<lambda>r. r - 1"] Cons.prems(2,4) by (auto split: if_splits)
  have nb: "b \<noteq> null_block p \<Longrightarrow> b \<notin> set bs" using Cons.prems(3) by auto
  have IH: "pool_at (decr_refs bs ?p) xs (?D \<union> {c \<in> set bs. c \<noteq> null_block ?p \<and> ref_cnt (heap ?p c) = 1}) \<and>
     same_frame ?p (decr_refs bs ?p) \<and> refs_by (\<lambda>c. - int (count_list bs c)) ?p (decr_refs bs ?p)"
    by (rule Cons.IH [OF p1]) (use Cons.prems nb in \<open>auto simp: pool_simps split: if_splits\<close>)
  have "?D \<union> {c \<in> set bs. c \<noteq> null_block ?p \<and> ref_cnt (heap ?p c) = 1} =
      D \<union> {c \<in> set (b # bs). c \<noteq> null_block p \<and> ref_cnt (heap p c) = 1}"
    using nb by (auto simp: pool_simps)
  moreover have "refs_by (\<lambda>c. if c = b then -1 else 0) p ?p" by (simp add: refs_by_def pool_simps)
  then have "refs_by (\<lambda>c. - int (count_list (b # bs) c)) p (decr_refs bs ?p)"
    using IH by (elim refs_by_trans [of _ p ?p]) auto
  moreover have "same_frame p ?p" by simp
  ultimately show ?case using IH same_frame_trans [of p ?p] by (simp add: decr_refs_def)
qed

lemma free_blocks_spec:
  assumes p: "pool_at p xs {}" and bs: "set bs \<subseteq> set (blocks p)"
    "distinct (filter (\<lambda>b. b \<noteq> null_block p) bs)"
    "\<forall>b \<in> set bs. b \<noteq> null_block p \<longrightarrow> 1 \<le> ref_cnt (heap p b)"
  shows "\<exists>p'. free_blocks bs p = Inr p' \<and>
     pool_at p' (xs @ filter (\<lambda>b. b \<noteq> null_block p \<and> ref_cnt (heap p b) = 1) bs) {} \<and>
     same_frame p p' \<and> refs_by (\<lambda>c. - int (count_list bs c)) p p'"
proof -
  let ?p = "decr_refs bs p" and ?fs = "filter (\<lambda>b. b \<noteq> null_block p \<and> ref_cnt (heap p b) = 1) bs"
  have "set ?fs = {} \<union> {b \<in> set bs. b \<noteq> null_block p \<and> ref_cnt (heap p b) = 1}" by auto
  then have d: "pool_at ?p xs (set ?fs)" "same_frame p ?p" "refs_by (\<lambda>c. - int (count_list bs c)) p ?p"
    using decr_refs_spec [OF p bs] by simp_all
  have c: "count_list bs b = 1" if "b \<in> set bs" "b \<noteq> null_block p" for b
    by (rule count_list_distinct_filter [OF bs(2)]) (use that in simp_all)
  have "is_null (heap ?p b) \<longleftrightarrow> b = null_block p" if "b \<in> set bs" for b
    using pool_at_null [OF d(1)] that bs(1) d(2) by (auto simp: same_frame_def)
  then have fs: "filter (\<lambda>b. ref_cnt (heap ?p b) = 0 \<and> \<not> is_null (heap ?p b)) bs = ?fs"
    using d(3) c by (intro filter_cong) (auto simp: refs_by_def)
  have "set xs \<inter> set ?fs = {}" by (rule pool_atD(2) [OF d(1)])
  moreover have "distinct ?fs" using bs(2) by (metis (no_types) distinct_filter filter_filter)
  moreover have "\<forall>b \<in> set ?fs. b \<noteq> FakeHead \<and> b \<noteq> FakeTail" using pool_at_real [OF p] bs(1) by auto
  ultimately obtain q where q: "append_n ?fs (free_block_queue ?p) = Inr q" "rep q (xs @ ?fs)"
    "payload (objs q) = payload (heap ?p)"
    using fq.add_n_law [OF pool_atD(1) [OF d(1)], of ?fs] rep_distinct [OF pool_atD(1) [OF p]] by auto
  have "pool_at (?p\<lparr>free_block_queue := q\<rparr>) (xs @ ?fs) {}"
    by (rule pool_at_queue [OF d(1) q(2,3)]) auto
  moreover have "free_blocks bs p = Inr (?p\<lparr>free_block_queue := q\<rparr>)"
    using q(1) unfolding free_blocks_def decr_refs_def [symmetric] Let_def fs by simp
  ultimately show ?thesis
    using d(2,3) by (auto simp: same_frame_def refs_by_def payload_eqD [OF q(3)])
qed

section \<open>Evicting by id and resetting\<close>

lemma evict_block_id_spec:
  assumes p: "pool_at p xs {}" and i: "0 \<le> i" "i < num_gpu_blocks p"
  shows "\<exists>p'. evict_block_id i p = Inr p' \<and> pool_at p' xs {} \<and> same_frame p p' \<and>
     heap p' = (heap p)(Blk (nat i) := (heap p (Blk (nat i)))\<lparr>block_hash := None\<rparr>)"
proof -
  have n: "nat i < length (blocks p)" "blocks p ! nat i = Blk (nat i)" "i < int (length (blocks p))"
    using i pool_atD(4) [OF p] by simp_all
  then have "Blk (nat i) \<in> set (blocks p)" by (metis nth_mem)
  moreover have "py_nth (blocks p) i = Inr (Blk (nat i))" using n i by (simp add: py_nth_def)
  ultimately show ?thesis
    using evict_spec [OF p, of "Blk (nat i)"] n by (auto simp: evict_block_id_def)
qed

lemma evict_blocks_spec:
  "pool_at p xs {} \<Longrightarrow> \<forall>i \<in> set ids. 0 \<le> i \<and> i < num_gpu_blocks p \<Longrightarrow>
   \<exists>p'. evict_blocks ids p = Inr p' \<and> pool_at p' xs {} \<and> same_frame p p' \<and>
     (\<forall>b. heap p' b = (if \<exists>i \<in> set ids. b = Blk (nat i) then (heap p b)\<lparr>block_hash := None\<rparr> else heap p b))"
proof (induction ids arbitrary: p)
  case Nil
  then show ?case by (simp add: evict_blocks_def)
next
  case (Cons i ids)
  obtain p1 where p1: "evict_block_id i p = Inr p1" "pool_at p1 xs {}" "same_frame p p1"
    "heap p1 = (heap p)(Blk (nat i) := (heap p (Blk (nat i)))\<lparr>block_hash := None\<rparr>)"
    using evict_block_id_spec [OF Cons.prems(1), of i] Cons.prems(2) by auto
  have "\<forall>i \<in> set ids. 0 \<le> i \<and> i < num_gpu_blocks p1"
    using Cons.prems(2) p1(3) by (simp add: same_frame_def)
  then obtain p2 where p2: "evict_blocks ids p1 = Inr p2" "pool_at p2 xs {}" "same_frame p1 p2"
    "\<forall>b. heap p2 b = (if \<exists>i \<in> set ids. b = Blk (nat i) then (heap p1 b)\<lparr>block_hash := None\<rparr> else heap p1 b)"
    using Cons.IH [OF p1(2)] by blast
  have "evict_blocks (i # ids) p = Inr p2" using p1(1) p2(1) by (simp add: evict_blocks_def)
  moreover have "heap p2 b = (if \<exists>j \<in> set (i # ids). b = Blk (nat j) then (heap p b)\<lparr>block_hash := None\<rparr> else heap p b)" for b
    using p2(4) p1(4) by (cases "b = Blk (nat i)") simp_all
  ultimately show ?case using p2(2) same_frame_trans [OF p1(3) p2(3)] by blast
qed

lemma evict_blocks_any:
  assumes "evict_blocks ids p = Inr p'" "pool_at p xs {}"
  shows "pool_at p' xs {} \<and> same_frame p p' \<and> (\<forall>b. ref_cnt (heap p' b) = ref_cnt (heap p b))"
proof -
  let ?P = "\<lambda>q. pool_at q xs {} \<and> same_frame p q \<and> (\<forall>b. ref_cnt (heap q b) = ref_cnt (heap p b))"
  show ?thesis
  proof (rule res_fold_invariant [of evict_block_id ids p p' ?P])
    fix i q q'
    assume q: "?P q" "evict_block_id i q = Inr q'"
    then obtain b where b: "b \<in> set (blocks q)" "q' = snd (maybe_evict_cached_block b q)"
      by (auto simp: evict_block_id_def res_simps split: if_splits dest!: py_nth_mem)
    then show "?P q'" using q(1) evict_spec [of q xs "{}" b] by (auto intro: same_frame_trans)
  qed (use assms in \<open>simp_all add: evict_blocks_def\<close>)
qed

lemma fold_upd_heap:
  assumes "\<And>k. g (g k) = g k"
  shows "heap (fold (\<lambda>b. upd_block b g) bs p) c = (if c \<in> set bs then g (heap p c) else heap p c)"
    and "same_frame p (fold (\<lambda>b. upd_block b g) bs p)"
    and "cached_block_hash_to_block (fold (\<lambda>b. upd_block b g) bs p) = cached_block_hash_to_block p"
  by (induction bs arbitrary: p) (auto simp: pool_simps assms same_frame_def)

lemma fold_upd_rep:
  assumes "\<And>k. next_free_block (g k) = next_free_block k" "\<And>k. prev_free_block (g k) = prev_free_block k"
  shows "rep (free_block_queue p) xs \<Longrightarrow> rep (free_block_queue (fold (\<lambda>b. upd_block b g) bs p)) xs"
  by (induction bs arbitrary: p) (simp_all add: rep_upd_block assms)

lemma reset_spec:
  assumes p: "pool_at p xs {}"
  shows "\<exists>p'. reset_prefix_cache p = (set xs = set (blocks p) - {null_block p}, p') \<and> pool_at p' xs {} \<and>
     same_frame p p' \<and> (\<forall>b. ref_cnt (heap p' b) = ref_cnt (heap p b)) \<and>
     (if set xs = set (blocks p) - {null_block p}
      then cached_block_hash_to_block p' = [] \<and> (\<forall>b \<in> set (blocks p). block_hash (heap p' b) = None)
      else p' = p)"
proof -
  note d = pool_atD [OF p]
  have sub: "set xs \<subseteq> set (blocks p) - {null_block p}" using pool_at_free [OF p] by blast
  have dis: "distinct (blocks p)" "length (blocks p) = nat (num_gpu_blocks p)"
    unfolding d(4) by (simp_all add: distinct_map inj_on_def)
  have cb: "card (set (blocks p) - {null_block p}) = nat (num_gpu_blocks p) - 1"
    using distinct_card [OF dis(1)] dis(2) pool_at_null_block [OF p] by simp
  have cx: "card (set xs) = length xs" using rep_distinct [OF d(1)] distinct_card by blast
  have "set xs = set (blocks p) - {null_block p} \<longleftrightarrow> card (set xs) = card (set (blocks p) - {null_block p})"
    by (metis List.finite_set card_subset_eq finite_Diff sub)
  then have iff: "num_gpu_blocks p - get_num_free_blocks p = 1 \<longleftrightarrow> set xs = set (blocks p) - {null_block p}"
    using rep_num [OF d(1)] d(3) unfolding cb cx get_num_free_blocks_def by linarith
  show ?thesis
  proof (cases "set xs = set (blocks p) - {null_block p}")
    case False
    then show ?thesis using iff p by (simp add: reset_prefix_cache_def)
  next
    case True
    let ?q = "fold (\<lambda>b. upd_block b (\<lambda>k. k\<lparr>block_hash := None\<rparr>)) (blocks p) (p\<lparr>cached_block_hash_to_block := []\<rparr>)"
    have h: "heap ?q c = (if c \<in> set (blocks p) then (heap p c)\<lparr>block_hash := None\<rparr> else heap p c)" for c
      by (subst fold_upd_heap) simp_all
    have c: "cached_block_hash_to_block ?q = []" by (subst fold_upd_heap) simp_all
    have f: "same_frame p ?q"
      using fold_upd_heap(2) [of "\<lambda>k. k\<lparr>block_hash := None\<rparr>" "p\<lparr>cached_block_hash_to_block := []\<rparr>" "blocks p"]
      by (simp add: same_frame_def)
    have i: "(\<lambda>b. block_id (heap ?q b)) = (\<lambda>b. block_id (heap p b))" by (simp add: h fun_eq_iff)
    have "inj_on (\<lambda>b. block_id (heap ?q b)) (set (blocks p))"
      unfolding i using d(10) by (simp add: bi.agrees_def)
    then have a: "bi.agrees (heap ?q) (set (blocks p)) (\<lambda>b. block_hash (heap ?q b)) []"
      by (rule bi.agrees_empty) (simp add: h)
    have "pool_at ?q xs {}"
    proof (rule pool_at_step [OF p f])
      show "rep (free_block_queue ?q) xs" using d(1) by (intro fold_upd_rep) simp_all
      show "set xs \<union> {} = {b \<in> set (blocks p). b \<noteq> null_block p \<and> ref_cnt (heap ?q b) = 0}"
        unfolding d(7) by (auto simp: h)
    qed (use d(8) pool_at_null_block [OF p] a c in \<open>simp_all add: h\<close>)
    then show ?thesis using True iff f h c by (simp add: reset_prefix_cache_def pool_simps Let_def)
  qed
qed

section \<open>Caching full blocks\<close>

text \<open>An operation that only gives hashes to blocks.\<close>

definition same_refs :: "BlockPool \<Rightarrow> BlockPool \<Rightarrow> bool" where
  "same_refs p p' \<longleftrightarrow> same_frame p p' \<and> (\<forall>b. ref_cnt (heap p' b) = ref_cnt (heap p b))"

lemma same_refs_trans: "same_refs p q \<Longrightarrow> same_refs q r \<Longrightarrow> same_refs p r"
  by (auto simp: same_refs_def intro: same_frame_trans)

lemma upd_block_cached:
  "(upd_block b g p)\<lparr>cached_block_hash_to_block := c\<rparr> = upd_block b g (p\<lparr>cached_block_hash_to_block := c\<rparr>)"
  by (simp add: upd_block_def)

lemma cache_one_block_spec:
  assumes p: "pool_at p xs D" and b: "b \<in> set (blocks p)"
    and r: "cache_one_block hs gid (i, b) (p, nh) = Inr (p', nh')"
  shows "pool_at p' xs D \<and> same_refs p p' \<and> (\<forall>c. c \<noteq> b \<longrightarrow> block_hash (heap p' c) = block_hash (heap p c)) \<and>
     (if b = null_block p then p' = p
      else block_hash (heap p b) = None \<and> i < length hs \<and>
        (\<exists>key. make_block_hash_with_group_id (hs ! i) gid = Inr key \<and> block_hash (heap p' b) = Some key))"
proof (cases "b = null_block p")
  case True
  then show ?thesis
    using r p pool_at_null [OF p b] by (simp add: cache_one_block_def same_refs_def)
next
  case False
  then have h: "block_hash (heap p b) = None" using r pool_at_null [OF p b]
    by (simp add: cache_one_block_def split: if_splits)
  from r False pool_at_null [OF p b] h obtain bh key
    where k: "py_nth hs (int i) = Inr bh" "make_block_hash_with_group_id bh gid = Inr key"
      "p' = upd_block b (\<lambda>k. k\<lparr>block_hash := Some key\<rparr>)
         (p\<lparr>cached_block_hash_to_block := insert_block (heap p) key b (cached_block_hash_to_block p)\<rparr>)"
    using insert_block_cong [of "heap (upd_block b (\<lambda>k. k\<lparr>block_hash := Some _\<rparr>) p)" "heap p"]
    by (auto simp: cache_one_block_def res_simps Let_def upd_block_cached pool_simps)
  have i: "i < length hs" "bh = hs ! i" using k(1) by (auto simp: py_nth_def split: if_splits)
  have "pool_at p' xs D"
    unfolding k(3) by (rule pool_at_hash [OF p False]) (rule bi.agrees_insert [OF pool_atD(10) [OF p] b h])
  then show ?thesis
    using False h i k(2) by (auto simp: k(3) same_refs_def same_frame_def pool_simps)
qed

lemma cache_loop_spec:
  assumes "res_fold (cache_one_block hs gid) ibs (p, nh) = Inr (p', nh')" "pool_at p xs D"
    "\<forall>(i, b) \<in> set ibs. b \<in> set (blocks p)"
  shows "pool_at p' xs D \<and> same_refs p p' \<and>
     (\<forall>c. c \<notin> snd ` set ibs \<longrightarrow> block_hash (heap p' c) = block_hash (heap p c)) \<and>
     (\<forall>c. block_hash (heap p c) \<noteq> None \<longrightarrow> block_hash (heap p' c) = block_hash (heap p c)) \<and>
     (\<forall>(i, b) \<in> set ibs. b \<noteq> null_block p \<longrightarrow> i < length hs \<and>
        (\<exists>key. make_block_hash_with_group_id (hs ! i) gid = Inr key \<and> block_hash (heap p' b) = Some key))"
  using assms
proof (induction ibs arbitrary: p nh)
  case Nil
  then show ?case by (simp add: same_refs_def)
next
  case (Cons ib ibs)
  obtain i b where ib: "ib = (i, b)" by (cases ib)
  obtain p1 nh1 where s: "cache_one_block hs gid (i, b) (p, nh) = Inr (p1, nh1)"
    "res_fold (cache_one_block hs gid) ibs (p1, nh1) = Inr (p', nh')"
    using Cons.prems(1) by (auto simp: ib res_simps)
  have b: "b \<in> set (blocks p)" using Cons.prems(3) ib by simp
  note one = cache_one_block_spec [OF Cons.prems(2) b s(1)]
  have f: "blocks p1 = blocks p" "null_block p1 = null_block p"
    using one by (simp_all add: same_refs_def same_frame_def)
  have IH: "pool_at p' xs D \<and> same_refs p1 p' \<and>
     (\<forall>c. c \<notin> snd ` set ibs \<longrightarrow> block_hash (heap p' c) = block_hash (heap p1 c)) \<and>
     (\<forall>c. block_hash (heap p1 c) \<noteq> None \<longrightarrow> block_hash (heap p' c) = block_hash (heap p1 c)) \<and>
     (\<forall>(i, b) \<in> set ibs. b \<noteq> null_block p1 \<longrightarrow> i < length hs \<and>
        (\<exists>key. make_block_hash_with_group_id (hs ! i) gid = Inr key \<and> block_hash (heap p' b) = Some key))"
    by (rule Cons.IH [OF s(2)]) (use one Cons.prems(3) f in auto)
  have keep: "block_hash (heap p' c) = block_hash (heap p c)" if "block_hash (heap p c) \<noteq> None" for c
    using that one IH by (cases "c = b") (auto split: if_splits)
  have mine: "b \<noteq> null_block p \<longrightarrow> i < length hs \<and>
      (\<exists>key. make_block_hash_with_group_id (hs ! i) gid = Inr key \<and> block_hash (heap p' b) = Some key)"
    using one IH by (metis option.distinct(1))
  have refs: "same_refs p p'" using one IH same_refs_trans by blast
  have rest: "c \<notin> snd ` set (ib # ibs) \<longrightarrow> block_hash (heap p' c) = block_hash (heap p c)" for c
    using one IH by (simp add: ib)
  from IH keep mine refs rest f(2) show ?case by (auto simp: ib)
qed

lemma cache_full_blocks_spec:
  assumes r: "cache_full_blocks sha r bs nc nf bsz gid p = Inr (r', p')"
    and p: "pool_at p xs D" and bs: "set bs \<subseteq> set (blocks p)" and nc: "0 \<le> nc"
  shows "pool_at p' xs D \<and> same_refs p p' \<and>
     (\<forall>c. block_hash (heap p c) \<noteq> None \<longrightarrow> block_hash (heap p' c) = block_hash (heap p c)) \<and>
     (bsz = hash_block_size p \<longrightarrow> (\<forall>i. nat nc \<le> i \<and> i < nat nf \<and> i < length bs \<and> bs ! i \<noteq> null_block p \<longrightarrow>
        i < length (block_hashes r) \<and>
        (\<exists>key. make_block_hash_with_group_id (block_hashes r ! i) gid = Inr key \<and>
           block_hash (heap p' (bs ! i)) = Some key)))"
proof (cases "nf \<le> nc")
  case True
  then have "p' = p" "nat nf \<le> nat nc" using r by (simp_all add: cache_full_blocks_def)
  then show ?thesis using p by (auto simp: same_refs_def)
next
  case False
  let ?ibs = "enumerate 0 (py_slice bs nc nf)"
  obtain hs p1 nh where h: "group_hashes p r bsz = Inr hs"
    "res_fold (cache_one_block (hashes_from hs nc) gid) ?ibs (p, []) = Inr (p1, nh)"
    and p1: "p' = p1 \<or> (\<exists>e. p' = emit e p1)"
    using r False by (auto simp: cache_full_blocks_def res_simps split: if_splits prod.splits)
  have "\<forall>(i, b) \<in> set ?ibs. b \<in> set (blocks p)"
  proof -
    have "set (py_slice bs nc nf) \<subseteq> set bs"
      by (auto simp: py_slice_def dest: in_set_takeD in_set_dropD)
    moreover have "b \<in> set ys" if "(i, b) \<in> set (enumerate 0 ys)" for i b and ys :: "node list"
      using that by (auto simp: in_set_enumerate_eq)
    ultimately show ?thesis using bs by blast
  qed
  note L = cache_loop_spec [OF h(2) p this]
  have e: "heap p' = heap p1" "pool_at p' xs D = pool_at p1 xs D" "same_refs p p' = same_refs p p1"
    using p1 by (auto simp: pool_simps same_refs_def)
  have "i < length (block_hashes r) \<and> (\<exists>key. make_block_hash_with_group_id (block_hashes r ! i) gid = Inr key \<and>
      block_hash (heap p' (bs ! i)) = Some key)"
    if i: "bsz = hash_block_size p" "nat nc \<le> i" "i < nat nf" "i < length bs" "bs ! i \<noteq> null_block p" for i
  proof -
    have "(i - nat nc, bs ! i) \<in> set ?ibs"
      using i nc by (auto simp: in_set_enumerate_eq py_slice_def)
    then have "i - nat nc < length (hashes_from hs nc) \<and>
      (\<exists>key. make_block_hash_with_group_id (hashes_from hs nc ! (i - nat nc)) gid = Inr key \<and>
         block_hash (heap p1 (bs ! i)) = Some key)"
      using L i(5) by fast
    moreover have "hs = PlainHashes (block_hashes r)" using h(1) i(1) by (simp add: group_hashes_def)
    ultimately show ?thesis using i(2) by (auto simp: e)
  qed
  then show ?thesis using L unfolding e by blast
qed

section \<open>Looking up cached blocks\<close>

lemma get_cached_block_spec:
  assumes p: "pool_at p xs D" and g: "\<forall>g \<in> set gs. 0 \<le> g \<and> g < 2 ^ 32"
  shows "\<exists>r. get_cached_block bh gs p = Inr r \<and>
    (case r of
       None \<Rightarrow> \<exists>g \<in> set gs. \<forall>b \<in> set (blocks p). \<forall>key. make_block_hash_with_group_id bh g = Inr key \<longrightarrow>
          block_hash (heap p b) \<noteq> Some key
     | Some bs \<Rightarrow> list_all2 (\<lambda>g b. b \<in> set (blocks p) \<and> b \<noteq> null_block p \<and>
          (\<exists>key. make_block_hash_with_group_id bh g = Inr key \<and> block_hash (heap p b) = Some key)) gs bs)"
  using g
proof (induction gs)
  case Nil
  then show ?case by simp
next
  case (Cons g gs)
  obtain key where k: "make_block_hash_with_group_id bh g = Inr key"
    using Cons.prems by (auto simp: make_block_hash_with_group_id_def to_bytes4_def)
  obtain r1 where r1: "get_one_block key (cached_block_hash_to_block p) = Inr r1"
    "case r1 of None \<Rightarrow> \<forall>b \<in> set (blocks p). block_hash (heap p b) \<noteq> Some key
       | Some b \<Rightarrow> b \<in> set (blocks p) \<and> block_hash (heap p b) = Some key"
    using bi.agrees_find [OF pool_atD(10) [OF p], of key] by blast
  show ?case
  proof (cases r1)
    case None
    then show ?thesis using k r1 by auto
  next
    case (Some b)
    then have "b \<noteq> null_block p" using r1(2) pool_atD(9) [OF p] by auto
    moreover obtain r where "get_cached_block bh gs p = Inr r" "case r of
       None \<Rightarrow> \<exists>g \<in> set gs. \<forall>b \<in> set (blocks p). \<forall>key. make_block_hash_with_group_id bh g = Inr key \<longrightarrow>
          block_hash (heap p b) \<noteq> Some key
     | Some bs \<Rightarrow> list_all2 (\<lambda>g b. b \<in> set (blocks p) \<and> b \<noteq> null_block p \<and>
          (\<exists>key. make_block_hash_with_group_id bh g = Inr key \<and> block_hash (heap p b) = Some key)) gs bs"
      using Cons by auto
    ultimately show ?thesis using k r1 Some by (cases r) auto
  qed
qed

section \<open>The initial pool\<close>

lemma make_block_pool_spec:
  assumes "0 < n"
  shows "\<exists>p. make_block_pool n caching hbs events use_int metrics = Inr p \<and>
     pool_at p (map Blk [1..<nat n]) {} \<and> num_gpu_blocks p = n \<and> enable_caching p = caching \<and>
     hash_block_size p = hbs \<and> enable_kv_cache_events p = events \<and>
     (\<forall>b \<in> set (blocks p). ref_cnt (heap p b) = 0 \<and> block_hash (heap p b) = None)"
proof -
  let ?bs = "map Blk [0..<nat n]"
  let ?h = "\<lambda>a. case a of Blk i \<Rightarrow> new_block (int i) | _ \<Rightarrow> new_block (- 1)"
  have bs: "?bs = Blk 0 # map Blk [1..<nat n]" using assms by (simp add: upt_conv_Cons)
  have dis: "distinct (FakeHead # ?bs @ [FakeTail])" by (auto simp: distinct_map inj_on_def)
  have fr: "prev_free_block (?h b) = None \<and> next_free_block (?h b) = None" for b
    by (simp add: new_block_def split: node.split)
  note Q = rep_FreeKVCacheBlockQueue [OF dis, of ?h, OF fr]
  obtain q where q: "popleft (FreeKVCacheBlockQueue ?bs ?h) = Inr (Blk 0, q)" "rep q (map Blk [1..<nat n])"
    "payload (objs q) = payload (objs (FreeKVCacheBlockQueue ?bs ?h))"
    using fq.pop_law [OF Q(1) [unfolded bs]] bs by auto
  have pl: "payload (objs q) (Blk i) = (int i, 0, None, False)" for i
  proof -
    have "payload (objs q) (Blk i) = payload ?h (Blk i)" unfolding q(3) by (rule Q(2)) simp
    then show ?thesis by (simp add: payload_def new_block_def)
  qed
  define p where "p = \<lparr>num_gpu_blocks = n, enable_caching = caching, hash_block_size = hbs, blocks = ?bs,
     free_block_queue = q\<lparr>objs := (objs q)(Blk 0 := (objs q (Blk 0))\<lparr>is_null := True\<rparr>)\<rparr>,
     cached_block_hash_to_block = [], null_block = Blk 0,
     enable_kv_cache_events = events, use_int_block_hashes = use_int,
     kv_event_queue = [], metrics_collector = metrics\<rparr>"
  have g: "blocks p = ?bs" "num_gpu_blocks p = n" "null_block p = Blk 0" "cached_block_hash_to_block p = []"
    "enable_caching p = caching" "hash_block_size p = hbs" "enable_kv_cache_events p = events"
    by (simp_all add: p_def)
  have m: "make_block_pool n caching hbs events use_int metrics = Inr p"
    using assms q(1) by (simp add: make_block_pool_def p_def)
  have f: "block_id (heap p (Blk i)) = int i" "is_null (heap p (Blk i)) = (i = 0)"
    "ref_cnt (heap p (Blk i)) = 0" "block_hash (heap p (Blk i)) = None" for i
    using pl [of i] pl [of 0] by (simp_all add: p_def payload_def)
  have "rep (free_block_queue p) (map Blk [1..<nat n])"
    using rep_upd_block [of "p\<lparr>free_block_queue := q\<rparr>" _ "\<lambda>k. k\<lparr>is_null := True\<rparr>" "Blk 0"] q(2)
    by (simp add: p_def upd_block_def)
  moreover have "bi.agrees (heap p) (set ?bs) (\<lambda>b. block_hash (heap p b)) []"
    by (rule bi.agrees_empty) (auto simp: inj_on_def f)
  ultimately have "pool_at p (map Blk [1..<nat n]) {}"
    unfolding pool_at_def g using assms f by auto
  then show ?thesis using m f g by auto
qed

end
