(* ===== verification/Pool_Safety.thy ===== *)
theory Pool_Safety
  imports Block_Pool
begin

text \<open>
  What the block pool promises to its clients. A run of the pool is a sequence of its operations by
  clients that keep the documented contract: they free only blocks they hold, at most once per
  call, and they pass only blocks of the pool. The run carries the number of references the
  clients hold on each block; the pool's own bookkeeping is shown to agree with it.
\<close>

section \<open>Runs\<close>

inductive pool_run :: "BlockPool \<Rightarrow> (node \<Rightarrow> nat) \<Rightarrow> bool" where
  init: "make_block_pool n caching hbs events use_int metrics = Inr p \<Longrightarrow> pool_run p (\<lambda>_. 0)"
| alloc: "pool_run p H \<Longrightarrow> 0 \<le> n \<Longrightarrow> get_new_blocks n p = Inr (bs, p') \<Longrightarrow>
    pool_run p' (\<lambda>b. H b + count_list bs b)"
| touch: "pool_run p H \<Longrightarrow> set bs \<subseteq> set (blocks p) \<Longrightarrow> touch bs p = Inr p' \<Longrightarrow>
    pool_run p' (\<lambda>b. H b + count_list bs b)"
| free: "pool_run p H \<Longrightarrow> set bs \<subseteq> set (blocks p) \<Longrightarrow>
    distinct (filter (\<lambda>b. b \<noteq> null_block p) bs) \<Longrightarrow>
    \<forall>b \<in> set bs. b \<noteq> null_block p \<longrightarrow> 0 < H b \<Longrightarrow> free_blocks bs p = Inr p' \<Longrightarrow>
    pool_run p' (\<lambda>b. H b - count_list bs b)"
| cache: "pool_run p H \<Longrightarrow> set bs \<subseteq> set (blocks p) \<Longrightarrow> 0 \<le> nc \<Longrightarrow>
    cache_full_blocks sha r bs nc nf bsz gid p = Inr (r', p') \<Longrightarrow> pool_run p' H"
| evict: "pool_run p H \<Longrightarrow> evict_blocks ids p = Inr p' \<Longrightarrow> pool_run p' H"
| reset: "pool_run p H \<Longrightarrow> reset_prefix_cache p = (ok, p') \<Longrightarrow> pool_run p' H"
| events: "pool_run p H \<Longrightarrow> take_events p = (evs, p') \<Longrightarrow> pool_run p' H"

definition held :: "BlockPool \<Rightarrow> (node \<Rightarrow> nat) \<Rightarrow> bool" where
  "held p H \<longleftrightarrow> (\<forall>b \<in> set (blocks p). b \<noteq> null_block p \<longrightarrow> ref_cnt (heap p b) = int (H b))"

lemma held_step:
  assumes "held p H" "same_frame p p'"
    "\<And>b. b \<in> set (blocks p) \<Longrightarrow> b \<noteq> null_block p \<Longrightarrow> int (H' b) = int (H b) + (ref_cnt (heap p' b) - ref_cnt (heap p b))"
  shows "held p' H'"
  using assms by (simp add: held_def same_frame_def)

lemma pool_at_take_events [simp]: "pool_at (snd (take_events p)) xs D = pool_at p xs D"
  by (simp add: take_events_def pool_at_def)

lemma pool_run_at:
  assumes "pool_run p H"
  shows "\<exists>xs. pool_at p xs {} \<and> held p H"
  using assms
proof (induction rule: pool_run.induct)
  case (init n caching hbs events use_int metrics p)
  then have "0 < n" by (simp add: make_block_pool_def split: if_splits)
  from make_block_pool_spec [OF this, of caching hbs events use_int metrics] init
  show ?case by (auto simp: held_def)
next
  case (alloc p H n bs p')
  then obtain xs where p: "pool_at p xs {}" and h: "held p H" by blast
  have "n \<le> int (length xs)" using get_new_blocks_error [OF p] alloc(3) by (metis Inl_Inr_False linorder_not_less)
  from get_new_blocks_spec [OF p alloc(2) this] alloc(3)
  have bs: "bs = take (nat n) xs" and p': "pool_at p' (drop (nat n) xs) {}" "same_frame p p'"
    "\<forall>b \<in> set bs. ref_cnt (heap p' b) = 1" "\<forall>c. c \<notin> set bs \<longrightarrow> payload (heap p') c = payload (heap p) c"
    by auto
  have d: "distinct bs" using rep_distinct [OF pool_atD(1) [OF p]] bs by simp
  have z: "ref_cnt (heap p b) = 0" if "b \<in> set bs" for b
    using that pool_at_free(3) [OF p] by (auto simp: bs dest: in_set_takeD)
  have "held p' (\<lambda>b. H b + count_list bs b)"
  proof (rule held_step [OF h p'(2)])
    fix b
    show "int (H b + count_list bs b) = int (H b) + (ref_cnt (heap p' b) - ref_cnt (heap p b))"
    proof (cases "b \<in> set bs")
      case True
      then show ?thesis using p'(3) z count_list_distinct_filter [of "\<lambda>_. True" bs b] d by simp
    next
      case False
      then show ?thesis using p'(4) by (simp add: payload_def)
    qed
  qed
  then show ?case using p'(1) by blast
next
  case (touch p H bs p')
  then obtain xs where p: "pool_at p xs {}" and h: "held p H" by blast
  from touch_spec [OF p touch(2)] touch(3) have "pool_at p' (fold remove1 bs xs) {}" "same_frame p p'"
    "refs_by (\<lambda>c. int (count_list bs c)) p p'" by auto
  then show ?case using held_step [OF h] by (auto simp: refs_by_def)
next
  case (free p H bs p')
  then obtain xs where p: "pool_at p xs {}" and h: "held p H" by blast
  have r: "\<forall>b \<in> set bs. b \<noteq> null_block p \<longrightarrow> 1 \<le> ref_cnt (heap p b)"
    using free(2,4) h by (fastforce simp: held_def)
  from free_blocks_spec [OF p free(2,3) r] free(5) have p': "\<exists>ys. pool_at p' ys {}" "same_frame p p'"
    "refs_by (\<lambda>c. - int (count_list bs c)) p p'" by auto
  have c: "count_list bs b \<le> H b" if "b \<noteq> null_block p" for b
    using that free(4) count_list_distinct_filter [OF free(3), of b]
    by (cases "b \<in> set bs") (auto simp: count_list_0_iff)
  have "held p' (\<lambda>b. H b - count_list bs b)"
    by (rule held_step [OF h p'(2)]) (use p'(3) c in \<open>auto simp: refs_by_def of_nat_diff\<close>)
  then show ?case using p'(1) by blast
next
  case (cache p H bs nc sha r nf bsz gid r' p')
  then obtain xs where p: "pool_at p xs {}" and h: "held p H" by blast
  from cache_full_blocks_spec [OF cache(4) p cache(2,3)] have "pool_at p' xs {}" "same_refs p p'" by auto
  then show ?case using held_step [OF h] by (auto simp: same_refs_def)
next
  case (evict p H ids p')
  then obtain xs where p: "pool_at p xs {}" and h: "held p H" by blast
  from evict_blocks_any [OF evict(2) p] show ?case using held_step [OF h] by auto
next
  case (reset p H ok p')
  then obtain xs where p: "pool_at p xs {}" and h: "held p H" by blast
  from reset_spec [OF p] reset(2) have "pool_at p' xs {}" "same_frame p p'"
    "\<forall>b. ref_cnt (heap p' b) = ref_cnt (heap p b)" by auto
  then show ?case using held_step [OF h] by auto
next
  case (events p H evs p')
  then obtain xs where p: "pool_at p xs {}" and h: "held p H" by blast
  have e: "p' = snd (take_events p)" using events(2) by simp
  have "held p' H" using h by (simp add: e held_def take_events_def)
  then show ?case using p by (auto simp: e)
qed

section \<open>Properties\<close>

lemma pool_run_free_list:
  assumes "pool_run p H"
  obtains xs where "pool_at p xs {}" "held p H" "distinct xs"
    "set xs = {b \<in> set (blocks p). b \<noteq> null_block p \<and> H b = 0}"
proof -
  obtain xs where p: "pool_at p xs {}" and h: "held p H" using pool_run_at [OF assms] by blast
  have "set xs = {b \<in> set (blocks p). b \<noteq> null_block p \<and> H b = 0}"
    using pool_atD(7) [OF p] h by (auto simp: held_def)
  then show thesis using that p h rep_distinct [OF pool_atD(1) [OF p]] by blast
qed

text \<open>
  C1. In every run, the reference count of a block is the number of references the clients hold,
  and the free queue lists, each once, exactly the non-null blocks on which nobody holds a
  reference; the free-block count is their number.
\<close>

theorem pool_refcount_exact:
  assumes "pool_run p H"
  shows "(\<forall>b \<in> set (blocks p). b \<noteq> null_block p \<longrightarrow> ref_cnt (heap p b) = int (H b)) \<and>
     (\<exists>xs. get_all_free_blocks (free_block_queue p) = Some (Inr xs) \<and> distinct xs \<and>
        set xs = {b \<in> set (blocks p). b \<noteq> null_block p \<and> H b = 0} \<and>
        get_num_free_blocks p = int (length xs))"
proof -
  obtain xs where x: "pool_at p xs {}" "held p H" "distinct xs"
    "set xs = {b \<in> set (blocks p). b \<noteq> null_block p \<and> H b = 0}"
    using pool_run_free_list [OF assms] by blast
  have "get_all_free_blocks (free_block_queue p) = Some (Inr xs)" "get_num_free_blocks p = int (length xs)"
    using rep_get_all rep_num pool_atD(1) [OF x(1)] by (simp_all add: get_num_free_blocks_def)
  then show ?thesis using x(2-4) unfolding held_def by blast
qed

definition pool4 :: BlockPool where
  "pool4 = projr (make_block_pool 4 True 2 False False None)"

definition pool4_used :: BlockPool where
  "pool4_used = snd (projr (get_new_blocks 2 pool4))"

lemma pool4_eval:
  "make_block_pool 4 True 2 False False None = Inr pool4"
  "get_new_blocks 2 pool4 = Inr ([Blk 1, Blk 2], pool4_used)"
  "blocks pool4_used = [Blk 0, Blk 1, Blk 2, Blk 3]" "null_block pool4_used = Blk 0"
  "enable_caching pool4 = True" "hash_block_size pool4_used = 2"
  "enable_kv_cache_events pool4_used = False"
  and pool4_free: "pool_at pool4_used [Blk 3] {}"
  and pool4_hash: "b \<in> set (blocks pool4_used) \<Longrightarrow> block_hash (heap pool4_used b) = None"
proof -
  obtain p where p: "make_block_pool 4 True 2 False False None = Inr p" "pool_at p (map Blk [1..<nat 4]) {}"
    "num_gpu_blocks p = 4" "enable_caching p = True" "hash_block_size p = 2" "enable_kv_cache_events p = False"
    "\<forall>b \<in> set (blocks p). block_hash (heap p b) = None"
    using make_block_pool_spec [of 4 True 2 False False None] by auto
  then have e: "pool4 = p" by (simp add: pool4_def)
  have m: "map Blk [1..<nat 4] = [Blk 1, Blk 2, Blk 3]" by (simp add: upt_rec)
  show "make_block_pool 4 True 2 False False None = Inr pool4" "enable_caching pool4 = True" using p e by simp_all
  obtain q where q: "get_new_blocks 2 p = Inr ([Blk 1, Blk 2], q)" "same_frame p q" "pool_at q [Blk 3] {}"
    "\<forall>b \<in> set [Blk 1, Blk 2]. block_hash (heap q b) = None"
    "\<forall>c. c \<notin> set [Blk 1, Blk 2] \<longrightarrow> payload (heap q) c = payload (heap p) c"
    using get_new_blocks_spec [OF p(2), of 2] p(4) unfolding m by auto
  have eq: "pool4_used = q" using q(1) by (simp add: e pool4_used_def)
  then show "get_new_blocks 2 pool4 = Inr ([Blk 1, Blk 2], pool4_used)" "pool_at pool4_used [Blk 3] {}"
    using q by (simp_all add: e)
  have "blocks p = [Blk 0, Blk 1, Blk 2, Blk 3]" "null_block p = Blk 0"
    using pool_atD(4,5) [OF p(2)] p(3) by (simp_all add: upt_rec)
  then show "blocks pool4_used = [Blk 0, Blk 1, Blk 2, Blk 3]" "null_block pool4_used = Blk 0"
    "hash_block_size pool4_used = 2" "enable_kv_cache_events pool4_used = False"
    using q(2) p by (simp_all add: eq same_frame_def)
  show "block_hash (heap pool4_used b) = None" if "b \<in> set (blocks pool4_used)" for b
  proof -
    have "b \<in> set (blocks p)" using that q(2) by (simp add: eq same_frame_def)
    then show ?thesis using q(4,5) p(7) by (cases "b \<in> set [Blk 1, Blk 2]") (auto simp: eq payload_def)
  qed
qed

definition pool4_refs :: "node \<Rightarrow> nat" where
  "pool4_refs b = (if b = Blk 1 \<or> b = Blk 2 then 1 else 0)"

lemma pool4_run: "pool_run pool4 (\<lambda>_. 0)" "pool_run pool4_used pool4_refs"
proof -
  show r: "pool_run pool4 (\<lambda>_. 0)" by (rule pool_run.init [OF pool4_eval(1)])
  have e: "pool4_refs = (\<lambda>b. 0 + count_list [Blk 1, Blk 2] b)" by (rule ext) (auto simp: pool4_refs_def)
  show "pool_run pool4_used pool4_refs" unfolding e by (rule pool_run.alloc [OF r _ pool4_eval(2)]) simp
qed

lemma distinct_singleton_list: "distinct xs \<Longrightarrow> set xs = {x} \<Longrightarrow> xs = [x]"
  by (cases xs; cases "tl xs") auto

theorem pool_refcount_exact_witness:
  "ref_cnt (heap pool4_used (Blk 1)) = 1 \<and> ref_cnt (heap pool4_used (Blk 3)) = 0 \<and>
     get_all_free_blocks (free_block_queue pool4_used) = Some (Inr [Blk 3])"
proof -
  note W = pool_refcount_exact [OF pool4_run(2), unfolded pool4_eval]
  from W obtain xs where x: "get_all_free_blocks (free_block_queue pool4_used) = Some (Inr xs)" "distinct xs"
    "set xs = {b \<in> set [Blk 0, Blk 1, Blk 2, Blk 3]. b \<noteq> Blk 0 \<and> pool4_refs b = 0}"
    by blast
  have "set xs = {Blk 3}" unfolding x(3) by (auto simp: pool4_refs_def)
  then have "xs = [Blk 3]" by (rule distinct_singleton_list [OF x(2)])
  with W x(1) show ?thesis by (simp add: pool4_refs_def)
qed

text \<open>
  C5. Allocation is safe. In every run, a request for \<open>n\<close> blocks succeeds exactly if that many are
  free and raises ValueError otherwise. On success it returns \<open>n\<close> distinct non-null blocks on which
  nobody holds a reference, each then with one reference and, with caching on, no hash; no other
  block changes its id, reference count or hash.
\<close>

theorem get_new_blocks_safe:
  assumes "pool_run p H" "0 \<le> n"
  shows "case get_new_blocks n p of
     Inl e \<Rightarrow> e = ValueError ''Cannot get free blocks from the pool'' \<and> get_num_free_blocks p < n
   | Inr (bs, p') \<Rightarrow> n \<le> get_num_free_blocks p \<and> int (length bs) = n \<and> distinct bs \<and>
       (\<forall>b \<in> set bs. b \<in> set (blocks p) \<and> b \<noteq> null_block p \<and> H b = 0 \<and>
          ref_cnt (heap p' b) = 1 \<and> (enable_caching p \<longrightarrow> block_hash (heap p' b) = None)) \<and>
       (\<forall>c. c \<notin> set bs \<longrightarrow> payload (heap p') c = payload (heap p) c) \<and>
       get_num_free_blocks p' = get_num_free_blocks p - n"
proof -
  obtain xs where x: "pool_at p xs {}" "distinct xs"
    "set xs = {b \<in> set (blocks p). b \<noteq> null_block p \<and> H b = 0}"
    using pool_run_free_list [OF assms(1)] by blast
  have num: "get_num_free_blocks p = int (length xs)"
    using rep_num pool_atD(1) [OF x(1)] by (simp add: get_num_free_blocks_def)
  show ?thesis
  proof (cases "n \<le> int (length xs)")
    case False
    then show ?thesis using get_new_blocks_error [OF x(1)] num by simp
  next
    case True
    from get_new_blocks_spec [OF x(1) assms(2) this] obtain p' where
      p': "get_new_blocks n p = Inr (take (nat n) xs, p')" "pool_at p' (drop (nat n) xs) {}"
      "\<forall>b \<in> set (take (nat n) xs). ref_cnt (heap p' b) = 1 \<and> (enable_caching p \<longrightarrow> block_hash (heap p' b) = None)"
      "\<forall>c. c \<notin> set (take (nat n) xs) \<longrightarrow> payload (heap p') c = payload (heap p) c"
      by blast
    have "get_num_free_blocks p' = int (length (drop (nat n) xs))"
      using rep_num [OF pool_atD(1) [OF p'(2)]] by (simp add: get_num_free_blocks_def)
    then show ?thesis using True assms(2) p' x(2,3) num by (auto dest: in_set_takeD)
  qed
qed

theorem get_new_blocks_safe_witness:
  "get_new_blocks 2 pool4 = Inr ([Blk 1, Blk 2], pool4_used) \<and>
     ref_cnt (heap pool4_used (Blk 1)) = 1 \<and> block_hash (heap pool4_used (Blk 2)) = None \<and>
     get_num_free_blocks pool4_used = get_num_free_blocks pool4 - 2"
  using get_new_blocks_safe [OF pool4_run(1), of 2] unfolding pool4_eval by auto

text \<open>
  C12. Freeing is total and keeps eviction order. In every run, freeing blocks the clients hold
  (each non-null block at most once per call) never raises. The blocks whose last reference was
  given up join the end of the free queue in the order given, so blocks freed earlier are reused
  earlier; every cached hash survives, so a freed block can still be hit.
\<close>

theorem free_blocks_appends_in_order:
  assumes "pool_run p H" "set bs \<subseteq> set (blocks p)"
    "distinct (filter (\<lambda>b. b \<noteq> null_block p) bs)"
    "\<forall>b \<in> set bs. b \<noteq> null_block p \<longrightarrow> 0 < H b"
  shows "\<exists>p' xs. free_blocks bs p = Inr p' \<and>
     get_all_free_blocks (free_block_queue p) = Some (Inr xs) \<and>
     get_all_free_blocks (free_block_queue p') =
       Some (Inr (xs @ filter (\<lambda>b. b \<noteq> null_block p \<and> H b = 1) bs)) \<and>
     (\<forall>b. block_hash (heap p' b) = block_hash (heap p b)) \<and>
     cached_block_hash_to_block p' = cached_block_hash_to_block p"
proof -
  obtain xs where x: "pool_at p xs {}" "held p H" using pool_run_at [OF assms(1)] by blast
  have r: "\<forall>b \<in> set bs. b \<noteq> null_block p \<longrightarrow> 1 \<le> ref_cnt (heap p b)"
    using assms(2,4) x(2) by (fastforce simp: held_def)
  have f: "filter (\<lambda>b. b \<noteq> null_block p \<and> ref_cnt (heap p b) = 1) bs =
      filter (\<lambda>b. b \<noteq> null_block p \<and> H b = 1) bs"
    using x(2) assms(2) by (intro filter_cong) (auto simp: held_def)
  from free_blocks_spec [OF x(1) assms(2,3) r] obtain p' where p': "free_blocks bs p = Inr p'"
    "pool_at p' (xs @ filter (\<lambda>b. b \<noteq> null_block p \<and> H b = 1) bs) {}"
    "refs_by (\<lambda>c. - int (count_list bs c)) p p'"
    unfolding f by blast
  then show ?thesis
    using rep_get_all [OF pool_atD(1) [OF x(1)]] rep_get_all [OF pool_atD(1) [OF p'(2)]]
    by (auto simp: refs_by_def)
qed

theorem free_blocks_appends_in_order_witness:
  "\<exists>p'. free_blocks [Blk 2, Blk 0, Blk 1] pool4_used = Inr p' \<and>
     get_all_free_blocks (free_block_queue p') = Some (Inr [Blk 3, Blk 2, Blk 1])"
  using free_blocks_appends_in_order [OF pool4_run(2), of "[Blk 2, Blk 0, Blk 1]"]
    rep_get_all [OF pool_atD(1) [OF pool4_free]]
  by (auto simp: pool4_eval pool4_refs_def)

text \<open>
  C8. Prefix-cache lookup is sound and complete. In every run, for valid group ids, a lookup never
  raises. It returns one block per group, in the order of the groups, none of them the null block,
  each carrying exactly the looked-up hash and that group; it reports a miss only if some group
  has no block with that hash.
\<close>

theorem cached_lookup_exact:
  assumes "pool_run p H" "\<forall>g \<in> set gs. 0 \<le> g \<and> g < 2 ^ 32"
  shows "\<exists>r. get_cached_block bh gs p = Inr r \<and>
    (case r of
       None \<Rightarrow> \<exists>g \<in> set gs. \<nexists>b key. b \<in> set (blocks p) \<and> block_hash (heap p b) = Some key \<and>
          make_block_hash_with_group_id bh g = Inr key
     | Some bs \<Rightarrow> list_all2 (\<lambda>g b. b \<in> set (blocks p) \<and> b \<noteq> null_block p \<and>
          (\<exists>key. block_hash (heap p b) = Some key \<and> get_block_hash key = bh \<and> get_group_id key = g)) gs bs)"
proof -
  obtain xs where x: "pool_at p xs {}" using pool_run_at [OF assms(1)] by blast
  have k: "get_block_hash key = bh \<and> get_group_id key = g" if "make_block_hash_with_group_id bh g = Inr key" for g key
    using that by (rule make_key_parts)
  obtain r where r: "get_cached_block bh gs p = Inr r" "case r of
       None \<Rightarrow> \<exists>g \<in> set gs. \<forall>b \<in> set (blocks p). \<forall>key. make_block_hash_with_group_id bh g = Inr key \<longrightarrow>
          block_hash (heap p b) \<noteq> Some key
     | Some bs \<Rightarrow> list_all2 (\<lambda>g b. b \<in> set (blocks p) \<and> b \<noteq> null_block p \<and>
          (\<exists>key. make_block_hash_with_group_id bh g = Inr key \<and> block_hash (heap p b) = Some key)) gs bs"
    using get_cached_block_spec [OF x assms(2)] by blast
  show ?thesis
  proof (cases r)
    case None
    then show ?thesis using r by auto
  next
    case (Some bs)
    with r(2) have "list_all2 (\<lambda>g b. b \<in> set (blocks p) \<and> b \<noteq> null_block p \<and>
          (\<exists>key. block_hash (heap p b) = Some key \<and> get_block_hash key = bh \<and> get_group_id key = g)) gs bs"
      using k by (auto elim!: list_all2_mono)
    with Some r(1) show ?thesis by auto
  qed
qed

theorem cached_lookup_exact_witness: "get_cached_block [9] [0] pool4_used = Inr None"
proof -
  have "\<forall>g \<in> set [0::int]. 0 \<le> g \<and> g < 2 ^ 32" by simp
  note W = cached_lookup_exact [OF pool4_run(2) this, of "[9]"]
  show ?thesis
  proof (rule ccontr)
    assume n: "get_cached_block [9] [0] pool4_used \<noteq> Inr None"
    obtain r where r: "get_cached_block [9] [0] pool4_used = Inr r" using W by blast
    with n obtain bs where "r = Some bs" by (cases r) auto
    with W r obtain b key where "b \<in> set (blocks pool4_used)" "block_hash (heap pool4_used b) = Some key"
      by (auto simp: list_all2_Cons1 simp del: get_cached_block.simps)
    then show False by (simp add: pool4_hash)
  qed
qed

lemma cache_loop_total:
  "pool_at p xs D \<Longrightarrow> \<forall>(i, b) \<in> set ibs. b \<in> set (blocks p) \<and> i < length hs \<and>
     (b \<noteq> null_block p \<longrightarrow> block_hash (heap p b) = None) \<Longrightarrow>
   distinct (filter (\<lambda>b. b \<noteq> null_block p) (map snd ibs)) \<Longrightarrow> 0 \<le> gid \<Longrightarrow> gid < 2 ^ 32 \<Longrightarrow>
   \<exists>p' nh'. res_fold (cache_one_block hs gid) ibs (p, nh) = Inr (p', nh')"
proof (induction ibs arbitrary: p nh)
  case Nil
  then show ?case by simp
next
  case (Cons ib ibs)
  obtain i b where ib: "ib = (i, b)" by (cases ib)
  have b: "b \<in> set (blocks p)" "i < length hs" "b \<noteq> null_block p \<longrightarrow> block_hash (heap p b) = None"
    using Cons.prems(2) ib by auto
  obtain key where k: "make_block_hash_with_group_id (hs ! i) gid = Inr key"
    using Cons.prems(4,5) by (auto simp: make_block_hash_with_group_id_def to_bytes4_def)
  obtain p1 nh1 where s: "cache_one_block hs gid (i, b) (p, nh) = Inr (p1, nh1)"
    using b k pool_at_null [OF Cons.prems(1) b(1)]
    by (cases "b = null_block p") (auto simp: cache_one_block_def Let_def)
  note one = cache_one_block_spec [OF Cons.prems(1) b(1) s]
  have f: "blocks p1 = blocks p" "null_block p1 = null_block p" using one by (simp_all add: same_refs_def same_frame_def)
  have n: "c \<noteq> b" if "(j, c) \<in> set ibs" "c \<noteq> null_block p" for j c
    using that Cons.prems(3) ib by force
  have "\<exists>p' nh'. res_fold (cache_one_block hs gid) ibs (p1, nh1) = Inr (p', nh')"
  proof (rule Cons.IH)
    show "pool_at p1 xs D" using one by blast
    show "\<forall>(i, b) \<in> set ibs. b \<in> set (blocks p1) \<and> i < length hs \<and>
       (b \<noteq> null_block p1 \<longrightarrow> block_hash (heap p1 b) = None)"
      using Cons.prems(2) one f n by (simp add: ib case_prod_beta) (metis prod.collapse)
  qed (use Cons.prems f in \<open>auto split: if_splits\<close>)
  then show ?case using s by (simp add: ib)
qed

lemma enumerate_slice:
  assumes "(i, b) \<in> set (enumerate 0 (py_slice bs nc nf))"
  shows "b \<in> set (py_slice bs nc nf)" "b \<in> set bs" "i < length (py_slice bs nc nf)"
proof -
  show b: "b \<in> set (py_slice bs nc nf)" and "i < length (py_slice bs nc nf)"
    using assms by (auto simp: in_set_enumerate_eq)
  from b show "b \<in> set bs" by (auto simp: py_slice_def dest: in_set_takeD in_set_dropD)
qed

lemma cache_full_blocks_total:
  assumes p: "pool_at p xs {}" and e: "\<not> enable_kv_cache_events p" and bs: "set bs \<subseteq> set (blocks p)"
    and n: "0 \<le> nc" "nf \<le> int (length (block_hashes r))" and g: "0 \<le> gid" "gid < 2 ^ 32"
    and d: "distinct (filter (\<lambda>b. b \<noteq> null_block p) (py_slice bs nc nf))"
    and u: "\<forall>b \<in> set (py_slice bs nc nf). b \<noteq> null_block p \<longrightarrow> block_hash (heap p b) = None"
  shows "\<exists>p'. cache_full_blocks sha r bs nc nf (hash_block_size p) gid p = Inr (r, p')"
proof (cases "nf \<le> nc")
  case True
  then show ?thesis by (simp add: cache_full_blocks_def)
next
  case False
  let ?hs = "drop (nat nc) (block_hashes r)" and ?ibs = "enumerate 0 (py_slice bs nc nf)"
  have len: "i < length ?hs" if "i < length (py_slice bs nc nf)" for i
    using that n by (auto simp: py_slice_def)
  have "\<exists>p1 nh. res_fold (cache_one_block ?hs gid) ?ibs (p, []) = Inr (p1, nh)"
  proof (rule cache_loop_total [OF p])
    show "\<forall>(i, b) \<in> set ?ibs. b \<in> set (blocks p) \<and> i < length ?hs \<and>
        (b \<noteq> null_block p \<longrightarrow> block_hash (heap p b) = None)"
      using enumerate_slice [of _ _ bs nc nf] bs u len by blast
  qed (use d g in simp_all)
  then obtain p1 nh where L: "res_fold (cache_one_block ?hs gid) ?ibs (p, []) = Inr (p1, nh)" by blast
  have "\<forall>(i, b) \<in> set ?ibs. b \<in> set (blocks p)" using enumerate_slice(2) [of _ _ bs nc nf] bs by blast
  from cache_loop_spec [OF L p this] have "\<not> enable_kv_cache_events p1"
    using e by (simp add: same_refs_def same_frame_def)
  then show ?thesis using L False n(2) by (simp add: cache_full_blocks_def group_hashes_def)
qed

text \<open>
  C11. Caching makes blocks findable. In every run of a pool without an event consumer, caching the
  full blocks \<open>nc..nf-1\<close> of a request at the hash granularity returns normally when the request has
  that many hashes and the non-null blocks are distinct and not yet cached. Afterwards the hash of
  each of these blocks hits, the hit carries the same cache key as the request's own block, and
  blocks that were cached before stay cached.
\<close>

theorem cache_full_blocks_findable:
  assumes "pool_run p H" "\<not> enable_kv_cache_events p" "set bs \<subseteq> set (blocks p)"
    "0 \<le> nc" "nf \<le> int (length (block_hashes r))" "0 \<le> gid" "gid < 2 ^ 32"
    "distinct (filter (\<lambda>b. b \<noteq> null_block p) (py_slice bs nc nf))"
    "\<forall>b \<in> set (py_slice bs nc nf). b \<noteq> null_block p \<longrightarrow> block_hash (heap p b) = None"
  shows "\<exists>p'. cache_full_blocks sha r bs nc nf (hash_block_size p) gid p = Inr (r, p') \<and> pool_run p' H \<and>
     (\<forall>b. block_hash (heap p b) \<noteq> None \<longrightarrow> block_hash (heap p' b) = block_hash (heap p b)) \<and>
     (\<forall>i. nat nc \<le> i \<and> i < nat nf \<and> i < length bs \<and> bs ! i \<noteq> null_block p \<longrightarrow>
        (\<exists>b key. get_cached_block (block_hashes r ! i) [gid] p' = Inr (Some [b]) \<and>
           block_hash (heap p' b) = Some key \<and> block_hash (heap p' (bs ! i)) = Some key \<and>
           get_block_hash key = block_hashes r ! i \<and> get_group_id key = gid))"
proof -
  obtain xs where p: "pool_at p xs {}" using pool_run_at [OF assms(1)] by blast
  obtain q where q: "cache_full_blocks sha r bs nc nf (hash_block_size p) gid p = Inr (r, q)"
    using cache_full_blocks_total [OF p assms(2-9)] by blast
  have run: "pool_run q H" by (rule pool_run.cache [OF assms(1,3,4) q])
  note S = cache_full_blocks_spec [OF q p assms(3,4)]
  have "\<exists>b key. get_cached_block (block_hashes r ! i) [gid] q = Inr (Some [b]) \<and>
       block_hash (heap q b) = Some key \<and> block_hash (heap q (bs ! i)) = Some key \<and>
       get_block_hash key = block_hashes r ! i \<and> get_group_id key = gid"
    if i: "nat nc \<le> i" "i < nat nf" "i < length bs" "bs ! i \<noteq> null_block p" for i
  proof -
    obtain key where k: "make_block_hash_with_group_id (block_hashes r ! i) gid = Inr key"
      "block_hash (heap q (bs ! i)) = Some key" using S i by blast
    have m: "bs ! i \<in> set (blocks q)" using S i(3) assms(3) by (auto simp: same_refs_def same_frame_def)
    have "pool_at q xs {}" using S by blast
    from get_cached_block_spec [OF this, of "[gid]" "block_hashes r ! i"] k m assms(6,7)
    show ?thesis using make_key_parts [OF k(1)]
      by (auto split: option.splits simp: list_all2_Cons1)
  qed
  then show ?thesis using q run S by blast
qed

definition req4 :: Request where
  "req4 = (text_request [] [5, 6, 7])\<lparr>block_hashes := [[9]]\<rparr>"

theorem cache_full_blocks_findable_witness:
  "\<exists>p'. cache_full_blocks (\<lambda>_. []) req4 [Blk 1, Blk 2] 0 1 2 0 pool4_used = Inr (req4, p') \<and>
     (\<exists>b key. get_cached_block [9] [0] p' = Inr (Some [b]) \<and> block_hash (heap p' b) = Some key \<and>
        block_hash (heap p' (Blk 1)) = Some key)"
proof -
  have h: "block_hashes req4 = [[9]]" by (simp add: req4_def)
  have "py_slice [Blk 1, Blk 2] 0 1 = [Blk 1]" by (simp add: py_slice_def)
  then obtain p' where "cache_full_blocks (\<lambda>_. []) req4 [Blk 1, Blk 2] 0 1 2 0 pool4_used = Inr (req4, p')"
    "\<forall>i. nat 0 \<le> i \<and> i < nat 1 \<and> i < length [Blk 1, Blk 2] \<and> [Blk 1, Blk 2] ! i \<noteq> Blk 0 \<longrightarrow>
        (\<exists>b key. get_cached_block (block_hashes req4 ! i) [0] p' = Inr (Some [b]) \<and>
           block_hash (heap p' b) = Some key \<and> block_hash (heap p' ([Blk 1, Blk 2] ! i)) = Some key)"
    using cache_full_blocks_findable [OF pool4_run(2), of "[Blk 1, Blk 2]" 0 1 req4 0 "\<lambda>_. []"] pool4_hash [of "Blk 1"]
    unfolding pool4_eval h by auto
  then show ?thesis by (auto simp: h dest!: spec [of _ 0])
qed

text \<open>
  C13. Resetting the prefix cache succeeds exactly if no client holds a reference, and then no hash
  can hit any more; otherwise the pool is unchanged.
\<close>

theorem reset_prefix_cache_exact:
  assumes "pool_run p H"
  shows "\<exists>ok p'. reset_prefix_cache p = (ok, p') \<and>
     ok = (\<forall>b \<in> set (blocks p). b \<noteq> null_block p \<longrightarrow> H b = 0) \<and>
     (if ok then \<forall>bh g gs. 0 \<le> g \<and> g < 2 ^ 32 \<longrightarrow> get_cached_block bh (g # gs) p' = Inr None else p' = p)"
proof -
  obtain xs where x: "pool_at p xs {}" "set xs = {b \<in> set (blocks p). b \<noteq> null_block p \<and> H b = 0}"
    using pool_run_free_list [OF assms] by blast
  have iff: "set xs = set (blocks p) - {null_block p} \<longleftrightarrow> (\<forall>b \<in> set (blocks p). b \<noteq> null_block p \<longrightarrow> H b = 0)"
    unfolding x(2) by auto
  obtain p' where p': "reset_prefix_cache p = (set xs = set (blocks p) - {null_block p}, p')"
    "if set xs = set (blocks p) - {null_block p} then cached_block_hash_to_block p' = [] else p' = p"
    using reset_spec [OF x(1)] by metis
  have "get_cached_block bh (g # gs) p' = Inr None"
    if "cached_block_hash_to_block p' = []" "0 \<le> g \<and> g < 2 ^ 32" for bh g gs
    using that by (simp add: get_one_block_def make_block_hash_with_group_id_def to_bytes4_def)
  then show ?thesis using p' iff by (auto split: if_splits)
qed

theorem reset_prefix_cache_exact_witness:
  "fst (reset_prefix_cache pool4_used) = False \<and> fst (reset_prefix_cache pool4) = True"
  using reset_prefix_cache_exact [OF pool4_run(2)] reset_prefix_cache_exact [OF pool4_run(1)]
  by (auto simp: pool4_eval pool4_refs_def)

end
