(* ===== verification/Kv_Manager.thy ===== *)
theory Kv_Manager
  imports Pool_Safety
begin

text \<open>
  The KV cache manager (\<^verbatim>\<open>vllm/v1/core/kv_cache_manager.py\<close>), the coordinators without prefix caching and with
  one group (\<^verbatim>\<open>kv_cache_coordinator.py\<close>) and the managers of one attention type for full, sliding window and
  chunked local attention (\<^verbatim>\<open>single_type_kv_cache_manager.py\<close>) over the shared block pool. Block sizes, windows
  and chunk sizes are positive, so that no division fails; \<^verbatim>\<open>new_step_starts\<close> does nothing for these managers.
\<close>

section \<open>The manager of one attention type\<close>

text \<open>
  The attention types with their window; the MLA variant of the sliding window has the same manager.
  Only the first two record new block ids.
\<close>

datatype attn_kind = FullAttention | TQFullAttention | MLAAttention | SlidingWindow int | ChunkedLocal int

record KVCacheSpec =
  spec_kind :: attn_kind
  spec_block_size :: int

record st_manager =
  st_spec :: KVCacheSpec
  st_block_size :: int
  st_caching :: bool
  st_cap :: "int option"
  new_block_ids :: "int list"
  req_to_blocks :: "(string, node list) odict"
  num_cached_block :: "(string, int) odict"
  st_group :: int

definition cdiv_int :: "int \<Rightarrow> int \<Rightarrow> int" where
  "cdiv_int a b = - (a div - b)"

definition world_block_size :: "KVCacheSpec \<Rightarrow> int \<Rightarrow> int \<Rightarrow> int" where
  "world_block_size spec dcp pcp = (if 1 < dcp * pcp then spec_block_size spec * (dcp * pcp) else spec_block_size spec)"

definition make_st_manager :: "KVCacheSpec \<Rightarrow> bool \<Rightarrow> int \<Rightarrow> int \<Rightarrow> int \<Rightarrow> int option \<Rightarrow> st_manager" where
  "make_st_manager spec caching gid dcp pcp cap =
     \<lparr>st_spec = spec, st_block_size = world_block_size spec dcp pcp, st_caching = caching, st_cap = cap,
      new_block_ids = [], req_to_blocks = [], num_cached_block = [], st_group = gid\<rparr>"

definition blocks_of :: "st_manager \<Rightarrow> string \<Rightarrow> node list" where
  "blocks_of m rid = (case od_get (req_to_blocks m) rid of None \<Rightarrow> [] | Some bs \<Rightarrow> bs)"

text \<open>\<^verbatim>\<open>get_num_skipped_tokens\<close> of the three managers: nothing is skipped for full attention.\<close>

definition window_skipped_tokens :: "int \<Rightarrow> int \<Rightarrow> int" where
  "window_skipped_tokens w n = max 0 (n - w + 1)"

definition chunk_skipped_tokens :: "int \<Rightarrow> int \<Rightarrow> int" where
  "chunk_skipped_tokens c n = n div c * c"

definition get_num_skipped_tokens :: "st_manager \<Rightarrow> int \<Rightarrow> int" where
  "get_num_skipped_tokens m n =
     (case spec_kind (st_spec m) of
        SlidingWindow w \<Rightarrow> window_skipped_tokens w n
      | ChunkedLocal c \<Rightarrow> chunk_skipped_tokens c n
      | _ \<Rightarrow> 0)"

definition get_num_evictable_blocks :: "BlockPool \<Rightarrow> node list \<Rightarrow> int" where
  "get_num_evictable_blocks p bs = int (length (filter (\<lambda>b. ref_cnt (heap p b) = 0 \<and> \<not> is_null (heap p b)) bs))"

definition get_num_blocks_to_allocate ::
  "string \<Rightarrow> int \<Rightarrow> node list \<Rightarrow> int \<Rightarrow> bool \<Rightarrow> BlockPool \<Rightarrow> st_manager \<Rightarrow> int res" where
  "get_num_blocks_to_allocate rid num_tokens computed total_computed apply_cap p m =
     (let required = cdiv_int num_tokens (st_block_size m);
          num_required = (case st_cap m of Some c \<Rightarrow> if apply_cap then min required c else required | None \<Rightarrow> required);
          num_req = int (length (blocks_of m rid)) in
      if od_get (num_cached_block m) rid \<noteq> None then
        if computed \<noteq> [] then Inl AssertionError else Inr (max (num_required - num_req) 0)
      else
        let num_skipped = get_num_skipped_tokens m total_computed div st_block_size m;
            num_local = int (length computed) + num_req;
            num_new = max (num_required - max num_skipped num_local) 0;
            skipped_new = max 0 (num_skipped - num_req)
        in Inr (num_new + get_num_evictable_blocks p (drop (nat skipped_new) computed)))"

definition records_ids :: "st_manager \<Rightarrow> bool" where
  "records_ids m = (spec_kind (st_spec m) = FullAttention \<or> spec_kind (st_spec m) = TQFullAttention)"

definition add_blocks :: "string \<Rightarrow> node list \<Rightarrow> BlockPool \<Rightarrow> st_manager \<Rightarrow> st_manager" where
  "add_blocks rid bs p m =
     m\<lparr>req_to_blocks := od_set rid (blocks_of m rid @ bs) (req_to_blocks m),
       new_block_ids := (if records_ids m then new_block_ids m @ map (\<lambda>b. block_id (heap p b)) bs else new_block_ids m)\<rparr>"

definition allocate_new_computed_blocks ::
  "string \<Rightarrow> node list \<Rightarrow> int \<Rightarrow> int \<Rightarrow> BlockPool \<Rightarrow> st_manager \<Rightarrow> (BlockPool \<times> st_manager) res" where
  "allocate_new_computed_blocks rid computed num_local num_external p m =
     (if od_get (num_cached_block m) rid \<noteq> None then
        if computed \<noteq> [] then Inl AssertionError else Inr (p, m)
      else if blocks_of m rid \<noteq> [] then Inl AssertionError
      else
        let total_computed = num_local + num_external;
            skipped_tokens = get_num_skipped_tokens m total_computed;
            skipped = skipped_tokens div st_block_size m;
            computed' = (if 0 < skipped then drop (nat skipped) computed else computed);
            external = (if 0 < skipped then min (total_computed - skipped_tokens) num_external else num_external) in
        res_bind (if st_caching m then touch computed' p
                  else if computed' \<noteq> [] then Inl AssertionError else Inr p) (\<lambda>p1.
        let req_blocks = replicate (nat skipped) (null_block p) @ computed';
            m1 = m\<lparr>req_to_blocks := od_set rid req_blocks (req_to_blocks m),
                   num_cached_block := od_set rid (int (length req_blocks)) (num_cached_block m)\<rparr> in
        if 0 < external then
          res_bind (get_new_blocks (cdiv_int total_computed (st_block_size m) - int (length req_blocks)) p1)
            (\<lambda>(bs, p2). Inr (p2, add_blocks rid bs p2 m1))
        else Inr (p1, m1)))"

definition allocate_new_blocks ::
  "string \<Rightarrow> int \<Rightarrow> BlockPool \<Rightarrow> st_manager \<Rightarrow> (node list \<times> BlockPool \<times> st_manager) res" where
  "allocate_new_blocks rid num_tokens p m =
     (let num_new = cdiv_int num_tokens (st_block_size m) - int (length (blocks_of m rid)) in
      if num_new \<le> 0 then Inr ([], p, m\<lparr>req_to_blocks := od_set rid (blocks_of m rid) (req_to_blocks m)\<rparr>)
      else res_bind (get_new_blocks num_new p) (\<lambda>(bs, p'). Inr (bs, p', add_blocks rid bs p' m)))"

definition st_take_new_block_ids :: "st_manager \<Rightarrow> int list \<times> st_manager" where
  "st_take_new_block_ids m = (new_block_ids m, m\<lparr>new_block_ids := []\<rparr>)"

definition st_cache_blocks ::
  "(int list list \<Rightarrow> bytes) \<Rightarrow> int \<Rightarrow> Request \<Rightarrow> BlockPool \<Rightarrow> st_manager \<Rightarrow> (Request \<times> BlockPool \<times> st_manager) res" where
  "st_cache_blocks sha num_tokens r p m =
     (let rid = request_id r;
          num_cached = (case od_get (num_cached_block m) rid of None \<Rightarrow> 0 | Some n \<Rightarrow> n);
          num_full = num_tokens div st_block_size m in
      if num_full \<le> num_cached then Inr (r, p, m)
      else
        res_bind (cache_full_blocks sha r (blocks_of m rid) num_cached num_full (st_block_size m) (st_group m) p)
          (\<lambda>(r', p'). Inr (r', p', m\<lparr>req_to_blocks := od_set rid (blocks_of m rid) (req_to_blocks m),
                                     num_cached_block := od_set rid num_full (num_cached_block m)\<rparr>)))"

definition st_free :: "string \<Rightarrow> BlockPool \<Rightarrow> st_manager \<Rightarrow> (BlockPool \<times> st_manager) res" where
  "st_free rid p m =
     res_bind (free_blocks (rev (blocks_of m rid)) p) (\<lambda>p'.
       Inr (p', m\<lparr>req_to_blocks := od_del rid (req_to_blocks m), num_cached_block := od_del rid (num_cached_block m)\<rparr>))"

text \<open>The loop that replaces blocks by the null block from index \<open>n - 1\<close> down to the first null block.\<close>

fun skip_loop :: "node \<Rightarrow> nat \<Rightarrow> node list \<Rightarrow> node list \<Rightarrow> node list \<times> node list" where
  "skip_loop null 0 bs removed = (bs, removed)"
| "skip_loop null (Suc i) bs removed =
     (if bs ! i = null then (bs, removed) else skip_loop null i (bs[i := null]) (removed @ [bs ! i]))"

definition st_remove_skipped_blocks :: "string \<Rightarrow> int \<Rightarrow> BlockPool \<Rightarrow> st_manager \<Rightarrow> (BlockPool \<times> st_manager) res" where
  "st_remove_skipped_blocks rid total_computed p m =
     (let skipped_tokens = get_num_skipped_tokens m total_computed in
      if skipped_tokens \<le> 0 then Inr (p, m)
      else
        let bs = blocks_of m rid;
            n = min (skipped_tokens div st_block_size m) (int (length bs));
            (bs', removed) = skip_loop (null_block p) (nat n) bs []
        in res_bind (free_blocks removed p) (\<lambda>p'.
             Inr (p', m\<lparr>req_to_blocks := od_set rid bs' (req_to_blocks m)\<rparr>)))"

section \<open>Finding the longest cached prefix\<close>

text \<open>A lookup counts as a hit when its result is true: found, and for at least one group.\<close>

definition lookup :: "BlockPool \<Rightarrow> int list \<Rightarrow> bytes \<Rightarrow> node list option res" where
  "lookup p gs h = res_bind (get_cached_block h gs p) (\<lambda>r. Inr (if r = Some [] then None else r))"

fun extend_hits :: "BlockPool \<Rightarrow> int list \<Rightarrow> bytes list \<Rightarrow> node list list \<Rightarrow> node list list res" where
  "extend_hits p gs [] computed = Inr computed"
| "extend_hits p gs (h # hs) computed =
     res_bind (lookup p gs h) (\<lambda>r.
       case r of
         None \<Rightarrow> Inr computed
       | Some bs \<Rightarrow> extend_hits p gs hs (map2 (\<lambda>c b. c @ [b]) computed bs))"

text \<open>
  Popping until the length is aligned. All groups have equally many blocks, and no block is aligned, so at
  most as many pops as the first group has blocks are made.
\<close>

fun pop_align :: "int \<Rightarrow> int \<Rightarrow> nat \<Rightarrow> node list list \<Rightarrow> node list list" where
  "pop_align bs al 0 computed = computed"
| "pop_align bs al (Suc n) computed =
     (if bs \<noteq> al \<and> int (length (hd computed)) * bs mod al \<noteq> 0 then pop_align bs al n (map butlast computed) else computed)"

definition full_longest_hit ::
  "bytes list \<Rightarrow> int \<Rightarrow> int list \<Rightarrow> BlockPool \<Rightarrow> KVCacheSpec \<Rightarrow> bool \<Rightarrow> int \<Rightarrow> int \<Rightarrow> int \<Rightarrow> node list list res" where
  "full_longest_hit hashes max_length gs p spec use_eagle alignment dcp pcp =
     (let bs = world_block_size spec dcp pcp; n = max_length div bs in
      if n < 0 then Inl (ValueError ''Stop argument for islice() must be None or an integer: 0 <= x <= sys.maxsize.'')
      else res_bind (extend_hits p gs (take (nat n) hashes) (replicate (length gs) [])) (\<lambda>c.
        if c = [] then (if use_eagle \<or> bs \<noteq> alignment then Inl IndexError else Inr c)
        else
          let c1 = (if use_eagle \<and> hd c \<noteq> [] then map butlast c else c)
          in Inr (pop_align bs alignment (length (hd c1)) c1)))"

text \<open>The search of the sliding window manager from index \<open>i - 1\<close> down.\<close>

fun window_hits ::
  "BlockPool \<Rightarrow> int list \<Rightarrow> bytes list \<Rightarrow> int \<Rightarrow> int \<Rightarrow> bool \<Rightarrow> int \<Rightarrow> nat \<Rightarrow> node list list \<Rightarrow> nat \<Rightarrow> (node list list \<times> nat \<times> bool) res" where
  "window_hits p gs hashes bs al eagle need 0 computed contiguous = Inr (computed, contiguous, False)"
| "window_hits p gs hashes bs al eagle need (Suc i) computed contiguous =
     res_bind (py_nth hashes (int i)) (\<lambda>h.
     res_bind (lookup p gs h) (\<lambda>r.
       case r of
         None \<Rightarrow> window_hits p gs hashes bs al eagle need i computed 0
       | Some cached \<Rightarrow>
           if contiguous = 0 \<and> bs \<noteq> al \<and> (if eagle then int i else int i + 1) * bs mod al \<noteq> 0
           then window_hits p gs hashes bs al eagle need i computed contiguous
           else
             let computed' = map2 (\<lambda>c b. c[i := b]) computed cached; n = Suc contiguous
             in if need \<le> int n then Inr (map (take (i + n)) computed', n, True)
                else window_hits p gs hashes bs al eagle need i computed' n))"

definition window_longest_hit ::
  "bytes list \<Rightarrow> int \<Rightarrow> int list \<Rightarrow> BlockPool \<Rightarrow> KVCacheSpec \<Rightarrow> int \<Rightarrow> bool \<Rightarrow> int \<Rightarrow> int \<Rightarrow> int \<Rightarrow> node list list res" where
  "window_longest_hit hashes max_length gs p spec window use_eagle alignment dcp pcp =
     (if dcp \<noteq> 1 \<or> pcp \<noteq> 1 then Inl AssertionError
      else
        let bs = spec_block_size spec;
            need = cdiv_int (window - 1) bs + (if use_eagle then 1 else 0);
            n = nat (max_length div bs) in
        res_bind (window_hits p gs hashes bs alignment use_eagle need n (replicate (length gs) (replicate n (null_block p))) 0)
          (\<lambda>(c, contiguous, found).
            if c = [] then (if use_eagle \<or> \<not> found \<and> bs \<noteq> alignment then Inl IndexError else Inr c)
            else
              let c1 = (if found then c
                        else let c' = map (take contiguous) c in pop_align bs alignment (length (hd c')) c')
              in if use_eagle \<and> hd c1 \<noteq> []
                 then let c2 = map butlast c1 in Inr (pop_align bs alignment (length (hd c2)) c2)
                 else Inr c1))"

fun chunk_hits :: "BlockPool \<Rightarrow> int list \<Rightarrow> bytes list \<Rightarrow> nat list \<Rightarrow> node list list \<Rightarrow> node list list res" where
  "chunk_hits p gs hashes [] computed = Inr computed"
| "chunk_hits p gs hashes (i # is) computed =
     res_bind (py_nth hashes (int i)) (\<lambda>h.
     res_bind (lookup p gs h) (\<lambda>r.
       case r of
         None \<Rightarrow> Inr computed
       | Some bs \<Rightarrow> chunk_hits p gs hashes is (map2 (\<lambda>c b. c @ [b]) computed bs)))"

definition chunk_longest_hit ::
  "bytes list \<Rightarrow> int \<Rightarrow> int list \<Rightarrow> BlockPool \<Rightarrow> KVCacheSpec \<Rightarrow> int \<Rightarrow> bool \<Rightarrow> int \<Rightarrow> int \<Rightarrow> int \<Rightarrow> node list list res" where
  "chunk_longest_hit hashes max_length gs p spec chunk use_eagle alignment dcp pcp =
     (if use_eagle \<or> dcp \<noteq> 1 \<or> pcp \<noteq> 1 \<or> spec_block_size spec \<noteq> alignment then Inl AssertionError
      else
        let bs = spec_block_size spec;
            start = (if 0 < max_length then max_length div chunk * chunk else 0) div bs
        in chunk_hits p gs hashes [nat start..<nat (max_length div bs)]
             (replicate (length gs) (replicate (nat start) (null_block p))))"

definition st_find_longest_cache_hit ::
  "bytes list \<Rightarrow> int \<Rightarrow> int list \<Rightarrow> BlockPool \<Rightarrow> KVCacheSpec \<Rightarrow> bool \<Rightarrow> int \<Rightarrow> int \<Rightarrow> int \<Rightarrow> node list list res" where
  "st_find_longest_cache_hit hashes max_length gs p spec use_eagle alignment dcp pcp =
     (case spec_kind spec of
        SlidingWindow w \<Rightarrow> window_longest_hit hashes max_length gs p spec w use_eagle alignment dcp pcp
      | ChunkedLocal c \<Rightarrow> chunk_longest_hit hashes max_length gs p spec c use_eagle alignment dcp pcp
      | _ \<Rightarrow> full_longest_hit hashes max_length gs p spec use_eagle alignment dcp pcp)"

text \<open>Counting blocks that all requests share; subscripting the \<^verbatim>\<open>defaultdict\<close> enters the request.\<close>

definition st_common_prefix_blocks :: "string \<Rightarrow> BlockPool \<Rightarrow> st_manager \<Rightarrow> nat \<times> st_manager" where
  "st_common_prefix_blocks rid p m =
     (let d = od_set rid (blocks_of m rid) (req_to_blocks m) in
      case spec_kind (st_spec m) of
        SlidingWindow _ \<Rightarrow> (0, m)
      | ChunkedLocal _ \<Rightarrow> (0, m)
      | _ \<Rightarrow> (length (takeWhile (\<lambda>b. ref_cnt (heap p b) = int (length d)) (blocks_of m rid)), m\<lparr>req_to_blocks := d\<rparr>))"

text \<open>The bound on the blocks a request holds at a time, for the managers that give blocks back while it runs.\<close>

definition window_admission_blocks :: "int \<Rightarrow> int \<Rightarrow> int \<Rightarrow> int \<Rightarrow> int" where
  "window_admission_blocks block_size w max_batched max_len = cdiv_int (min (w - 1 + max_batched) max_len) block_size + 1"

definition chunk_admission_blocks :: "int \<Rightarrow> int \<Rightarrow> int \<Rightarrow> int \<Rightarrow> int" where
  "chunk_admission_blocks block_size c max_batched max_len = cdiv_int (min (c + max_batched) max_len) block_size"

definition max_admission_blocks :: "KVCacheSpec \<Rightarrow> int \<Rightarrow> int \<Rightarrow> int option" where
  "max_admission_blocks spec max_batched max_len =
     (case spec_kind spec of
        SlidingWindow w \<Rightarrow> Some (window_admission_blocks (spec_block_size spec) w max_batched max_len)
      | ChunkedLocal c \<Rightarrow> Some (chunk_admission_blocks (spec_block_size spec) c max_batched max_len)
      | _ \<Rightarrow> None)"

definition get_manager_for_kv_cache_spec :: "KVCacheSpec \<Rightarrow> int \<Rightarrow> int \<Rightarrow> bool \<Rightarrow> int \<Rightarrow> int \<Rightarrow> int \<Rightarrow> st_manager" where
  "get_manager_for_kv_cache_spec spec max_batched max_len caching gid dcp pcp =
     make_st_manager spec caching gid dcp pcp (max_admission_blocks spec max_batched max_len)"

section \<open>The coordinator\<close>

text \<open>A call to every manager in turn, with the state they share.\<close>

fun each_manager ::
  "(nat \<Rightarrow> 's \<Rightarrow> st_manager \<Rightarrow> ('o \<times> 's \<times> st_manager) res) \<Rightarrow> nat \<Rightarrow> st_manager list \<Rightarrow> 's \<Rightarrow> ('o list \<times> 's \<times> st_manager list) res" where
  "each_manager f i [] s = Inr ([], s, [])"
| "each_manager f i (m # ms) s =
     res_bind (f i s m) (\<lambda>(y, s1, m1).
     res_bind (each_manager f (Suc i) ms s1) (\<lambda>(ys, s2, ms2). Inr (y # ys, s2, m1 # ms2)))"

text \<open>\<open>co_unitary\<close> tells the coordinator with one group from the one without prefix caching.\<close>

record KVCacheCoordinator =
  co_pool :: BlockPool
  co_managers :: "st_manager list"
  co_eagle :: "nat list"
  co_unitary :: bool
  co_spec :: KVCacheSpec
  co_block_size :: int
  co_dcp :: int
  co_pcp :: int

record KVCacheConfig =
  kc_num_blocks :: int
  kc_groups :: "(KVCacheSpec \<times> bool) list"

definition make_coordinator ::
  "KVCacheConfig \<Rightarrow> int \<Rightarrow> int \<Rightarrow> bool \<Rightarrow> bool \<Rightarrow> bool \<Rightarrow> int \<Rightarrow> int \<Rightarrow> int \<Rightarrow> bool \<Rightarrow> metric_call list option \<Rightarrow> bool \<Rightarrow> KVCacheCoordinator res" where
  "make_coordinator cfg max_len max_batched eagle caching events dcp pcp hash_bs use_int metrics unitary =
     res_bind (make_block_pool (kc_num_blocks cfg) caching hash_bs events use_int metrics) (\<lambda>p.
       let groups = kc_groups cfg;
           flagged = filter (\<lambda>i. snd (groups ! i)) [0..<length groups] in
       Inr \<lparr>co_pool = p,
            co_managers = map (\<lambda>(i, g). get_manager_for_kv_cache_spec (fst g) max_batched max_len caching (int i) dcp pcp) (enumerate 0 groups),
            co_eagle = (if eagle \<and> flagged = [] then [0..<length groups] else flagged),
            co_unitary = unitary, co_spec = \<lparr>spec_kind = FullAttention, spec_block_size = 0\<rparr>, co_block_size = 0, co_dcp = dcp, co_pcp = pcp\<rparr>)"

definition make_unitary ::
  "KVCacheConfig \<Rightarrow> int \<Rightarrow> int \<Rightarrow> bool \<Rightarrow> bool \<Rightarrow> bool \<Rightarrow> int \<Rightarrow> int \<Rightarrow> int \<Rightarrow> bool \<Rightarrow> metric_call list option \<Rightarrow> KVCacheCoordinator res" where
  "make_unitary cfg max_len max_batched eagle caching events dcp pcp hash_bs use_int metrics =
     res_bind (make_coordinator cfg max_len max_batched eagle caching events dcp pcp hash_bs use_int metrics True) (\<lambda>co.
       case kc_groups cfg of
         [] \<Rightarrow> Inl IndexError
       | (spec, _) # rest \<Rightarrow>
           let b1 = (if 1 < dcp then spec_block_size spec * dcp else spec_block_size spec);
               b2 = (if 1 < pcp then b1 * pcp else b1)
           in if caching \<and> hash_bs \<noteq> b2 \<or> rest \<noteq> [] then Inl AssertionError
              else Inr (co\<lparr>co_spec := spec, co_block_size := b2\<rparr>))"

text \<open>The coordinator for several groups with prefix caching is not part of the model.\<close>

definition get_kv_cache_coordinator ::
  "KVCacheConfig \<Rightarrow> int \<Rightarrow> int \<Rightarrow> bool \<Rightarrow> bool \<Rightarrow> bool \<Rightarrow> int \<Rightarrow> int \<Rightarrow> int \<Rightarrow> bool \<Rightarrow> metric_call list option \<Rightarrow> KVCacheCoordinator option res" where
  "get_kv_cache_coordinator cfg max_len max_batched eagle caching events dcp pcp hash_bs use_int metrics =
     (if \<not> caching then
        res_bind (make_coordinator cfg max_len max_batched eagle False events dcp pcp hash_bs use_int metrics False) (\<lambda>c. Inr (Some c))
      else if length (kc_groups cfg) = 1 then
        res_bind (make_unitary cfg max_len max_batched eagle caching events dcp pcp hash_bs use_int metrics) (\<lambda>c. Inr (Some c))
      else Inr None)"

fun co_get_num_blocks_to_allocate ::
  "string \<Rightarrow> int \<Rightarrow> node list list \<Rightarrow> int \<Rightarrow> bool \<Rightarrow> BlockPool \<Rightarrow> nat \<Rightarrow> st_manager list \<Rightarrow> int res" where
  "co_get_num_blocks_to_allocate rid num_tokens computed total_computed cap p i [] = Inr 0"
| "co_get_num_blocks_to_allocate rid num_tokens computed total_computed cap p i (m # ms) =
     res_bind (py_nth computed (int i)) (\<lambda>c.
     res_bind (get_num_blocks_to_allocate rid num_tokens c total_computed cap p m) (\<lambda>k.
     res_bind (co_get_num_blocks_to_allocate rid num_tokens computed total_computed cap p (Suc i) ms) (\<lambda>n. Inr (k + n))))"

definition co_update :: "('o list \<times> BlockPool \<times> st_manager list) \<Rightarrow> KVCacheCoordinator \<Rightarrow> 'o list \<times> KVCacheCoordinator" where
  "co_update r co = (case r of (ys, p, ms) \<Rightarrow> (ys, co\<lparr>co_pool := p, co_managers := ms\<rparr>))"

definition co_run ::
  "(nat \<Rightarrow> BlockPool \<Rightarrow> st_manager \<Rightarrow> ('o \<times> BlockPool \<times> st_manager) res) \<Rightarrow> KVCacheCoordinator \<Rightarrow> ('o list \<times> KVCacheCoordinator) res" where
  "co_run f co = res_bind (each_manager f 0 (co_managers co) (co_pool co)) (\<lambda>r. Inr (co_update r co))"

definition co_allocate_new_computed_blocks ::
  "string \<Rightarrow> node list list \<Rightarrow> int \<Rightarrow> int \<Rightarrow> KVCacheCoordinator \<Rightarrow> KVCacheCoordinator res" where
  "co_allocate_new_computed_blocks rid computed num_local num_external co =
     res_bind (co_run (\<lambda>i p m. res_bind (py_nth computed (int i)) (\<lambda>c.
         res_bind (allocate_new_computed_blocks rid c num_local num_external p m) (\<lambda>(p', m'). Inr ((), p', m')))) co)
       (\<lambda>(_, co'). Inr co')"

definition co_allocate_new_blocks :: "string \<Rightarrow> int \<Rightarrow> KVCacheCoordinator \<Rightarrow> (node list list \<times> KVCacheCoordinator) res" where
  "co_allocate_new_blocks rid num_tokens co = co_run (\<lambda>_. allocate_new_blocks rid num_tokens) co"

definition co_cache_blocks ::
  "(int list list \<Rightarrow> bytes) \<Rightarrow> int \<Rightarrow> Request \<Rightarrow> KVCacheCoordinator \<Rightarrow> (Request \<times> KVCacheCoordinator) res" where
  "co_cache_blocks sha num_tokens r co =
     res_bind (each_manager (\<lambda>_ (r, p) m. res_bind (st_cache_blocks sha num_tokens r p m) (\<lambda>(r', p', m'). Inr ((), (r', p'), m')))
                0 (co_managers co) (r, co_pool co))
       (\<lambda>(_, (r', p'), ms). Inr (r', co\<lparr>co_pool := p', co_managers := ms\<rparr>))"

definition co_free :: "string \<Rightarrow> KVCacheCoordinator \<Rightarrow> KVCacheCoordinator res" where
  "co_free rid co =
     res_bind (co_run (\<lambda>_ p m. res_bind (st_free rid p m) (\<lambda>(p', m'). Inr ((), p', m'))) co) (\<lambda>(_, co'). Inr co')"

definition co_remove_skipped_blocks :: "string \<Rightarrow> int \<Rightarrow> KVCacheCoordinator \<Rightarrow> KVCacheCoordinator res" where
  "co_remove_skipped_blocks rid total_computed co =
     res_bind (co_run (\<lambda>_ p m. res_bind (st_remove_skipped_blocks rid total_computed p m) (\<lambda>(p', m'). Inr ((), p', m'))) co) (\<lambda>(_, co'). Inr co')"

definition co_find_longest_cache_hit :: "bytes list \<Rightarrow> int \<Rightarrow> KVCacheCoordinator \<Rightarrow> (node list list \<times> int) res" where
  "co_find_longest_cache_hit hashes max_length co =
     (if \<not> co_unitary co then Inr (map (\<lambda>_. []) (co_managers co), 0)
      else
        res_bind (st_find_longest_cache_hit hashes max_length [0] (co_pool co) (co_spec co) (0 \<in> set (co_eagle co))
                    (co_block_size co) (co_dcp co) (co_pcp co)) (\<lambda>hits.
        res_bind (py_nth hits 0) (\<lambda>h. Inr (hits, int (length h) * co_block_size co))))"

section \<open>The KV cache manager\<close>

text \<open>
  \<^verbatim>\<open>EmptyBlocks\<close> is the manager's shared object without blocks, which the code recognises by identity.
\<close>

datatype KVCacheBlocks = EmptyBlocks | SomeBlocks "node list list"

text \<open>The methods of \<^verbatim>\<open>KVCacheBlocks\<close> on its lists of blocks, one per group.\<close>

definition kvb_add :: "node list list \<Rightarrow> node list list \<Rightarrow> node list list" where
  "kvb_add a b = map2 (@) a b"

definition kvb_get_block_ids :: "bool \<Rightarrow> BlockPool \<Rightarrow> node list list \<Rightarrow> int list list option" where
  "kvb_get_block_ids allow_none p bs =
     (if allow_none \<and> list_all (\<lambda>g. g = []) bs then None else Some (map (map (\<lambda>b. block_id (heap p b))) bs))"

definition kvb_get_unhashed_block_ids :: "BlockPool \<Rightarrow> node list list \<Rightarrow> int list res" where
  "kvb_get_unhashed_block_ids p bs =
     (case bs of [g] \<Rightarrow> Inr (map (\<lambda>b. block_id (heap p b)) (filter (\<lambda>b. block_hash (heap p b) = None) g)) | _ \<Rightarrow> Inl AssertionError)"

definition kvb_get_unhashed_block_ids_all_groups :: "BlockPool \<Rightarrow> node list list \<Rightarrow> int list list" where
  "kvb_get_unhashed_block_ids_all_groups p bs =
     map (\<lambda>g. map (\<lambda>b. block_id (heap p b)) (filter (\<lambda>b. block_hash (heap p b) = None \<and> \<not> is_null (heap p b)) g)) bs"

definition kvb_new_empty :: "node list list \<Rightarrow> node list list" where
  "kvb_new_empty bs = map (\<lambda>_. []) bs"

record PrefixCacheStats =
  pcs_reset :: bool
  pcs_requests :: nat
  pcs_queries :: int
  pcs_hits :: int
  pcs_preempted_requests :: nat
  pcs_preempted_queries :: int
  pcs_preempted_hits :: int

definition fresh_stats :: PrefixCacheStats where
  "fresh_stats = \<lparr>pcs_reset = False, pcs_requests = 0, pcs_queries = 0, pcs_hits = 0,
     pcs_preempted_requests = 0, pcs_preempted_queries = 0, pcs_preempted_hits = 0\<rparr>"

definition record_stats :: "int \<Rightarrow> int \<Rightarrow> bool \<Rightarrow> PrefixCacheStats \<Rightarrow> PrefixCacheStats" where
  "record_stats num_tokens num_hits preempted s =
     (if preempted
      then s\<lparr>pcs_preempted_requests := pcs_preempted_requests s + 1, pcs_preempted_queries := pcs_preempted_queries s + num_tokens,
             pcs_preempted_hits := pcs_preempted_hits s + num_hits\<rparr>
      else s\<lparr>pcs_requests := pcs_requests s + 1, pcs_queries := pcs_queries s + num_tokens, pcs_hits := pcs_hits s + num_hits\<rparr>)"

record KVCacheManager =
  km_co :: KVCacheCoordinator
  km_max_model_len :: int
  km_caching :: bool
  km_stats :: "PrefixCacheStats option"

text \<open>The request as the manager sees it.\<close>

record kv_request =
  kr_request :: Request
  kr_num_computed_tokens :: int
  kr_skip_reading_prefix_cache :: bool
  kr_num_preemptions :: nat

definition kr_num_tokens :: "kv_request \<Rightarrow> int" where
  "kr_num_tokens r = int (length (all_token_ids (kr_request r)))"

definition make_kv_cache_manager ::
  "KVCacheConfig \<Rightarrow> int \<Rightarrow> int \<Rightarrow> int option \<Rightarrow> bool \<Rightarrow> bool \<Rightarrow> bool \<Rightarrow> bool \<Rightarrow> int \<Rightarrow> int \<Rightarrow> bool \<Rightarrow> metric_call list option \<Rightarrow> KVCacheManager option res" where
  "make_kv_cache_manager cfg max_len hash_bs max_batched caching eagle log_stats events dcp pcp use_int metrics =
     (let batched = (case max_batched of None \<Rightarrow> max_len | Some n \<Rightarrow> n) in
      res_bind (get_kv_cache_coordinator cfg max_len batched eagle caching events dcp pcp hash_bs use_int metrics) (\<lambda>co.
        Inr (map_option (\<lambda>c. \<lparr>km_co = c, km_max_model_len = max_len, km_caching = caching,
               km_stats = (if log_stats then Some fresh_stats else None)\<rparr>) co)))"

definition kv_blocks :: "KVCacheManager \<Rightarrow> KVCacheBlocks \<Rightarrow> node list list" where
  "kv_blocks k b = (case b of EmptyBlocks \<Rightarrow> map (\<lambda>_. []) (co_managers (km_co k)) | SomeBlocks bs \<Rightarrow> bs)"

definition create_kv_cache_blocks :: "node list list \<Rightarrow> KVCacheBlocks" where
  "create_kv_cache_blocks bs = (if list_ex (\<lambda>g. g \<noteq> []) bs then SomeBlocks bs else EmptyBlocks)"

definition get_computed_blocks :: "kv_request \<Rightarrow> KVCacheManager \<Rightarrow> ((KVCacheBlocks \<times> int) \<times> KVCacheManager) res" where
  "get_computed_blocks r k =
     (if \<not> km_caching k \<or> kr_skip_reading_prefix_cache r then Inr ((EmptyBlocks, 0), k)
      else
        res_bind (co_find_longest_cache_hit (block_hashes (kr_request r)) (kr_num_tokens r - 1) (km_co k)) (\<lambda>(bs, n).
          Inr ((create_kv_cache_blocks bs, n),
               k\<lparr>km_stats := map_option (record_stats (kr_num_tokens r) n (0 < kr_num_preemptions r)) (km_stats k)\<rparr>)))"

text \<open>
  The arguments of \<^verbatim>\<open>allocate_slots\<close>. The number of encoder tokens is left out: only the
  cross-attention manager uses it.
\<close>

record slot_args =
  sa_num_new_tokens :: int
  sa_num_new_computed_tokens :: int
  sa_new_computed_blocks :: "KVCacheBlocks option"
  sa_num_lookahead_tokens :: int
  sa_num_external_computed_tokens :: int
  sa_delay_cache_blocks :: bool
  sa_full_sequence_must_fit :: bool

definition sa_computed :: "slot_args \<Rightarrow> KVCacheBlocks" where
  "sa_computed a = (case sa_new_computed_blocks a of None \<Rightarrow> EmptyBlocks | Some b \<Rightarrow> b)"

definition full_sequence_fits :: "kv_request \<Rightarrow> node list list \<Rightarrow> int \<Rightarrow> KVCacheManager \<Rightarrow> bool res" where
  "full_sequence_fits r computed total_computed k =
     res_bind (co_get_num_blocks_to_allocate (request_id (kr_request r)) (min (kr_num_tokens r) (km_max_model_len k)) computed total_computed True
                 (co_pool (km_co k)) 0 (co_managers (km_co k)))
       (\<lambda>n. Inr (n \<le> get_num_free_blocks (co_pool (km_co k))))"

definition commit_slots ::
  "(int list list \<Rightarrow> bytes) \<Rightarrow> kv_request \<Rightarrow> slot_args \<Rightarrow> int \<Rightarrow> int \<Rightarrow> int \<Rightarrow> KVCacheCoordinator \<Rightarrow> KVCacheManager
     \<Rightarrow> (KVCacheBlocks option \<times> Request \<times> KVCacheManager) res" where
  "commit_slots sha r a num_local total_computed need co k =
     (let rid = request_id (kr_request r); ext = sa_num_external_computed_tokens a in
      res_bind (if sa_computed a \<noteq> EmptyBlocks \<or> 0 < ext
                then co_allocate_new_computed_blocks rid (kv_blocks k (sa_computed a)) num_local ext co else Inr co) (\<lambda>co1.
      res_bind (co_allocate_new_blocks rid need co1) (\<lambda>(new_blocks, co2).
      if \<not> km_caching k \<or> sa_delay_cache_blocks a
      then Inr (Some (create_kv_cache_blocks new_blocks), kr_request r, k\<lparr>km_co := co2\<rparr>)
      else
        res_bind (co_cache_blocks sha (min (total_computed + sa_num_new_tokens a) (kr_num_tokens r)) (kr_request r) co2) (\<lambda>(r', co3).
          Inr (Some (create_kv_cache_blocks new_blocks), r', k\<lparr>km_co := co3\<rparr>)))))"

definition allocate_slots ::
  "(int list list \<Rightarrow> bytes) \<Rightarrow> kv_request \<Rightarrow> slot_args \<Rightarrow> KVCacheManager \<Rightarrow> (KVCacheBlocks option \<times> Request \<times> KVCacheManager) res" where
  "allocate_slots sha r a k =
     (let rid = request_id (kr_request r); new = sa_num_new_tokens a; ext = sa_num_external_computed_tokens a;
          computed = kv_blocks k (sa_computed a);
          num_local = kr_num_computed_tokens r + sa_num_new_computed_tokens a;
          total_computed = min (num_local + ext) (km_max_model_len k);
          need = min (total_computed + new + sa_num_lookahead_tokens a) (km_max_model_len k) in
      if new = 0 \<and> ext = 0
      then Inl (ValueError ''num_new_tokens must be greater than 0 when there are no external computed tokens'')
      else
        res_bind (if sa_full_sequence_must_fit a then full_sequence_fits r computed total_computed k else Inr True) (\<lambda>fits.
        if \<not> fits then Inr (None, kr_request r, k)
        else
          res_bind (co_remove_skipped_blocks rid total_computed (km_co k)) (\<lambda>co.
          res_bind (co_get_num_blocks_to_allocate rid need computed (num_local + ext) False (co_pool co) 0 (co_managers co)) (\<lambda>n.
          if get_num_free_blocks (co_pool co) < n then Inr (None, kr_request r, k\<lparr>km_co := co\<rparr>)
          else commit_slots sha r a num_local total_computed need co k))))"

definition km_free :: "Request \<Rightarrow> KVCacheManager \<Rightarrow> KVCacheManager res" where
  "km_free r k = res_bind (co_free (request_id r) (km_co k)) (\<lambda>co. Inr (k\<lparr>km_co := co\<rparr>))"

definition km_remove_skipped_blocks :: "string \<Rightarrow> int \<Rightarrow> KVCacheManager \<Rightarrow> KVCacheManager res" where
  "km_remove_skipped_blocks rid total_computed k =
     res_bind (co_remove_skipped_blocks rid total_computed (km_co k)) (\<lambda>co. Inr (k\<lparr>km_co := co\<rparr>))"

definition km_with_pool :: "BlockPool \<Rightarrow> KVCacheManager \<Rightarrow> KVCacheManager" where
  "km_with_pool p k = k\<lparr>km_co := (km_co k)\<lparr>co_pool := p\<rparr>\<rparr>"

definition km_evict_blocks :: "int list \<Rightarrow> KVCacheManager \<Rightarrow> KVCacheManager res" where
  "km_evict_blocks ids k = res_bind (evict_blocks ids (co_pool (km_co k))) (\<lambda>p. Inr (km_with_pool p k))"

definition km_reset_prefix_cache :: "KVCacheManager \<Rightarrow> bool \<times> KVCacheManager" where
  "km_reset_prefix_cache k =
     (case reset_prefix_cache (co_pool (km_co k)) of
        (False, p) \<Rightarrow> (False, km_with_pool p k)
      | (True, p) \<Rightarrow> (True, (km_with_pool p k)\<lparr>km_stats := map_option (\<lambda>s. s\<lparr>pcs_reset := True\<rparr>) (km_stats k)\<rparr>))"

definition make_prefix_cache_stats :: "KVCacheManager \<Rightarrow> PrefixCacheStats option \<times> KVCacheManager" where
  "make_prefix_cache_stats k = (km_stats k, k\<lparr>km_stats := map_option (\<lambda>_. fresh_stats) (km_stats k)\<rparr>)"

definition km_common_prefix_blocks :: "string \<Rightarrow> KVCacheManager \<Rightarrow> nat list \<times> KVCacheManager" where
  "km_common_prefix_blocks rid k =
     (let co = km_co k in
      if \<not> co_unitary co then (map (\<lambda>_. 0) (co_managers co), k)
      else
        let rs = map (st_common_prefix_blocks rid (co_pool co)) (co_managers co)
        in (map fst rs, k\<lparr>km_co := co\<lparr>co_managers := map snd rs\<rparr>\<rparr>))"

definition km_take_events :: "KVCacheManager \<Rightarrow> kv_event list \<times> KVCacheManager" where
  "km_take_events k = (let (es, p) = take_events (co_pool (km_co k)) in (es, km_with_pool p k))"

definition co_get_blocks :: "string \<Rightarrow> KVCacheCoordinator \<Rightarrow> node list list" where
  "co_get_blocks rid co = map (\<lambda>m. blocks_of m rid) (co_managers co)"

definition km_get_blocks :: "string \<Rightarrow> KVCacheManager \<Rightarrow> KVCacheBlocks" where
  "km_get_blocks rid k = create_kv_cache_blocks (co_get_blocks rid (km_co k))"

definition km_get_block_ids :: "string \<Rightarrow> KVCacheManager \<Rightarrow> int list list option" where
  "km_get_block_ids rid k = kvb_get_block_ids False (co_pool (km_co k)) (kv_blocks k (km_get_blocks rid k))"

definition km_cache_blocks :: "(int list list \<Rightarrow> bytes) \<Rightarrow> int \<Rightarrow> Request \<Rightarrow> KVCacheManager \<Rightarrow> (Request \<times> KVCacheManager) res" where
  "km_cache_blocks sha n r k =
     (if km_caching k then res_bind (co_cache_blocks sha n r (km_co k)) (\<lambda>(r', co). Inr (r', k\<lparr>km_co := co\<rparr>)) else Inr (r, k))"

definition km_take_new_block_ids :: "KVCacheManager \<Rightarrow> int list \<times> KVCacheManager" where
  "km_take_new_block_ids k =
     (let rs = map st_take_new_block_ids (co_managers (km_co k))
      in (concat (map fst rs), k\<lparr>km_co := (km_co k)\<lparr>co_managers := map snd rs\<rparr>\<rparr>))"

end
