(* ===== verification/Kv_Blocks.thy ===== *)
theory Kv_Blocks
  imports Kv_Manager
begin

text \<open>
  The manager of one attention type over the block pool. Its invariant says that the pool counts exactly the
  references the requests hold and that blocks still being written belong to one request and
  have no hash; every operation keeps it, and prefix lookups return blocks that carry the right hashes.
\<close>

section \<open>The pool under a given number of references\<close>

definition block_refs_ok :: "BlockPool \<Rightarrow> (node \<Rightarrow> nat) \<Rightarrow> bool" where
  "block_refs_ok p R \<longleftrightarrow> (\<exists>H. pool_run p H \<and> (\<forall>b. b \<noteq> null_block p \<longrightarrow> H b = R b))"

definition idle :: "BlockPool \<Rightarrow> (node \<Rightarrow> nat) \<Rightarrow> node set" where
  "idle p R = {b \<in> set (blocks p). b \<noteq> null_block p \<and> R b = 0}"

lemma finite_idle [simp]: "finite (idle p R)"
  by (simp add: idle_def)

lemma block_refs_ok_list:
  assumes "block_refs_ok p R"
  obtains H xs where "pool_run p H" "\<forall>b. b \<noteq> null_block p \<longrightarrow> H b = R b" "pool_at p xs {}" "distinct xs" "set xs = idle p R"
    "get_num_free_blocks p = int (length xs)" "held p H"
proof -
  obtain H where H: "pool_run p H" "\<forall>b. b \<noteq> null_block p \<longrightarrow> H b = R b" using assms by (auto simp: block_refs_ok_def)
  obtain xs where x: "pool_at p xs {}" "held p H" "distinct xs" "set xs = {b \<in> set (blocks p). b \<noteq> null_block p \<and> H b = 0}"
    by (rule pool_run_free_list [OF H(1)])
  have "set xs = idle p R" unfolding x(4) idle_def using H(2) by auto
  then show thesis using that [OF H x(1,3)] x(2) rep_num [OF pool_atD(1) [OF x(1)]] by (simp add: get_num_free_blocks_def)
qed

lemma block_refs_ok_free: "block_refs_ok p R \<Longrightarrow> get_num_free_blocks p = int (card (idle p R))"
  by (erule block_refs_ok_list) (metis distinct_card)

lemma block_refs_ok_cong: "block_refs_ok p R \<Longrightarrow> (\<And>b. b \<noteq> null_block p \<Longrightarrow> R b = R' b) \<Longrightarrow> block_refs_ok p R'"
  by (auto simp: block_refs_ok_def)

lemma block_refs_ok_null: "block_refs_ok p R \<Longrightarrow> null_block p \<in> set (blocks p)"
  by (erule block_refs_ok_list) (rule pool_at_null_block)

lemma block_refs_ok_is_null: "block_refs_ok p R \<Longrightarrow> b \<in> set (blocks p) \<Longrightarrow> is_null (heap p b) \<longleftrightarrow> b = null_block p"
  by (erule block_refs_ok_list) (rule pool_at_null)

lemma block_refs_ok_ref_cnt: "block_refs_ok p R \<Longrightarrow> b \<in> set (blocks p) \<Longrightarrow> b \<noteq> null_block p \<Longrightarrow> ref_cnt (heap p b) = int (R b)"
  by (erule block_refs_ok_list) (simp add: held_def)

lemma block_refs_ok_alloc:
  assumes "block_refs_ok p R" "0 \<le> n" "n \<le> get_num_free_blocks p"
  obtains bs p' where "get_new_blocks n p = Inr (bs, p')" "block_refs_ok p' (\<lambda>b. R b + count_list bs b)" "same_frame p p'"
    "int (length bs) = n" "distinct bs" "set bs \<subseteq> idle p R"
    "enable_caching p \<Longrightarrow> \<forall>b \<in> set bs. block_hash (heap p' b) = None"
    "\<forall>c. c \<notin> set bs \<longrightarrow> block_hash (heap p' c) = block_hash (heap p c)"
proof -
  obtain H xs where H: "pool_run p H" "\<forall>b. b \<noteq> null_block p \<longrightarrow> H b = R b" "pool_at p xs {}" "distinct xs" "set xs = idle p R"
    "get_num_free_blocks p = int (length xs)" by (rule block_refs_ok_list [OF assms(1)])
  have n: "n \<le> int (length xs)" using assms(3) H(6) by simp
  define bs where "bs = take (nat n) xs"
  obtain p' where p': "get_new_blocks n p = Inr (bs, p')" "same_frame p p'"
    "\<forall>b \<in> set bs. enable_caching p \<longrightarrow> block_hash (heap p' b) = None"
    "\<forall>c. c \<notin> set bs \<longrightarrow> payload (heap p') c = payload (heap p) c"
    using get_new_blocks_spec [OF H(3) assms(2) n] by (auto simp: bs_def)
  have "pool_run p' (\<lambda>b. H b + count_list bs b)" by (rule pool_run.alloc [OF H(1) assms(2) p'(1)])
  then have r: "block_refs_ok p' (\<lambda>b. R b + count_list bs b)" using H(2) p'(2) unfolding block_refs_ok_def same_frame_def by metis
  have "distinct bs" "set bs \<subseteq> idle p R" "int (length bs) = n"
    using H(4,5) n assms(2) by (auto simp: bs_def dest: in_set_takeD)
  moreover have "\<forall>c. c \<notin> set bs \<longrightarrow> block_hash (heap p' c) = block_hash (heap p c)"
    using p'(4) by (simp add: payload_def)
  ultimately show thesis using that [OF p'(1) r p'(2)] p'(3) by blast
qed

lemma block_refs_ok_touch:
  assumes "block_refs_ok p R" "set bs \<subseteq> set (blocks p)"
  obtains p' where "touch bs p = Inr p'" "block_refs_ok p' (\<lambda>b. R b + count_list bs b)" "same_frame p p'"
    "\<forall>c. block_hash (heap p' c) = block_hash (heap p c)"
proof -
  obtain H xs where H: "pool_run p H" "\<forall>b. b \<noteq> null_block p \<longrightarrow> H b = R b" "pool_at p xs {}" by (rule block_refs_ok_list [OF assms(1)])
  obtain p' where p': "touch bs p = Inr p'" "same_frame p p'" "refs_by (\<lambda>c. int (count_list bs c)) p p'"
    using touch_spec [OF H(3) assms(2)] by blast
  have "pool_run p' (\<lambda>b. H b + count_list bs b)" by (rule pool_run.touch [OF H(1) assms(2) p'(1)])
  then have r: "block_refs_ok p' (\<lambda>b. R b + count_list bs b)" using H(2) p'(2) unfolding block_refs_ok_def same_frame_def by metis
  show thesis using that [OF p'(1) r p'(2)] p'(3) unfolding refs_by_def by blast
qed

lemma block_refs_ok_release:
  assumes "block_refs_ok p R" "set bs \<subseteq> set (blocks p)" "distinct (filter (\<lambda>b. b \<noteq> null_block p) bs)"
    "\<And>b. b \<in> set bs \<Longrightarrow> b \<noteq> null_block p \<Longrightarrow> 0 < R b"
  obtains p' where "free_blocks bs p = Inr p'" "block_refs_ok p' (\<lambda>b. R b - count_list bs b)" "same_frame p p'"
    "\<forall>c. block_hash (heap p' c) = block_hash (heap p c)"
proof -
  obtain H xs where H: "pool_run p H" "\<forall>b. b \<noteq> null_block p \<longrightarrow> H b = R b" "pool_at p xs {}" "held p H"
    by (rule block_refs_ok_list [OF assms(1)])
  have h: "\<forall>b \<in> set bs. b \<noteq> null_block p \<longrightarrow> 0 < H b" using assms(4) H(2) by simp
  then have "\<forall>b \<in> set bs. b \<noteq> null_block p \<longrightarrow> 1 \<le> ref_cnt (heap p b)" using H(4) assms(2) by (fastforce simp: held_def)
  then obtain p' where p': "free_blocks bs p = Inr p'" "same_frame p p'" "refs_by (\<lambda>c. - int (count_list bs c)) p p'"
    using free_blocks_spec [OF H(3) assms(2,3)] by blast
  have "pool_run p' (\<lambda>b. H b - count_list bs b)" by (rule pool_run.free [OF H(1) assms(2,3) h p'(1)])
  then have r: "block_refs_ok p' (\<lambda>b. R b - count_list bs b)" using H(2) p'(2) unfolding block_refs_ok_def same_frame_def by metis
  show thesis using that [OF p'(1) r p'(2)] p'(3) unfolding refs_by_def by blast
qed

lemma cache_full_blocks_elsewhere:
  assumes r: "cache_full_blocks sha r bs nc nf bsz gid p = Inr (r', p')"
    and p: "pool_at p xs D" and bs: "set bs \<subseteq> set (blocks p)" and c: "c \<notin> set (py_slice bs nc nf)"
  shows "block_hash (heap p' c) = block_hash (heap p c)"
proof (cases "nf \<le> nc")
  case True
  then show ?thesis using r by (simp add: cache_full_blocks_def)
next
  case False
  let ?ibs = "enumerate 0 (py_slice bs nc nf)"
  obtain hs p1 nh where h: "res_fold (cache_one_block (hashes_from hs nc) gid) ?ibs (p, []) = Inr (p1, nh)"
    and p1: "p' = p1 \<or> (\<exists>e. p' = emit e p1)"
    using r False by (auto simp: cache_full_blocks_def res_simps split: if_splits prod.splits)
  have b: "\<forall>(i, b) \<in> set ?ibs. b \<in> set (blocks p)" using enumerate_slice(2) [of _ _ bs nc nf] bs by fastforce
  have "c \<notin> snd ` set ?ibs" using c enumerate_slice(1) by force
  then have "block_hash (heap p1 c) = block_hash (heap p c)" using cache_loop_spec [OF h p b] by blast
  then show ?thesis using p1 by (auto simp: pool_simps)
qed

lemma block_refs_ok_cache:
  assumes r: "block_refs_ok p R" and e: "\<not> enable_kv_cache_events p" and bs: "set bs \<subseteq> set (blocks p)"
    and n: "0 \<le> nc" "nf \<le> int (length (block_hashes r))" and g: "0 \<le> gid" "gid < 2 ^ 32"
    and d: "distinct (filter (\<lambda>b. b \<noteq> null_block p) (py_slice bs nc nf))"
    and u: "\<forall>b \<in> set (py_slice bs nc nf). b \<noteq> null_block p \<longrightarrow> block_hash (heap p b) = None"
  obtains p' where "cache_full_blocks sha r bs nc nf (hash_block_size p) gid p = Inr (r, p')" "block_refs_ok p' R" "same_frame p p'"
    "\<forall>b. b \<notin> set (py_slice bs nc nf) \<longrightarrow> block_hash (heap p' b) = block_hash (heap p b)"
    "\<forall>b. block_hash (heap p b) \<noteq> None \<longrightarrow> block_hash (heap p' b) = block_hash (heap p b)"
proof -
  obtain H xs where H: "pool_run p H" "\<forall>b. b \<noteq> null_block p \<longrightarrow> H b = R b" "pool_at p xs {}" by (rule block_refs_ok_list [OF r])
  obtain p' where p': "cache_full_blocks sha r bs nc nf (hash_block_size p) gid p = Inr (r, p')"
    using cache_full_blocks_total [OF H(3) e bs n g d u] by blast
  note S = cache_full_blocks_spec [OF p' H(3) bs n(1)]
  have f: "same_frame p p'" using S by (simp add: same_refs_def)
  have "pool_run p' H" by (rule pool_run.cache [OF H(1) bs n(1) p'])
  then have "block_refs_ok p' R" using H(2) f unfolding block_refs_ok_def same_frame_def by metis
  then show thesis using that [OF p' _ f] cache_full_blocks_elsewhere [OF p' H(3) bs] S by blast
qed

section \<open>The blocks of a manager\<close>

definition entry_refs :: "(string, node list) odict \<Rightarrow> node \<Rightarrow> nat" where
  "entry_refs d b = sum_list (map (\<lambda>(_, bs). count_list bs b) d)"

definition mgr_refs :: "st_manager \<Rightarrow> node \<Rightarrow> nat" where
  "mgr_refs m b = entry_refs (req_to_blocks m) b"

definition entry :: "(string, node list) odict \<Rightarrow> string \<Rightarrow> node list" where
  "entry d rid = (case od_get d rid of None \<Rightarrow> [] | Some bs \<Rightarrow> bs)"

lemma blocks_of_entry: "blocks_of m rid = entry (req_to_blocks m) rid"
  by (simp add: blocks_of_def entry_def)

lemma entry_set [simp]: "entry (od_set rid bs d) rid' = (if rid' = rid then bs else entry d rid')"
  by (simp add: entry_def od_simps)

lemma entry_del [simp]: "entry (od_del rid d) rid' = (if rid' = rid then [] else entry d rid')"
  by (simp add: entry_def od_simps)

lemma entry_refs_set: "od_ok d \<Longrightarrow> entry_refs (od_set rid bs d) b + count_list (entry d rid) b = entry_refs d b + count_list bs b"
proof (induction d)
  case (Cons e d)
  obtain k v where e: "e = (k, v)" by fastforce
  have ok: "od_ok d" using Cons.prems by (simp add: od_ok_def)
  show ?case
  proof (cases "k = rid")
    case True
    then show ?thesis by (simp add: e entry_refs_def entry_def)
  next
    case False
    then have "entry (e # d) rid = entry d rid" by (simp add: e entry_def)
    then show ?thesis using Cons.IH [OF ok] False by (simp add: e entry_refs_def)
  qed
qed (simp add: entry_refs_def entry_def)

lemma entry_refs_del: "od_ok d \<Longrightarrow> entry_refs (od_del rid d) b + count_list (entry d rid) b = entry_refs d b"
proof (induction d)
  case (Cons e d)
  obtain k v where e: "e = (k, v)" by fastforce
  have ok: "od_ok d" using Cons.prems by (simp add: od_ok_def)
  show ?case
  proof (cases "k = rid")
    case True
    then have "od_get d rid = None" using Cons.prems by (simp add: e od_ok_def od_get_None)
    then have "od_del rid (e # d) = d" using True od_del_fresh [of d rid] by (simp add: e od_del_def)
    then show ?thesis using True by (simp add: e entry_refs_def entry_def)
  next
    case False
    then have "entry (e # d) rid = entry d rid" "od_del rid (e # d) = e # od_del rid d" by (simp_all add: e entry_def od_del_def)
    then show ?thesis using Cons.IH [OF ok] by (simp add: e entry_refs_def)
  qed
qed (simp add: entry_refs_def entry_def od_del_def)

lemma entry_refs_ge: "od_ok d \<Longrightarrow> count_list (entry d rid) b \<le> entry_refs d b"
  using entry_refs_del [of d rid b] by simp

lemma entry_refs_two: "od_ok d \<Longrightarrow> rid \<noteq> rid' \<Longrightarrow> count_list (entry d rid) b + count_list (entry d rid') b \<le> entry_refs d b"
  using entry_refs_del [of d rid b] entry_refs_ge [of "od_del rid d" rid' b] by simp

lemma count_list_pos: "0 < count_list xs x \<longleftrightarrow> x \<in> set xs"
  by (metis count_list_0_iff gr0I less_numeral_extra(3))

text \<open>The number of blocks of a request whose hashes are entered.\<close>

definition cached_upto :: "st_manager \<Rightarrow> string \<Rightarrow> nat" where
  "cached_upto m rid = (case od_get (num_cached_block m) rid of None \<Rightarrow> 0 | Some n \<Rightarrow> nat n)"

definition fresh :: "BlockPool \<Rightarrow> st_manager \<Rightarrow> bool" where
  "fresh p m \<longleftrightarrow> (\<forall>rid. \<forall>b \<in> set (drop (cached_upto m rid) (blocks_of m rid)). b \<noteq> null_block p \<longrightarrow>
     block_hash (heap p b) = None \<and> mgr_refs m b = 1)"

definition st_ok :: "BlockPool \<Rightarrow> st_manager \<Rightarrow> bool" where
  "st_ok p m \<longleftrightarrow> od_ok (req_to_blocks m) \<and> 0 < st_block_size m \<and> 0 \<le> st_group m \<and> st_group m < 2 ^ 32 \<and>
     st_caching m = enable_caching p \<and>
     (\<forall>rid. set (blocks_of m rid) \<subseteq> set (blocks p) \<and> distinct (filter (\<lambda>b. b \<noteq> null_block p) (blocks_of m rid))) \<and>
     (\<forall>rid n. od_get (num_cached_block m) rid = Some n \<longrightarrow> 0 \<le> n)"

definition kv_ok :: "BlockPool \<Rightarrow> st_manager \<Rightarrow> bool" where
  "kv_ok p m \<longleftrightarrow> block_refs_ok p (mgr_refs m) \<and> st_ok p m \<and> (enable_caching p \<longrightarrow> fresh p m)"

lemma kv_okD:
  assumes "kv_ok p m"
  shows "block_refs_ok p (mgr_refs m)" "od_ok (req_to_blocks m)" "0 < st_block_size m" "0 \<le> st_group m \<and> st_group m < 2 ^ 32"
    "st_caching m = enable_caching p" "set (blocks_of m rid) \<subseteq> set (blocks p)"
    "distinct (filter (\<lambda>b. b \<noteq> null_block p) (blocks_of m rid))" "enable_caching p \<Longrightarrow> fresh p m"
    "od_get (num_cached_block m) rid = Some n \<Longrightarrow> 0 \<le> n"
  using assms unfolding kv_ok_def st_ok_def by blast+

lemma held_refs: "kv_ok p m \<Longrightarrow> b \<in> set (blocks_of m rid) \<Longrightarrow> 0 < mgr_refs m b"
  using entry_refs_ge [of "req_to_blocks m" rid b] count_list_pos [of "blocks_of m rid" b]
  by (simp add: kv_ok_def st_ok_def mgr_refs_def blocks_of_entry)

text \<open>A step that changes the blocks of one request and keeps the fields of the manager.\<close>

lemma kv_ok_step:
  assumes k: "kv_ok p m" and f: "same_frame p p'" and r: "block_refs_ok p' (\<lambda>b. mgr_refs m b + count_list new b - count_list old b)"
    and eq: "\<And>b. b \<noteq> null_block p \<Longrightarrow> count_list bs' b + count_list old b = count_list (blocks_of m rid) b + count_list new b"
    and m': "req_to_blocks m' = od_set rid bs' (req_to_blocks m)" "st_block_size m' = st_block_size m" "st_group m' = st_group m"
      "st_caching m' = st_caching m" "\<And>rid' n. od_get (num_cached_block m') rid' = Some n \<Longrightarrow> 0 \<le> n"
    and bs': "set bs' \<subseteq> set (blocks p)" "distinct (filter (\<lambda>b. b \<noteq> null_block p) bs')"
    and fr: "enable_caching p \<Longrightarrow> fresh p' m'"
  shows "kv_ok p' m'"
proof -
  note D = kv_okD [OF k]
  have "mgr_refs m' b = mgr_refs m b + count_list new b - count_list old b" if "b \<noteq> null_block p" for b
    using entry_refs_set [OF D(2), of rid bs' b] eq [OF that] by (simp add: mgr_refs_def m'(1) blocks_of_entry)
  then have "block_refs_ok p' (mgr_refs m')" using block_refs_ok_cong [OF r] f by (simp add: same_frame_def)
  moreover have "st_ok p' m'"
    using D(2-7) f m' bs' unfolding st_ok_def by (auto simp: same_frame_def blocks_of_entry)
  ultimately show ?thesis using fr f by (simp add: kv_ok_def same_frame_def)
qed

lemma count_distinct: "distinct xs \<Longrightarrow> count_list xs x = (if x \<in> set xs then 1 else 0)"
  by (induction xs) (auto simp: count_list_0_iff)

lemma kv_fresh: "kv_ok p m \<Longrightarrow> enable_caching p \<Longrightarrow> b \<in> set (drop (cached_upto m rid) (blocks_of m rid)) \<Longrightarrow> b \<noteq> null_block p \<Longrightarrow>
    block_hash (heap p b) = None \<and> mgr_refs m b = 1"
  using kv_okD(8) [of p m] by (auto simp: fresh_def)

lemma kv_ok_free: "kv_ok p m \<Longrightarrow> get_num_free_blocks p = int (card (idle p (mgr_refs m)))"
  by (rule block_refs_ok_free) (rule kv_okD(1))

lemma add_blocks_fields [simp]:
  "st_block_size (add_blocks rid bs p m) = st_block_size m" "st_group (add_blocks rid bs p m) = st_group m"
  "st_caching (add_blocks rid bs p m) = st_caching m" "num_cached_block (add_blocks rid bs p m) = num_cached_block m"
  "req_to_blocks (add_blocks rid bs p m) = od_set rid (blocks_of m rid @ bs) (req_to_blocks m)"
  "st_spec (add_blocks rid bs p m) = st_spec m" "st_cap (add_blocks rid bs p m) = st_cap m"
  by (simp_all add: add_blocks_def)

lemma blocks_of_add [simp]: "blocks_of (add_blocks rid bs p m) rid' = (if rid' = rid then blocks_of m rid @ bs else blocks_of m rid')"
  by (simp add: blocks_of_entry)

lemma cached_upto_add [simp]: "cached_upto (add_blocks rid bs p m) rid' = cached_upto m rid'"
  by (simp add: cached_upto_def)

lemma mgr_refs_add:
  "kv_ok p m \<Longrightarrow> mgr_refs (add_blocks rid bs q m) b = mgr_refs m b + count_list bs b"
  using entry_refs_set [of "req_to_blocks m" rid "blocks_of m rid @ bs" b] kv_okD(2) [of p m]
  by (simp add: mgr_refs_def blocks_of_entry)

lemma append_new_blocks:
  assumes k: "kv_ok p m" and n: "0 \<le> n" "n \<le> get_num_free_blocks p"
  obtains bs p' where "get_new_blocks n p = Inr (bs, p')" "kv_ok p' (add_blocks rid bs p' m)" "same_frame p p'"
    "int (length bs) = n" "get_num_free_blocks p' = get_num_free_blocks p - n"
proof -
  note D = kv_okD [OF k]
  obtain bs p' where a: "get_new_blocks n p = Inr (bs, p')" "block_refs_ok p' (\<lambda>b. mgr_refs m b + count_list bs b)" "same_frame p p'"
    "int (length bs) = n" "distinct bs" "set bs \<subseteq> idle p (mgr_refs m)"
    "enable_caching p \<Longrightarrow> \<forall>b \<in> set bs. block_hash (heap p' b) = None"
    "\<forall>c. c \<notin> set bs \<longrightarrow> block_hash (heap p' c) = block_hash (heap p c)"
    by (rule block_refs_ok_alloc [OF D(1) n]) blast
  let ?m = "add_blocks rid bs p' m"
  have new: "b \<in> set bs \<Longrightarrow> mgr_refs m b = 0 \<and> b \<noteq> null_block p \<and> b \<in> set (blocks p)" for b
    using a(6) by (auto simp: idle_def)
  then have disj: "set (blocks_of m rid') \<inter> set bs = {}" for rid' using held_refs [OF k] by force
  have fr: "fresh p' ?m" if c: "enable_caching p"
    unfolding fresh_def
  proof (intro allI ballI impI)
    fix rid' b assume b: "b \<in> set (drop (cached_upto ?m rid') (blocks_of ?m rid'))" and nn: "b \<noteq> null_block p'"
    have nn': "b \<noteq> null_block p" using nn a(3) by (simp add: same_frame_def)
    consider "b \<in> set bs" | "b \<notin> set bs" "b \<in> set (drop (cached_upto m rid') (blocks_of m rid'))"
      using b by (auto split: if_splits dest: in_set_dropD)
    then show "block_hash (heap p' b) = None \<and> mgr_refs ?m b = 1"
    proof cases
      case 1
      then show ?thesis using a(7) [OF c] new a(5) mgr_refs_add [OF k] by (simp add: count_distinct)
    next
      case 2
      then show ?thesis using kv_fresh [OF k c 2(2) nn'] a(8) mgr_refs_add [OF k] by (simp add: count_list_0_iff)
    qed
  qed
  have "distinct (filter (\<lambda>b. b \<noteq> null_block p) (blocks_of m rid @ bs))"
    using D(7) [of rid] a(5) disj [of rid] by auto
  then have ok: "kv_ok p' ?m"
    using D(6) [of rid] new D(9) fr
    by (intro kv_ok_step [OF k a(3), of bs "[]" "blocks_of m rid @ bs" rid]) (auto simp: a(2))
  have "idle p' (mgr_refs ?m) = idle p (mgr_refs m) - set bs"
    using a(3) mgr_refs_add [OF k] by (auto simp: idle_def same_frame_def count_list_0_iff)
  then have "card (idle p' (mgr_refs ?m)) = card (idle p (mgr_refs m)) - length bs"
    using a(5,6) by (simp add: card_Diff_subset distinct_card)
  moreover have "length bs \<le> card (idle p (mgr_refs m))" using a(5,6) by (metis card_mono distinct_card finite_idle)
  ultimately have "get_num_free_blocks p' = get_num_free_blocks p - n"
    using kv_ok_free [OF k] kv_ok_free [OF ok] a(4) by simp
  then show thesis using that [OF a(1) ok a(3,4)] by blast
qed

text \<open>
  Blocks that a prefix lookup returned for a request: null blocks outside the window, otherwise the
  block at a position carries the hash of that position.
\<close>

definition hits_ok :: "BlockPool \<Rightarrow> int \<Rightarrow> bytes list \<Rightarrow> node list \<Rightarrow> bool" where
  "hits_ok p gid hashes c \<longleftrightarrow> (\<forall>j < length c. c ! j \<noteq> null_block p \<longrightarrow> j < length hashes \<and> c ! j \<in> set (blocks p) \<and>
     (\<exists>key. make_block_hash_with_group_id (hashes ! j) gid = Inr key \<and> block_hash (heap p (c ! j)) = Some key))"

lemma hits_ok_props:
  assumes "hits_ok p gid hashes c" "distinct hashes"
  shows "distinct (filter (\<lambda>b. b \<noteq> null_block p) c)" "\<And>b. b \<in> set c \<Longrightarrow> b \<noteq> null_block p \<Longrightarrow> block_hash (heap p b) \<noteq> None \<and> b \<in> set (blocks p)"
proof -
  show "\<And>b. b \<in> set c \<Longrightarrow> b \<noteq> null_block p \<Longrightarrow> block_hash (heap p b) \<noteq> None \<and> b \<in> set (blocks p)"
    using assms(1) by (auto simp: hits_ok_def in_set_conv_nth)
  have inj: "i = j" if ij: "i < length c" "j < length c" "c ! i = c ! j" "c ! i \<noteq> null_block p" for i j
  proof -
    obtain key key' where "make_block_hash_with_group_id (hashes ! i) gid = Inr key" "block_hash (heap p (c ! i)) = Some key"
      "make_block_hash_with_group_id (hashes ! j) gid = Inr key'" "block_hash (heap p (c ! j)) = Some key'"
      "i < length hashes" "j < length hashes"
      using assms(1) ij unfolding hits_ok_def by metis
    then show ?thesis using make_key_inj [of "hashes ! i" gid key "hashes ! j" gid] ij(3) assms(2) by (simp add: nth_eq_iff_index_eq)
  qed
  show "distinct (filter (\<lambda>b. b \<noteq> null_block p) c)"
    using inj
  proof (induction c)
    case (Cons a c)
    have "i = j" if "i < length c" "j < length c" "c ! i = c ! j" "c ! i \<noteq> null_block p" for i j
      using Cons.prems [of "Suc i" "Suc j"] that by simp
    then have "distinct (filter (\<lambda>b. b \<noteq> null_block p) c)" by (rule Cons.IH)
    moreover have "a \<notin> set c" if "a \<noteq> null_block p"
    proof
      assume "a \<in> set c"
      then obtain j where "j < length c" "c ! j = a" by (auto simp: in_set_conv_nth)
      then show False using Cons.prems [of 0 "Suc j"] that by simp
    qed
    ultimately show ?case by simp
  qed simp
qed

text \<open>Taking over cached blocks for a new request.\<close>

definition with_hits :: "string \<Rightarrow> node list \<Rightarrow> st_manager \<Rightarrow> st_manager" where
  "with_hits rid bs m = m\<lparr>req_to_blocks := od_set rid bs (req_to_blocks m), num_cached_block := od_set rid (int (length bs)) (num_cached_block m)\<rparr>"

lemma evictable_card:
  assumes "block_refs_ok p R" "set c \<subseteq> set (blocks p)" "distinct (filter (\<lambda>b. b \<noteq> null_block p) c)"
  shows "get_num_evictable_blocks p c = int (card (idle p R \<inter> set c))"
proof -
  have e: "filter (\<lambda>b. ref_cnt (heap p b) = 0 \<and> \<not> is_null (heap p b)) c = filter (\<lambda>b. R b = 0) (filter (\<lambda>b. b \<noteq> null_block p) c)"
    using block_refs_ok_is_null [OF assms(1)] block_refs_ok_ref_cnt [OF assms(1)] assms(2) by (auto intro!: filter_cong)
  have "distinct (filter (\<lambda>b. R b = 0) (filter (\<lambda>b. b \<noteq> null_block p) c))" using assms(3) by (rule distinct_filter)
  moreover have "set (filter (\<lambda>b. R b = 0) (filter (\<lambda>b. b \<noteq> null_block p) c)) = idle p R \<inter> set c"
    using assms(2) by (auto simp: idle_def)
  ultimately show ?thesis unfolding get_num_evictable_blocks_def e by (metis distinct_card)
qed

lemma take_hits:
  assumes k: "kv_ok p m" and c: "set c \<subseteq> set (blocks p)" "distinct (filter (\<lambda>b. b \<noteq> null_block p) c)"
    "\<And>b. b \<in> set c \<Longrightarrow> b \<noteq> null_block p \<Longrightarrow> block_hash (heap p b) \<noteq> None" and e: "blocks_of m rid = []"
  obtains p' where "touch c p = Inr p'" "kv_ok p' (with_hits rid (replicate s (null_block p) @ c) m)" "same_frame p p'"
    "get_num_free_blocks p' = get_num_free_blocks p - get_num_evictable_blocks p c"
proof -
  note D = kv_okD [OF k]
  obtain p' where a: "touch c p = Inr p'" "block_refs_ok p' (\<lambda>b. mgr_refs m b + count_list c b)" "same_frame p p'"
    "\<forall>b. block_hash (heap p' b) = block_hash (heap p b)" by (rule block_refs_ok_touch [OF D(1) c(1)])
  let ?bs = "replicate s (null_block p) @ c"
  let ?m = "with_hits rid ?bs m"
  have refs: "mgr_refs ?m b = mgr_refs m b + count_list c b" if "b \<noteq> null_block p" for b
    using entry_refs_set [OF D(2), of rid ?bs b] that e by (simp add: mgr_refs_def with_hits_def blocks_of_entry count_list_0_iff)
  have fr: "fresh p' ?m" if c1: "enable_caching p"
    unfolding fresh_def
  proof (intro allI ballI impI)
    fix rid' b assume b: "b \<in> set (drop (cached_upto ?m rid') (blocks_of ?m rid'))" and nn: "b \<noteq> null_block p'"
    have nn': "b \<noteq> null_block p" using nn a(3) by (simp add: same_frame_def)
    have "rid' \<noteq> rid" using b by (auto simp: with_hits_def cached_upto_def od_simps blocks_of_entry)
    then have "b \<in> set (drop (cached_upto m rid') (blocks_of m rid'))"
      using b by (simp add: with_hits_def cached_upto_def od_simps blocks_of_entry)
    note f = kv_fresh [OF k c1 this nn']
    then have "b \<notin> set c" using c(3) nn' by blast
    then show "block_hash (heap p' b) = None \<and> mgr_refs ?m b = 1" using f a(4) refs [OF nn'] by (simp add: count_list_0_iff)
  qed
  have ok: "kv_ok p' ?m"
  proof (rule kv_ok_step [OF k a(3), of c "[]" ?bs rid])
    show "0 \<le> n" if "od_get (num_cached_block ?m) rid' = Some n" for rid' n
      using that D(9) by (auto simp: with_hits_def od_simps split: if_splits)
    show "set ?bs \<subseteq> set (blocks p)" using c(1) block_refs_ok_null [OF D(1)] by auto
  qed (use a(2) c(2) fr e in \<open>auto simp: with_hits_def count_list_0_iff\<close>)
  have "idle p' (mgr_refs ?m) = idle p (mgr_refs m) - set c"
    using a(3) refs by (auto simp: idle_def same_frame_def count_list_0_iff)
  then have "card (idle p' (mgr_refs ?m)) = card (idle p (mgr_refs m)) - card (idle p (mgr_refs m) \<inter> set c)"
    by (simp add: card_Diff_subset_Int)
  moreover have "card (idle p (mgr_refs m) \<inter> set c) \<le> card (idle p (mgr_refs m))" by (simp add: card_mono)
  ultimately have "get_num_free_blocks p' = get_num_free_blocks p - get_num_evictable_blocks p c"
    using kv_ok_free [OF k] kv_ok_free [OF ok] evictable_card [OF D(1) c(1,2)] by simp
  then show thesis using that [OF a(1) ok a(3)] by blast
qed

lemma release_request:
  assumes k: "kv_ok p m"
  obtains p' m' where "st_free rid p m = Inr (p', m')" "kv_ok p' m'" "same_frame p p'" "blocks_of m' rid = []"
    "od_get (num_cached_block m') rid = None" "\<And>rid'. rid' \<noteq> rid \<Longrightarrow> blocks_of m' rid' = blocks_of m rid'"
proof -
  note D = kv_okD [OF k]
  have "distinct (filter (\<lambda>b. b \<noteq> null_block p) (rev (blocks_of m rid)))" using D(7) [of rid] by (simp add: rev_filter [symmetric])
  then obtain p' where a: "free_blocks (rev (blocks_of m rid)) p = Inr p'" "block_refs_ok p' (\<lambda>b. mgr_refs m b - count_list (rev (blocks_of m rid)) b)"
    "same_frame p p'" "\<forall>c. block_hash (heap p' c) = block_hash (heap p c)"
    using block_refs_ok_release [OF D(1), of "rev (blocks_of m rid)"] D(6) [of rid] held_refs [OF k, of _ rid] by (metis set_rev)
  define m' where "m' = m\<lparr>req_to_blocks := od_del rid (req_to_blocks m), num_cached_block := od_del rid (num_cached_block m)\<rparr>"
  have refs: "mgr_refs m' b = mgr_refs m b - count_list (blocks_of m rid) b" for b
    using entry_refs_del [OF D(2), of rid b] by (simp add: mgr_refs_def m'_def blocks_of_entry)
  have "block_refs_ok p' (mgr_refs m')" by (rule block_refs_ok_cong [OF a(2)]) (simp add: refs)
  moreover have "st_ok p' m'" using D(2-7,9) a(3) unfolding st_ok_def m'_def by (auto simp: same_frame_def blocks_of_entry od_simps split: if_splits)
  moreover have "fresh p' m'" if c: "enable_caching p"
    unfolding fresh_def
  proof (intro allI ballI impI)
    fix rid' b assume b: "b \<in> set (drop (cached_upto m' rid') (blocks_of m' rid'))" and nn: "b \<noteq> null_block p'"
    have ne: "rid' \<noteq> rid" using b by (auto simp: m'_def blocks_of_entry)
    then have b': "b \<in> set (drop (cached_upto m rid') (blocks_of m rid'))" using b by (simp add: m'_def blocks_of_entry cached_upto_def od_simps)
    have f: "block_hash (heap p b) = None \<and> mgr_refs m b = 1" using kv_fresh [OF k c b'] nn a(3) by (simp add: same_frame_def)
    have "0 < count_list (blocks_of m rid') b" using b' by (simp add: count_list_pos in_set_dropD)
    then have "count_list (blocks_of m rid) b = 0" using entry_refs_two [OF D(2) ne, of b] f by (simp add: mgr_refs_def blocks_of_entry)
    then show "block_hash (heap p' b) = None \<and> mgr_refs m' b = 1" using f a(4) refs by simp
  qed
  ultimately have "kv_ok p' m'" using a(3) by (simp add: kv_ok_def same_frame_def)
  then show thesis using that [of p' m'] a(1,3) by (simp add: st_free_def m'_def blocks_of_entry od_simps)
qed

lemma nth_drop_index: "b \<in> set (drop c xs) \<longleftrightarrow> (\<exists>i. c \<le> i \<and> i < length xs \<and> xs ! i = b)"
proof
  assume "b \<in> set (drop c xs)"
  then obtain i where "i < length xs - c" "xs ! (c + i) = b" by (auto simp: in_set_conv_nth)
  then show "\<exists>i. c \<le> i \<and> i < length xs \<and> xs ! i = b" by (intro exI [of _ "c + i"]) simp
next
  assume "\<exists>i. c \<le> i \<and> i < length xs \<and> xs ! i = b"
  then obtain i where "c \<le> i" "i < length xs" "xs ! i = b" by blast
  then show "b \<in> set (drop c xs)" by (auto simp: in_set_conv_nth intro!: exI [of _ "i - c"])
qed

lemma skip_loop_spec:
  assumes "skip_loop null n bs rem = (bs', rem')" "n \<le> length bs"
  shows "\<exists>k \<le> n. bs' = take k bs @ replicate (n - k) null @ drop n bs \<and> rem' = rem @ rev (take (n - k) (drop k bs)) \<and>
     null \<notin> set (take (n - k) (drop k bs))"
  using assms
proof (induction n arbitrary: bs rem)
  case (Suc i)
  show ?case
  proof (cases "bs ! i = null")
    case True
    then have "bs' = bs" "rem' = rem" using Suc.prems(1) by simp_all
    then show ?thesis by (intro exI [of _ "Suc i"]) simp
  next
    case False
    let ?bs = "bs[i := null]"
    have i: "i < length bs" using Suc.prems(2) by simp
    have "skip_loop null i ?bs (rem @ [bs ! i]) = (bs', rem')" using Suc.prems(1) False by simp
    from Suc.IH [OF this] obtain k where k: "k \<le> i" "bs' = take k ?bs @ replicate (i - k) null @ drop i ?bs"
      "rem' = rem @ [bs ! i] @ rev (take (i - k) (drop k ?bs))" "null \<notin> set (take (i - k) (drop k ?bs))" using i by auto
    have t: "take (i - k) (drop k ?bs) = take (i - k) (drop k bs)" by (simp add: drop_update_swap k(1))
    have d: "take (Suc i - k) (drop k bs) = take (i - k) (drop k bs) @ [bs ! i]"
      using take_Suc_conv_app_nth [of "i - k" "drop k bs"] i k(1) by (simp add: Suc_diff_le)
    have b: "drop i ?bs = null # drop (Suc i) bs" using i by (metis Cons_nth_drop_Suc drop_update_cancel length_list_update lessI nth_list_update_eq)
    have "bs' = take k bs @ replicate (Suc i - k) null @ drop (Suc i) bs"
      using k(1,2) by (simp add: b Suc_diff_le replicate_app_Cons_same)
    then show ?thesis using k(1,3,4) False unfolding t by (intro exI [of _ k]) (simp add: d)
  qed
qed simp

text \<open>A block a request may still write to is in no other request's list.\<close>

lemma fresh_private:
  assumes "kv_ok p m" "enable_caching p" "b \<in> set (drop (cached_upto m rid') (blocks_of m rid'))" "b \<noteq> null_block p" "rid' \<noteq> rid"
  shows "b \<notin> set (blocks_of m rid)"
proof -
  have "0 < count_list (blocks_of m rid') b" using assms(3) by (simp add: count_list_pos in_set_dropD)
  then have "count_list (blocks_of m rid) b = 0"
    using entry_refs_two [OF kv_okD(2) [OF assms(1)] assms(5), of b] kv_fresh [OF assms(1-4)] by (simp add: mgr_refs_def blocks_of_entry)
  then show ?thesis by (simp add: count_list_0_iff)
qed

text \<open>A step keeps blocks private if it leaves alone those it does not hand over.\<close>

lemma fresh_transfer:
  assumes "kv_ok p m" "enable_caching p" "same_frame p p'"
    and "\<And>rid b. b \<in> set (drop (cached_upto m' rid) (blocks_of m' rid)) \<Longrightarrow> b \<noteq> null_block p \<Longrightarrow>
      b \<in> set (drop (cached_upto m rid) (blocks_of m rid)) \<and> block_hash (heap p' b) = block_hash (heap p b) \<and> mgr_refs m' b = mgr_refs m b"
  shows "fresh p' m'"
  unfolding fresh_def
proof (intro allI ballI impI)
  fix rid b assume b: "b \<in> set (drop (cached_upto m' rid) (blocks_of m' rid))" and "b \<noteq> null_block p'"
  then have nn: "b \<noteq> null_block p" using assms(3) by (simp add: same_frame_def)
  show "block_hash (heap p' b) = None \<and> mgr_refs m' b = 1"
    using assms(4) [OF b nn] kv_fresh [OF assms(1,2) conjunct1 [OF assms(4) [OF b nn]] nn] by simp
qed

text \<open>What is left of a list of blocks when a middle part is replaced by the null block.\<close>

lemma skipped_suffix:
  assumes j: "j \<le> n" "n \<le> length bs" and b: "b \<in> set (drop c (take j bs @ replicate (n - j) null @ drop n bs))" "b \<noteq> null"
    and d: "distinct (filter (\<lambda>b. b \<noteq> null) bs)"
  shows "b \<in> set (drop c bs)" "b \<notin> set (take (n - j) (drop j bs))"
proof -
  let ?bs' = "take j bs @ replicate (n - j) null @ drop n bs" and ?f = "filter (\<lambda>b. b \<noteq> null)"
  have l: "length ?bs' = length bs" using j by simp
  obtain i where i: "c \<le> i" "i < length bs" "?bs' ! i = b" using b(1) unfolding nth_drop_index l by blast
  have ij: "i < j \<or> n \<le> i" using i(2,3) b(2) j by (auto simp: nth_append split: if_splits)
  have v: "bs ! i = b" using ij i(3) j by (auto simp: nth_append)
  show "b \<in> set (drop c bs)" using i v by (auto simp: nth_drop_index)
  have "bs = take j bs @ take (n - j) (drop j bs) @ drop n bs"
    using j(1) by (metis append_take_drop_id drop_drop le_add_diff_inverse2)
  then have "distinct (?f (take j bs) @ ?f (take (n - j) (drop j bs)) @ ?f (drop n bs))" using d by (metis filter_append)
  moreover have "b \<in> set (take j bs) \<or> b \<in> set (drop n bs)"
    using ij i(2) v nth_drop_index [of b n bs] j by (auto simp: in_set_conv_nth)
  ultimately show "b \<notin> set (take (n - j) (drop j bs))" using b(2) by auto
qed

lemma drop_skipped:
  assumes k: "kv_ok p m" and s: "skip_loop (null_block p) n (blocks_of m rid) [] = (bs', removed)" "n \<le> length (blocks_of m rid)"
  obtains p' where "free_blocks removed p = Inr p'" "kv_ok p' (m\<lparr>req_to_blocks := od_set rid bs' (req_to_blocks m)\<rparr>)" "same_frame p p'"
    "\<forall>c. block_hash (heap p' c) = block_hash (heap p c)" "get_num_free_blocks p \<le> get_num_free_blocks p'" "length bs' = length (blocks_of m rid)"
proof -
  note D = kv_okD [OF k]
  let ?bs = "blocks_of m rid"
  let ?m = "m\<lparr>req_to_blocks := od_set rid bs' (req_to_blocks m)\<rparr>"
  obtain j where j: "j \<le> n" "bs' = take j ?bs @ replicate (n - j) (null_block p) @ drop n ?bs"
    "removed = rev (take (n - j) (drop j ?bs))" "null_block p \<notin> set (take (n - j) (drop j ?bs))"
    using skip_loop_spec [OF s] by auto
  define mid where "mid = take (n - j) (drop j ?bs)"
  have split: "?bs = take j ?bs @ mid @ drop n ?bs"
    unfolding mid_def using j(1) by (metis append_take_drop_id drop_drop le_add_diff_inverse2)
  have mid: "set mid \<subseteq> set ?bs" "filter (\<lambda>b. b \<noteq> null_block p) mid = mid"
    unfolding mid_def using j(4) by (auto simp: filter_id_conv dest: in_set_takeD in_set_dropD)
  have d3: "distinct (filter (\<lambda>b. b \<noteq> null_block p) (take j ?bs) @ mid @ filter (\<lambda>b. b \<noteq> null_block p) (drop n ?bs))"
    using D(7) [of rid] by (subst (asm) split) (simp add: mid(2))
  have rem: "removed = rev mid" using j(3) by (simp add: mid_def)
  have rd: "distinct (filter (\<lambda>b. b \<noteq> null_block p) removed)" using d3 mid(2) by (simp add: rem rev_filter [symmetric])
  obtain p' where a: "free_blocks removed p = Inr p'" "block_refs_ok p' (\<lambda>b. mgr_refs m b - count_list removed b)" "same_frame p p'"
    "\<forall>c. block_hash (heap p' c) = block_hash (heap p c)"
    by (rule block_refs_ok_release [OF D(1) _ rd]) (use mid(1) D(6) [of rid] held_refs [OF k, of _ rid] in \<open>auto simp: rem\<close>)
  have cnt: "count_list bs' b + count_list mid b = count_list ?bs b" if "b \<noteq> null_block p" for b
    using that by (subst split) (simp add: j(2) count_list_0_iff)
  have refs: "mgr_refs ?m b + count_list mid b = mgr_refs m b" if "b \<noteq> null_block p" for b
    using entry_refs_set [OF D(2), of rid bs' b] cnt [OF that] entry_refs_ge [OF D(2), of rid b] by (simp add: mgr_refs_def blocks_of_entry)
  have fr: "fresh p' ?m" if c: "enable_caching p"
  proof (rule fresh_transfer [OF k c a(3)])
    fix rid' b assume b: "b \<in> set (drop (cached_upto ?m rid') (blocks_of ?m rid'))" and nn: "b \<noteq> null_block p"
    have "b \<in> set (drop (cached_upto m rid') (blocks_of m rid')) \<and> b \<notin> set mid"
    proof (cases "rid' = rid")
      case True
      then have bb: "b \<in> set (drop (cached_upto m rid) bs')" using b by (simp add: blocks_of_entry cached_upto_def)
      show ?thesis using skipped_suffix [OF j(1) s(2) bb [unfolded j(2)] nn D(7)] True by (simp add: mid_def)
    next
      case False
      then have bb: "b \<in> set (drop (cached_upto m rid') (blocks_of m rid'))" using b by (simp add: blocks_of_entry cached_upto_def)
      then show ?thesis using fresh_private [OF k c bb nn False] mid(1) by blast
    qed
    then show "b \<in> set (drop (cached_upto m rid') (blocks_of m rid')) \<and> block_hash (heap p' b) = block_hash (heap p b) \<and> mgr_refs ?m b = mgr_refs m b"
      using a(4) refs [OF nn] by (simp add: count_list_0_iff)
  qed
  have ok: "kv_ok p' ?m"
  proof (rule kv_ok_step [OF k a(3), of "[]" removed bs' rid])
    show "set bs' \<subseteq> set (blocks p)" using D(6) [of rid] block_refs_ok_null [OF D(1)] j(2) by (auto dest: in_set_takeD in_set_dropD)
    show "distinct (filter (\<lambda>b. b \<noteq> null_block p) bs')" using d3 by (auto simp: j(2))
  qed (use a(2) cnt fr D(9) in \<open>auto simp: rem\<close>)
  have "idle p (mgr_refs m) \<subseteq> idle p' (mgr_refs ?m)" using a(3) refs by (force simp: idle_def same_frame_def)
  then have "get_num_free_blocks p \<le> get_num_free_blocks p'" using kv_ok_free [OF k] kv_ok_free [OF ok] by (simp add: card_mono)
  moreover have "length bs' = length ?bs" using s(2) j(1) by (simp add: j(2))
  ultimately show thesis using that [OF a(1) ok a(3,4)] by blast
qed

lemma slice_mem: "0 \<le> nc \<Longrightarrow> b \<in> set (py_slice bs nc nf) \<Longrightarrow> b \<in> set (drop (nat nc) bs)"
  by (auto simp: py_slice_def dest: in_set_takeD)

lemma slice_rest:
  assumes "distinct (filter P bs)" "P b" "0 \<le> nc" "b \<in> set (drop (nat nf) bs)"
  shows "b \<notin> set (py_slice bs nc nf)"
proof
  assume "b \<in> set (py_slice bs nc nf)"
  then have "b \<in> set (take (nat nf) bs)"
    using assms(3) by (cases "nc \<le> nf") (auto simp: py_slice_def take_drop nat_diff_distrib dest: in_set_dropD)
  moreover have "distinct (filter P (take (nat nf) bs) @ filter P (drop (nat nf) bs))"
    using assms(1) by (metis append_take_drop_id filter_append)
  ultimately show False using assms(2,4) by auto
qed

lemma slice_distinct: "distinct (filter P xs) \<Longrightarrow> distinct (filter P (py_slice xs i j))"
proof -
  have "distinct (filter P (drop i xs))" "distinct (filter P (take i xs))" if "distinct (filter P xs)" for i xs
    using that by (metis append_take_drop_id distinct_append filter_append)+
  then show "distinct (filter P xs) \<Longrightarrow> distinct (filter P (py_slice xs i j))" by (simp add: py_slice_def)
qed

definition cached_num :: "st_manager \<Rightarrow> string \<Rightarrow> int" where
  "cached_num m rid = (case od_get (num_cached_block m) rid of None \<Rightarrow> 0 | Some n \<Rightarrow> n)"

lemma enter_hashes:
  assumes k: "kv_ok p m" and c: "enable_caching p" "\<not> enable_kv_cache_events p" and b: "hash_block_size p = st_block_size m"
    and n: "num_tokens div st_block_size m \<le> int (length (block_hashes r))"
  obtains p' m' where "st_cache_blocks sha num_tokens r p m = Inr (r, p', m')" "kv_ok p' m'" "same_frame p p'"
    "blocks_of m' = blocks_of m" "get_num_free_blocks p' = get_num_free_blocks p"
proof -
  note D = kv_okD [OF k]
  define rid nf nc where "rid = request_id r" and "nf = num_tokens div st_block_size m" and "nc = cached_num m (request_id r)"
  have nc: "0 \<le> nc" "nat nc = cached_upto m rid" using D(9) by (auto simp: nc_def rid_def cached_num_def cached_upto_def split: option.splits)
  show thesis
  proof (cases "nf \<le> nc")
    case True
    then have "st_cache_blocks sha num_tokens r p m = Inr (r, p, m)" by (simp add: st_cache_blocks_def nf_def nc_def cached_num_def)
    then show thesis using that [of p m] k by simp
  next
    case False
    let ?s = "py_slice (blocks_of m rid) nc nf"
    have dl: "set ?s \<subseteq> set (drop (cached_upto m rid) (blocks_of m rid))" using slice_mem [OF nc(1)] nc(2) by auto
    have ds: "distinct (filter (\<lambda>b. b \<noteq> null_block p) ?s)" by (rule slice_distinct [OF D(7)])
    have us: "\<forall>b \<in> set ?s. b \<noteq> null_block p \<longrightarrow> block_hash (heap p b) = None" using kv_fresh [OF k c(1), of _ rid] dl by blast
    have nh: "nf \<le> int (length (block_hashes r))" using n by (simp add: nf_def)
    obtain p' where a: "cache_full_blocks sha r (blocks_of m rid) nc nf (hash_block_size p) (st_group m) p = Inr (r, p')"
      "block_refs_ok p' (mgr_refs m)" "same_frame p p'" "\<forall>b. b \<notin> set ?s \<longrightarrow> block_hash (heap p' b) = block_hash (heap p b)"
      by (rule block_refs_ok_cache [OF D(1) c(2) D(6) nc(1) nh conjunct1 [OF D(4)] conjunct2 [OF D(4)] ds us]) blast
    define m' where "m' = m\<lparr>req_to_blocks := od_set rid (blocks_of m rid) (req_to_blocks m), num_cached_block := od_set rid nf (num_cached_block m)\<rparr>"
    have st: "st_cache_blocks sha num_tokens r p m = Inr (r, p', m')"
      using a(1) False unfolding b by (simp add: st_cache_blocks_def nf_def nc_def rid_def cached_num_def m'_def Let_def)
    have bo: "blocks_of m' = blocks_of m" by (rule ext) (simp add: m'_def blocks_of_entry)
    have refs: "mgr_refs m' = mgr_refs m"
      using entry_refs_set [OF D(2), of rid "blocks_of m rid"] by (intro ext) (simp add: m'_def mgr_refs_def blocks_of_entry)
    have "fresh p' m'"
    proof (rule fresh_transfer [OF k c(1) a(3)])
      fix rid' b assume b: "b \<in> set (drop (cached_upto m' rid') (blocks_of m' rid'))" and nn: "b \<noteq> null_block p"
      have "b \<in> set (drop (cached_upto m rid') (blocks_of m rid')) \<and> b \<notin> set ?s"
      proof (cases "rid' = rid")
        case True
        then have bb: "b \<in> set (drop (nat nf) (blocks_of m rid))" using b unfolding bo by (simp add: m'_def cached_upto_def od_simps)
        have "cached_upto m rid \<le> nat nf" using \<open>\<not> nf \<le> nc\<close> by (simp flip: nc(2))
        then have "b \<in> set (drop (cached_upto m rid) (blocks_of m rid))"
          using bb set_drop_subset_set_drop [of "cached_upto m rid" "nat nf" "blocks_of m rid"] by blast
        then show ?thesis using slice_rest [OF D(7) _ nc(1) bb] nn True by simp
      next
        case False
        then have bb: "b \<in> set (drop (cached_upto m rid') (blocks_of m rid'))" using b unfolding bo by (simp add: m'_def cached_upto_def od_simps)
        then show ?thesis using fresh_private [OF k c(1) bb nn False] dl by (auto dest: in_set_dropD)
      qed
      then show "b \<in> set (drop (cached_upto m rid') (blocks_of m rid')) \<and> block_hash (heap p' b) = block_hash (heap p b) \<and> mgr_refs m' b = mgr_refs m b"
        using a(4) refs by simp
    qed
    then have "kv_ok p' m'"
      using a(2,3) D(2-7,9) nc(1) False unfolding kv_ok_def st_ok_def refs bo
      by (auto simp: m'_def same_frame_def od_simps split: if_splits)
    moreover have "get_num_free_blocks p' = get_num_free_blocks p"
      using block_refs_ok_free [OF a(2)] block_refs_ok_free [OF D(1)] a(3) by (simp add: idle_def same_frame_def)
    ultimately show thesis using that [OF st _ a(3) bo] by blast
  qed
qed

section \<open>The decision and the allocation\<close>

lemma le_div_int: "0 < b \<Longrightarrow> q \<le> x div b \<longleftrightarrow> q * b \<le> (x :: int)"
proof
  assume b: "0 < b"
  assume "q \<le> x div b"
  then have "q * b \<le> x div b * b" using b by (intro mult_right_mono) simp_all
  also have "\<dots> \<le> x" using pos_mod_sign [OF b, of x] div_mult_mod_eq [of x b] by linarith
  finally show "q * b \<le> x" .
next
  assume b: "0 < b" and "q * b \<le> x"
  then have "q * b div b \<le> x div b" by (intro zdiv_mono1) simp_all
  then show "q \<le> x div b" using b by simp
qed

lemma cdiv_le: "0 < b \<Longrightarrow> cdiv_int a b \<le> n \<longleftrightarrow> a \<le> n * b"
  using le_div_int [of b "- n" "- a"] by (simp add: cdiv_int_def div_minus_right) linarith

lemma cdiv_mono: "0 < b \<Longrightarrow> a \<le> a' \<Longrightarrow> cdiv_int a b \<le> cdiv_int a' b"
  using cdiv_le [of b a "cdiv_int a' b"] cdiv_le [of b a' "cdiv_int a' b"] by linarith

lemma le_cdiv: "0 < b \<Longrightarrow> n * b \<le> a \<Longrightarrow> n \<le> cdiv_int a b"
  using cdiv_le [of b "n * b" "cdiv_int a b"] cdiv_le [of b a "cdiv_int a b"] cdiv_le [of b "n * b" "cdiv_int a b"]
  by (smt (verit, best) mult_right_le_imp_le)

definition spec_ok :: "st_manager \<Rightarrow> bool" where
  "spec_ok m = (case spec_kind (st_spec m) of SlidingWindow w \<Rightarrow> 0 < w | ChunkedLocal c \<Rightarrow> 0 < c | _ \<Rightarrow> True)"

lemma skipped_bounds: "spec_ok m \<Longrightarrow> 0 \<le> n \<Longrightarrow> 0 \<le> get_num_skipped_tokens m n \<and> get_num_skipped_tokens m n \<le> n"
  using le_div_int [of _ "n div _" n]
  by (cases "spec_kind (st_spec m)") (auto simp: spec_ok_def get_num_skipped_tokens_def window_skipped_tokens_def chunk_skipped_tokens_def max_def pos_imp_zdiv_nonneg_iff)

text \<open>What no operation for one request changes in a manager.\<close>

definition kept :: "string \<Rightarrow> st_manager \<Rightarrow> st_manager \<Rightarrow> bool" where
  "kept rid m m' \<longleftrightarrow> st_spec m' = st_spec m \<and> st_block_size m' = st_block_size m \<and> st_group m' = st_group m \<and>
     st_caching m' = st_caching m \<and> (\<forall>rid'. rid' \<noteq> rid \<longrightarrow> blocks_of m' rid' = blocks_of m rid')"

lemma kept_refl [simp]: "kept rid m m"
  by (simp add: kept_def)

lemma kept_trans: "kept rid m m' \<Longrightarrow> kept rid m' m'' \<Longrightarrow> kept rid m m''"
  by (simp add: kept_def)

lemma kept_spec_ok: "kept rid m m' \<Longrightarrow> spec_ok m' = spec_ok m"
  by (simp add: kept_def spec_ok_def)

lemma kept_add [simp]: "kept rid m (add_blocks rid bs p m)"
  by (simp add: kept_def)

lemma kept_hits [simp]: "kept rid m (with_hits rid bs m)"
  by (simp add: kept_def with_hits_def blocks_of_entry)

lemma kept_skipped: "kept rid m (m\<lparr>req_to_blocks := od_set rid bs (req_to_blocks m)\<rparr>)"
  by (simp add: kept_def blocks_of_entry)

lemma new_phase:
  assumes k: "kv_ok p m" and n: "cdiv_int need (st_block_size m) - int (length (blocks_of m rid)) \<le> get_num_free_blocks p"
  obtains bs p' m' where "allocate_new_blocks rid need p m = Inr (bs, p', m')" "kv_ok p' m'" "same_frame p p'" "kept rid m m'"
    "blocks_of m' rid = blocks_of m rid @ bs" "need \<le> int (length (blocks_of m' rid)) * st_block_size m"
    "int (length bs) = max 0 (cdiv_int need (st_block_size m) - int (length (blocks_of m rid)))"
proof (cases "cdiv_int need (st_block_size m) - int (length (blocks_of m rid)) \<le> 0")
  case True
  let ?m = "m\<lparr>req_to_blocks := od_set rid (blocks_of m rid) (req_to_blocks m)\<rparr>"
  note D = kv_okD [OF k]
  have bo: "blocks_of ?m = blocks_of m" by (rule ext) (simp add: blocks_of_entry)
  have refs: "mgr_refs ?m = mgr_refs m"
    using entry_refs_set [OF D(2), of rid "blocks_of m rid"] by (intro ext) (simp add: mgr_refs_def blocks_of_entry)
  have "kv_ok p ?m" using k D(2) unfolding kv_ok_def st_ok_def fresh_def bo refs by (simp add: cached_upto_def)
  moreover have "allocate_new_blocks rid need p m = Inr ([], p, ?m)" using True by (simp add: allocate_new_blocks_def)
  moreover have "need \<le> int (length (blocks_of m rid)) * st_block_size m"
    using cdiv_le [OF D(3), of need "int (length (blocks_of m rid))"] True by simp
  ultimately show thesis using that [of "[]" p ?m] True bo by (simp add: kept_skipped)
next
  case False
  let ?n = "cdiv_int need (st_block_size m) - int (length (blocks_of m rid))"
  obtain bs p' where a: "get_new_blocks ?n p = Inr (bs, p')" "kv_ok p' (add_blocks rid bs p' m)" "same_frame p p'" "int (length bs) = ?n"
    using append_new_blocks [OF k _ n, of rid] False by (metis linorder_le_cases)
  have "cdiv_int need (st_block_size m) \<le> int (length (blocks_of m rid @ bs))" using a(4) by simp
  then have "need \<le> int (length (blocks_of m rid @ bs)) * st_block_size m" using cdiv_le [OF kv_okD(3) [OF k]] by blast
  then show thesis using that [of bs p' "add_blocks rid bs p' m"] a False by (simp add: allocate_new_blocks_def)
qed

lemma computed_phase:
  assumes k: "kv_ok p m" "spec_ok m" and new: "blocks_of m rid = []" "od_get (num_cached_block m) rid = None"
    and c: "set c \<subseteq> set (blocks p)" "distinct (filter (\<lambda>b. b \<noteq> null_block p) c)"
      "\<And>b. b \<in> set c \<Longrightarrow> b \<noteq> null_block p \<Longrightarrow> block_hash (heap p b) \<noteq> None" "enable_caching p \<or> c = []"
    and t: "loc = int (length c) * st_block_size m" "0 \<le> ext" "loc + ext \<le> need"
    and g: "get_num_blocks_to_allocate rid need c (loc + ext) False p m = Inr n" "n \<le> get_num_free_blocks p"
  obtains p' m' where "allocate_new_computed_blocks rid c loc ext p m = Inr (p', m')" "kv_ok p' m'" "same_frame p p'" "kept rid m m'"
    "cdiv_int need (st_block_size m) - int (length (blocks_of m' rid)) \<le> get_num_free_blocks p'"
proof -
  note D = kv_okD [OF k(1)]
  define sk s c' where "sk = get_num_skipped_tokens m (loc + ext)" and "s = sk div st_block_size m" and "c' = drop (nat s) c"
  have sk: "0 \<le> sk" "sk \<le> loc + ext" using skipped_bounds [OF k(2), of "loc + ext"] t(1,2) D(3) by (auto simp: sk_def)
  have s: "0 \<le> s" "s * st_block_size m \<le> sk" using sk(1) D(3) le_div_int [OF D(3), of s sk] by (simp_all add: s_def pos_imp_zdiv_nonneg_iff)
  have c'': "(if 0 < s then drop (nat s) c else c) = c'" using s(1) by (auto simp: c'_def)
  have sub: "set c' \<subseteq> set c" by (simp add: c'_def set_drop_subset)
  have dc: "distinct (filter (\<lambda>b. b \<noteq> null_block p) c')"
    using c(2) unfolding c'_def by (metis append_take_drop_id distinct_append filter_append)
  have sc: "set c' \<subseteq> set (blocks p)" using sub c(1) by blast
  have hc: "\<And>b. b \<in> set c' \<Longrightarrow> b \<noteq> null_block p \<Longrightarrow> block_hash (heap p b) \<noteq> None" using sub c(3) by blast
  define bs where "bs = replicate (nat s) (null_block p) @ c'"
  have L: "int (length bs) = max s (int (length c))" using s(1) by (simp add: bs_def c'_def)
  obtain p1 where a: "touch c' p = Inr p1" "kv_ok p1 (with_hits rid bs m)" "same_frame p p1"
    "get_num_free_blocks p1 = get_num_free_blocks p - get_num_evictable_blocks p c'"
    unfolding bs_def by (rule take_hits [OF k(1) sc dc hc new(1)])
  have gate: "n = max (cdiv_int need (st_block_size m) - max s (int (length c))) 0 + get_num_evictable_blocks p c'"
    using g(1) new s(1) by (simp add: get_num_blocks_to_allocate_def Let_def sk_def s_def c'_def split: option.splits)
  then have fits: "cdiv_int need (st_block_size m) - int (length bs) \<le> get_num_free_blocks p1"
    using g(2) a(4) L by simp
  have touched: "(if st_caching m then touch c' p else if c' \<noteq> [] then Inl AssertionError else Inr p) = Inr p1"
    using a(1) c(4) sub D(5) by (auto simp: touch_def)
  define ext' where "ext' = (if 0 < s then min (loc + ext - sk) ext else ext)"
  have step: "allocate_new_computed_blocks rid c loc ext p m =
     (if 0 < ext' then res_bind (get_new_blocks (cdiv_int (loc + ext) (st_block_size m) - int (length bs)) p1)
        (\<lambda>(nb, p2). Inr (p2, add_blocks rid nb p2 (with_hits rid bs m)))
      else Inr (p1, with_hits rid bs m))"
    using new touched unfolding allocate_new_computed_blocks_def Let_def sk_def [symmetric] s_def [symmetric] c'' ext'_def [symmetric]
    by (simp add: bs_def with_hits_def)
  have bo: "blocks_of (with_hits rid bs m) rid = bs" by (simp add: with_hits_def blocks_of_entry)
  show thesis
  proof (cases "0 < ext'")
    case False
    then show thesis using that [of p1 "with_hits rid bs m"] step a fits by (simp add: bo)
  next
    case True
    let ?n = "cdiv_int (loc + ext) (st_block_size m) - int (length bs)"
    have "s \<le> cdiv_int (loc + ext) (st_block_size m)" using le_cdiv [OF D(3), of s "loc + ext"] s(2) sk(2) by linarith
    moreover have "int (length c) \<le> cdiv_int (loc + ext) (st_block_size m)" using le_cdiv [OF D(3), of "int (length c)" "loc + ext"] t(1,2) by simp
    ultimately have n0: "0 \<le> ?n" using L by simp
    have mono: "cdiv_int (loc + ext) (st_block_size m) \<le> cdiv_int need (st_block_size m)" using cdiv_mono [OF D(3) t(3)] .
    then have n1: "?n \<le> get_num_free_blocks p1" using fits by linarith
    obtain nb p2 where b: "get_new_blocks ?n p1 = Inr (nb, p2)" "kv_ok p2 (add_blocks rid nb p2 (with_hits rid bs m))" "same_frame p1 p2"
      "int (length nb) = ?n" "get_num_free_blocks p2 = get_num_free_blocks p1 - ?n"
      by (rule append_new_blocks [OF a(2) n0 n1])
    have "kept rid m (add_blocks rid nb p2 (with_hits rid bs m))" by (rule kept_trans [OF kept_hits kept_add])
    moreover have "cdiv_int need (st_block_size m) - int (length (bs @ nb)) \<le> get_num_free_blocks p2" using b(4,5) fits by simp
    ultimately show thesis using that [of p2 "add_blocks rid nb p2 (with_hits rid bs m)"] step b True same_frame_trans [OF a(3) b(3)] by (simp add: bo)
  qed
qed

section \<open>Prefix hits\<close>

text \<open>The block a lookup in group 0 finds.\<close>

definition carries :: "BlockPool \<Rightarrow> bytes \<Rightarrow> node \<Rightarrow> bool" where
  "carries p h b \<longleftrightarrow> b \<in> set (blocks p) \<and> b \<noteq> null_block p \<and>
     (\<exists>key. make_block_hash_with_group_id h 0 = Inr key \<and> block_hash (heap p b) = Some key)"

lemma lookup_cases:
  assumes "block_refs_ok p R"
  obtains (miss) "lookup p [0] h = Inr None" "\<nexists>b. carries p h b" | (hit) b where "lookup p [0] h = Inr (Some [b])" "carries p h b"
proof -
  obtain xs where x: "pool_at p xs {}" by (rule block_refs_ok_list [OF assms])
  obtain r where r: "get_cached_block h [0] p = Inr r"
    "case r of None \<Rightarrow> \<exists>g \<in> set [0]. \<forall>b \<in> set (blocks p). \<forall>key. make_block_hash_with_group_id h g = Inr key \<longrightarrow> block_hash (heap p b) \<noteq> Some key
     | Some bs \<Rightarrow> list_all2 (\<lambda>g b. b \<in> set (blocks p) \<and> b \<noteq> null_block p \<and>
          (\<exists>key. make_block_hash_with_group_id h g = Inr key \<and> block_hash (heap p b) = Some key)) [0] bs"
    using get_cached_block_spec [OF x, of "[0]" h] by auto
  show thesis
  proof (cases r)
    case None
    then show thesis using r miss by (auto simp: lookup_def carries_def simp del: get_cached_block.simps)
  next
    case (Some bs)
    then obtain b where "bs = [b]" "carries p h b" using r(2) by (auto simp: list_all2_Cons1 carries_def)
    then show thesis using r(1) Some hit [of b] by (simp add: lookup_def del: get_cached_block.simps)
  qed
qed

lemma hits_ok_iff: "hits_ok p 0 hs c \<longleftrightarrow> (\<forall>j < length c. c ! j \<noteq> null_block p \<longrightarrow> j < length hs \<and> carries p (hs ! j) (c ! j))"
  by (auto simp: hits_ok_def carries_def)

lemma hits_ok_take: "hits_ok p 0 hs c \<Longrightarrow> hits_ok p 0 hs (take k c)"
  by (simp add: hits_ok_iff)

lemma hits_ok_snoc: "hits_ok p 0 hs c \<Longrightarrow> length c < length hs \<Longrightarrow> carries p (hs ! length c) b \<Longrightarrow> hits_ok p 0 hs (c @ [b])"
  by (auto simp: hits_ok_iff nth_append less_Suc_eq)

lemma pop_align_prefix: "\<exists>k. pop_align bs al n [c] = [take k c]"
proof (induction n arbitrary: c)
  case (Suc n)
  from Suc [of "butlast c"] obtain k where "pop_align bs al n [butlast c] = [take k (butlast c)]" by blast
  then have "pop_align bs al n [butlast c] = [take (min k (length c - 1)) c]" by (simp add: butlast_conv_take)
  moreover have "c = take (length c) c" by simp
  ultimately show ?case by (cases "bs \<noteq> al \<and> int (length c) * bs mod al \<noteq> 0") (auto intro: exI [of _ "length c"])
next
  case 0
  show ?case by (intro exI [of _ "length c"]) simp
qed

text \<open>Full attention finds exactly the longest run of cached hashes.\<close>

lemma extend_hits_spec:
  assumes "block_refs_ok p R"
  shows "\<exists>c. extend_hits p [0] hs [acc] = Inr [acc @ c] \<and> length c \<le> length hs \<and> (\<forall>j < length c. carries p (hs ! j) (c ! j)) \<and>
     (length c < length hs \<longrightarrow> (\<nexists>b. carries p (hs ! length c) b))"
proof (induction hs arbitrary: acc)
  case (Cons h hs)
  show ?case
  proof (cases rule: lookup_cases [OF assms, of h])
    case 1
    then show ?thesis by (intro exI [of _ "[]"]) simp
  next
    case (2 b)
    from Cons [of "acc @ [b]"] obtain c where c: "extend_hits p [0] hs [acc @ [b]] = Inr [(acc @ [b]) @ c]" "length c \<le> length hs"
      "\<forall>j < length c. carries p (hs ! j) (c ! j)" "length c < length hs \<longrightarrow> (\<nexists>b. carries p (hs ! length c) b)" by blast
    then show ?thesis using 2 by (intro exI [of _ "b # c"]) (auto simp: nth_Cons split: nat.splits)
  qed
qed simp

lemma window_hits_ok:
  assumes "block_refs_ok p R"
  shows "window_hits p [0] hs bs al e need i [c] n = Inr (r, n', f) \<Longrightarrow> hits_ok p 0 hs c \<Longrightarrow> \<exists>c'. r = [c'] \<and> hits_ok p 0 hs c'"
proof (induction i arbitrary: c n)
  case (Suc i)
  from Suc.prems(1) have i: "i < length hs" and h: "py_nth hs (int i) = Inr (hs ! i)"
    by (auto simp: py_nth_def res_simps split: if_splits)
  show ?case
  proof (cases rule: lookup_cases [OF assms, of "hs ! i"])
    case 1
    then show ?thesis using Suc.IH [of c 0] Suc.prems h by simp
  next
    case (2 b)
    have ok: "hits_ok p 0 hs (c[i := b])"
      unfolding hits_ok_iff
    proof (intro allI impI)
      fix j assume j: "j < length (c[i := b])" "c[i := b] ! j \<noteq> null_block p"
      show "j < length hs \<and> carries p (hs ! j) (c[i := b] ! j)"
        using j Suc.prems(2) 2(2) i by (cases "j = i") (auto simp: hits_ok_iff)
    qed
    show ?thesis
      using Suc.prems 2 h Suc.IH [OF _ Suc.prems(2), of n] Suc.IH [OF _ ok, of "Suc n"] hits_ok_take [OF ok, of "i + Suc n"]
      by (auto simp: Let_def split: if_splits)
  qed
qed auto

lemma chunk_hits_ok:
  assumes "block_refs_ok p R"
  shows "chunk_hits p [0] hs [a..<b] [c] = Inr r \<Longrightarrow> hits_ok p 0 hs c \<Longrightarrow> length c = a \<Longrightarrow> \<exists>c'. r = [c'] \<and> hits_ok p 0 hs c'"
proof (induction "b - a" arbitrary: a c)
  case (Suc d)
  then have ab: "[a..<b] = a # [Suc a..<b]" by (simp add: upt_conv_Cons)
  from Suc.prems(1) have i: "a < length hs" and h: "py_nth hs (int a) = Inr (hs ! a)"
    unfolding ab by (auto simp: py_nth_def res_simps split: if_splits)
  show ?case
  proof (cases rule: lookup_cases [OF assms, of "hs ! a"])
    case 1
    then show ?thesis using Suc.prems h unfolding ab by (intro exI [of _ c]) simp
  next
    case (2 x)
    have "hits_ok p 0 hs (c @ [x])" using hits_ok_snoc [OF Suc.prems(2), of x] Suc.prems(3) 2(2) i by simp
    then show ?thesis using Suc.hyps(1) [of "Suc a" "c @ [x]"] Suc.hyps(2) Suc.prems 2 h unfolding ab by simp
  qed
qed auto

lemma hits_ok_nulls: "hits_ok p 0 hs (replicate n (null_block p))"
  by (simp add: hits_ok_iff)

lemma find_hits_ok:
  assumes "block_refs_ok p R" "st_find_longest_cache_hit hs len [0] p spec e al dcp pcp = Inr r"
  shows "\<exists>c. r = [c] \<and> hits_ok p 0 hs c"
proof -
  note W = window_hits_ok [OF assms(1)] and C = chunk_hits_ok [OF assms(1)] and N = hits_ok_nulls and T = hits_ok_take
  have full: "\<exists>c. r = [c] \<and> hits_ok p 0 hs c" if f: "full_longest_hit hs len [0] p spec e al dcp pcp = Inr r"
  proof -
    let ?n = "nat (len div world_block_size spec dcp pcp)"
    obtain c where c: "extend_hits p [0] (take ?n hs) [[]] = Inr [c]" "length c \<le> length (take ?n hs)"
      "\<forall>j < length c. carries p (take ?n hs ! j) (c ! j)" using extend_hits_spec [OF assms(1), of "take ?n hs" "[]"] by auto
    have ok: "hits_ok p 0 hs c" using c(2,3) by (auto simp: hits_ok_iff)
    have "\<exists>k. r = [take k c]"
      using f c(1) pop_align_prefix [of "world_block_size spec dcp pcp" al _ "butlast c"] pop_align_prefix [of "world_block_size spec dcp pcp" al _ c]
      by (fastforce simp: full_longest_hit_def Let_def butlast_conv_take split: if_splits)
    then show ?thesis using T [OF ok] by blast
  qed
  have window: "\<exists>c. r = [c] \<and> hits_ok p 0 hs c" if w: "window_longest_hit hs len [0] p spec win e al dcp pcp = Inr r" for win
  proof -
    let ?bs = "spec_block_size spec"
    obtain c n f where c: "window_hits p [0] hs ?bs al e (cdiv_int (win - 1) ?bs + (if e then 1 else 0)) (nat (len div ?bs))
        [replicate (nat (len div ?bs)) (null_block p)] 0 = Inr (c, n, f)"
      using w by (auto simp: window_longest_hit_def Let_def res_simps split: if_splits)
    obtain c' where c': "c = [c']" "hits_ok p 0 hs c'" using W [OF c N] by blast
    define c1 where "c1 = (if f then c' else hd (pop_align ?bs al (length (take n c')) [take n c']))"
    obtain k where "pop_align ?bs al (length (take n c')) [take n c'] = [take k (take n c')]" using pop_align_prefix by blast
    then have c1: "hits_ok p 0 hs c1" "(if f then c else let c' = map (take n) c in pop_align ?bs al (length (hd c')) c') = [c1]"
      using T c' by (auto simp: c1_def Let_def)
    obtain k' where "pop_align ?bs al (length (butlast c1)) [butlast c1] = [take k' (butlast c1)]" using pop_align_prefix by blast
    then have "r = [c1] \<or> r = [take k' (take (length c1 - 1) c1)]"
      using w c c'(1) c1(2) by (auto simp: window_longest_hit_def Let_def butlast_conv_take split: if_splits)
    then show ?thesis using T [OF T [OF c1(1)]] c1(1) by blast
  qed
  have chunk: "\<exists>c. r = [c] \<and> hits_ok p 0 hs c" if h: "chunk_longest_hit hs len [0] p spec ch e al dcp pcp = Inr r" for ch
  proof -
    define start where "start = (if 0 < len then len div ch * ch else 0) div spec_block_size spec"
    have "chunk_hits p [0] hs [nat start..<nat (len div spec_block_size spec)] [replicate (nat start) (null_block p)] = Inr r"
      using h by (auto simp: chunk_longest_hit_def Let_def start_def split: if_splits)
    from C [OF this N] show ?thesis by simp
  qed
  show ?thesis using assms(2) full window chunk by (auto simp: st_find_longest_cache_hit_def split: attn_kind.splits)
qed

end
