(* ===== verification/Kv_Safety.thy ===== *)
theory Kv_Safety
  imports Kv_Blocks
begin

text \<open>
  Correctness of the KV cache manager with one group of layers: what the requests hold is what the pool counts,
  prefix hits are the longest cached prefix, and allocation never fails once the manager has decided that the
  blocks suffice.
\<close>

section \<open>The manager with one group\<close>

definition km_ok :: "KVCacheManager \<Rightarrow> st_manager \<Rightarrow> bool" where
  "km_ok k m \<longleftrightarrow> (let p = co_pool (km_co k) in
     co_managers (km_co k) = [m] \<and> kv_ok p m \<and> spec_ok m \<and> \<not> enable_kv_cache_events p \<and> km_caching k = enable_caching p \<and>
     (km_caching k \<longrightarrow> hash_block_size p = st_block_size m \<and> co_block_size (km_co k) = st_block_size m \<and> co_unitary (km_co k) \<and>
        co_spec (km_co k) = st_spec m \<and> world_block_size (st_spec m) (co_dcp (km_co k)) (co_pcp (km_co k)) = st_block_size m))"

lemma km_okD:
  assumes "km_ok k m"
  shows "co_managers (km_co k) = [m]" "kv_ok (co_pool (km_co k)) m" "spec_ok m" "\<not> enable_kv_cache_events (co_pool (km_co k))"
    "km_caching k = enable_caching (co_pool (km_co k))"
    "km_caching k \<Longrightarrow> hash_block_size (co_pool (km_co k)) = st_block_size m \<and> co_block_size (km_co k) = st_block_size m"
    "km_caching k \<Longrightarrow> co_unitary (km_co k) \<and> co_spec (km_co k) = st_spec m \<and>
       world_block_size (st_spec m) (co_dcp (km_co k)) (co_pcp (km_co k)) = st_block_size m"
  using assms by (auto simp: km_ok_def Let_def)

abbreviation set_co :: "BlockPool \<Rightarrow> st_manager \<Rightarrow> KVCacheCoordinator \<Rightarrow> KVCacheCoordinator" where
  "set_co p m co \<equiv> co\<lparr>co_pool := p, co_managers := [m]\<rparr>"

lemma each_single: "each_manager f i [m] s = res_bind (f i s m) (\<lambda>(y, s', m'). Inr ([y], s', [m']))"
  by (cases "f i s m") (auto split: prod.splits)

lemma co_single_skip:
  "co_managers co = [m] \<Longrightarrow>
   co_remove_skipped_blocks rid t co = res_bind (st_remove_skipped_blocks rid t (co_pool co) m) (\<lambda>(p, m'). Inr (set_co p m' co))"
  by (cases "st_remove_skipped_blocks rid t (co_pool co) m") (auto simp: co_remove_skipped_blocks_def co_run_def co_update_def each_single simp del: each_manager.simps)

lemma co_single_free:
  "co_managers co = [m] \<Longrightarrow> co_free rid co = res_bind (st_free rid (co_pool co) m) (\<lambda>(p, m'). Inr (set_co p m' co))"
  by (cases "st_free rid (co_pool co) m") (auto simp: co_free_def co_run_def co_update_def each_single simp del: each_manager.simps)

lemma co_single_new:
  "co_managers co = [m] \<Longrightarrow>
   co_allocate_new_blocks rid n co = res_bind (allocate_new_blocks rid n (co_pool co) m) (\<lambda>(bs, p, m'). Inr ([bs], set_co p m' co))"
  by (cases "allocate_new_blocks rid n (co_pool co) m") (auto simp: co_allocate_new_blocks_def co_run_def co_update_def each_single simp del: each_manager.simps)

lemma co_single_computed:
  "co_managers co = [m] \<Longrightarrow> co_allocate_new_computed_blocks rid [c] l e co =
     res_bind (allocate_new_computed_blocks rid c l e (co_pool co) m) (\<lambda>(p, m'). Inr (set_co p m' co))"
  using py_nth_in [of 0 "[c]"]
  by (cases "allocate_new_computed_blocks rid c l e (co_pool co) m")
    (auto simp: co_allocate_new_computed_blocks_def co_run_def co_update_def each_single simp del: each_manager.simps)

lemma co_single_cache:
  "co_managers co = [m] \<Longrightarrow>
   co_cache_blocks sha n r co = res_bind (st_cache_blocks sha n r (co_pool co) m) (\<lambda>(r', p, m'). Inr (r', set_co p m' co))"
  by (cases "st_cache_blocks sha n r (co_pool co) m") (auto simp: co_cache_blocks_def each_single simp del: each_manager.simps)

lemma co_single_gate: "co_get_num_blocks_to_allocate rid n [c] t cap p 0 [m] = get_num_blocks_to_allocate rid n c t cap p m"
  using py_nth_in [of 0 "[c]"] by (cases "get_num_blocks_to_allocate rid n c t cap p m") auto

lemmas co_single = co_single_skip co_single_free co_single_new co_single_computed co_single_cache co_single_gate

lemma km_ok_step:
  "km_ok k m \<Longrightarrow> kv_ok p m' \<Longrightarrow> same_frame (co_pool (km_co k)) p \<Longrightarrow> kept rid m m' \<Longrightarrow> km_ok (k\<lparr>km_co := set_co p m' (km_co k)\<rparr>) m'"
  using kept_spec_ok [of rid m m'] by (auto simp: km_ok_def Let_def same_frame_def kept_def)

lemma skipped_phase:
  assumes k: "kv_ok p m"  and s: "spec_ok m" and t: "0 \<le> t"
  obtains p' m' where "st_remove_skipped_blocks rid t p m = Inr (p', m')" "kv_ok p' m'" "same_frame p p'" "kept rid m m'"
    "\<forall>c. block_hash (heap p' c) = block_hash (heap p c)" "get_num_free_blocks p \<le> get_num_free_blocks p'"
    "length (blocks_of m' rid) = length (blocks_of m rid)" "num_cached_block m' = num_cached_block m"
proof (cases "get_num_skipped_tokens m t \<le> 0")
  case True
  then have "st_remove_skipped_blocks rid t p m = Inr (p, m)" by (simp add: st_remove_skipped_blocks_def)
  then show thesis using that [of p m] k by simp
next
  case False
  let ?bs = "blocks_of m rid"
  let ?n = "nat (min (get_num_skipped_tokens m t div st_block_size m) (int (length ?bs)))"
  obtain bs' rm where sl: "skip_loop (null_block p) ?n ?bs [] = (bs', rm)" by (metis surj_pair)
  obtain p' where a: "free_blocks rm p = Inr p'" "kv_ok p' (m\<lparr>req_to_blocks := od_set rid bs' (req_to_blocks m)\<rparr>)" "same_frame p p'"
    "\<forall>c. block_hash (heap p' c) = block_hash (heap p c)" "get_num_free_blocks p \<le> get_num_free_blocks p'" "length bs' = length ?bs"
    by (rule drop_skipped [OF k sl]) simp
  have "st_remove_skipped_blocks rid t p m = Inr (p', m\<lparr>req_to_blocks := od_set rid bs' (req_to_blocks m)\<rparr>)"
    using False sl a(1) by (simp add: st_remove_skipped_blocks_def Let_def)
  then show thesis using that [OF _ a(2,3) kept_skipped a(4,5)] a(6) by (simp add: blocks_of_entry)
qed

text \<open>
  What the scheduler promises: a running request has blocks for its computed tokens and brings nothing else; a
  new one has no blocks and brings what the manager found for it, and possibly tokens from a connector.
\<close>

definition slot_contract :: "KVCacheManager \<Rightarrow> st_manager \<Rightarrow> kv_request \<Rightarrow> slot_args \<Rightarrow> bool" where
  "slot_contract k m r a \<longleftrightarrow>
     (let rid = request_id (kr_request r); ext = sa_num_external_computed_tokens a; hit = sa_num_new_computed_tokens a;
          hashes = block_hashes (kr_request r) in
      0 \<le> sa_num_new_tokens a \<and> 0 \<le> sa_num_lookahead_tokens a \<and> 0 \<le> ext \<and> 0 \<le> kr_num_computed_tokens r \<and>
      (sa_num_new_tokens a \<noteq> 0 \<or> ext \<noteq> 0) \<and> kr_num_computed_tokens r + hit + ext \<le> km_max_model_len k \<and>
      (km_caching k \<longrightarrow> distinct hashes \<and> kr_num_tokens r div st_block_size m \<le> int (length hashes)) \<and>
      (sa_computed a = EmptyBlocks \<and> ext = 0 \<and> hit = 0 \<and>
         kr_num_computed_tokens r \<le> int (length (blocks_of m rid)) * st_block_size m \<or>
       kr_num_computed_tokens r = 0 \<and> blocks_of m rid = [] \<and> od_get (num_cached_block m) rid = None \<and>
         map_sum id fst (get_computed_blocks r k) = Inr (sa_computed a, hit)))"

lemma computed_blocks_ok:
  assumes k: "km_ok k m" and g: "get_computed_blocks r k = Inr ((b, n), k')"
  shows "\<exists>c. kv_blocks k b = [c] \<and> hits_ok (co_pool (km_co k)) 0 (block_hashes (kr_request r)) c \<and> n = int (length c) * st_block_size m \<and>
     (km_caching k \<or> c = []) \<and> (b = EmptyBlocks \<longrightarrow> c = [])"
proof -
  note D = km_okD [OF k]
  have e: "kv_blocks k EmptyBlocks = [[]]" by (simp add: kv_blocks_def D(1))
  have nil: "hits_ok (co_pool (km_co k)) 0 (block_hashes (kr_request r)) []" by (simp add: hits_ok_iff)
  consider "b = EmptyBlocks" "n = 0" | bs where "km_caching k" "co_find_longest_cache_hit (block_hashes (kr_request r)) (kr_num_tokens r - 1) (km_co k) = Inr (bs, n)"
    "b = create_kv_cache_blocks bs" using g by (auto simp: get_computed_blocks_def res_simps split: if_splits)
  then show ?thesis
  proof cases
    case 1
    then show ?thesis using e nil by auto
  next
    case (2 bs)
    show ?thesis
    proof (cases "co_unitary (km_co k)")
      case True
      have r: "block_refs_ok (co_pool (km_co k)) (mgr_refs m)" using kv_okD(1) [OF D(2)] .
      obtain c where c: "bs = [c]" "hits_ok (co_pool (km_co k)) 0 (block_hashes (kr_request r)) c" "n = int (length c) * co_block_size (km_co k)"
      proof -
        obtain h where h: "st_find_longest_cache_hit (block_hashes (kr_request r)) (kr_num_tokens r - 1) [0] (co_pool (km_co k)) (co_spec (km_co k))
            (0 \<in> set (co_eagle (km_co k))) (co_block_size (km_co k)) (co_dcp (km_co k)) (co_pcp (km_co k)) = Inr bs"
          "py_nth bs 0 = Inr h" "n = int (length h) * co_block_size (km_co k)"
          using 2(2) True by (auto simp: co_find_longest_cache_hit_def res_simps)
        obtain c where "bs = [c]" "hits_ok (co_pool (km_co k)) 0 (block_hashes (kr_request r)) c" using find_hits_ok [OF r h(1)] by blast
        then show thesis using that [of c] h(2,3) by (simp add: py_nth_def)
      qed
      then show ?thesis using 2(1,3) D(6) e by (auto simp: create_kv_cache_blocks_def kv_blocks_def)
    next
      case False
      then have "bs = [[]]" "n = 0" using 2(2) D(1) by (auto simp: co_find_longest_cache_hit_def)
      then show ?thesis using 2(3) e nil by (auto simp: create_kv_cache_blocks_def)
    qed
  qed
qed

section \<open>Allocating slots\<close>

lemma evictable_le: "get_num_evictable_blocks p c \<le> int (length c)" "0 \<le> get_num_evictable_blocks p c"
  by (simp_all add: get_num_evictable_blocks_def)

lemma gate_running:
  assumes k: "kv_ok p m" "spec_ok m" and t: "0 \<le> t" "t \<le> int (length (blocks_of m rid)) * st_block_size m"
  shows "get_num_blocks_to_allocate rid need [] t False p m = Inr (max (cdiv_int need (st_block_size m) - int (length (blocks_of m rid))) 0)"
proof -
  note b = kv_okD(3) [OF k(1)]
  have "get_num_skipped_tokens m t div st_block_size m * st_block_size m \<le> get_num_skipped_tokens m t"
    using le_div_int [OF b, of "get_num_skipped_tokens m t div st_block_size m" "get_num_skipped_tokens m t"] by simp
  also have "\<dots> \<le> int (length (blocks_of m rid)) * st_block_size m" using skipped_bounds [OF k(2) t(1)] t(2) by simp
  finally have "get_num_skipped_tokens m t div st_block_size m \<le> int (length (blocks_of m rid))" using b by simp
  then show ?thesis
    by (simp add: get_num_blocks_to_allocate_def Let_def get_num_evictable_blocks_def split: option.splits)
qed

lemma gate_new:
  assumes k: "kv_ok p m" "spec_ok m" and new: "blocks_of m rid = []" "od_get (num_cached_block m) rid = None"
    and t: "int (length c) * st_block_size m + ext \<le> need" "0 \<le> ext" "t = int (length c) * st_block_size m + ext"
  obtains n where "get_num_blocks_to_allocate rid need c t False p m = Inr n" "n \<le> cdiv_int need (st_block_size m)"
proof -
  note b = kv_okD(3) [OF k(1)]
  define s where "s = get_num_skipped_tokens m t div st_block_size m"
  have t0: "0 \<le> t" using t(2,3) b by simp
  have sb: "0 \<le> s" "s * st_block_size m \<le> t"
    using skipped_bounds [OF k(2) t0] b le_div_int [OF b, of s "get_num_skipped_tokens m t"] by (simp_all add: s_def pos_imp_zdiv_nonneg_iff)
  have "s \<le> cdiv_int need (st_block_size m)" using le_cdiv [OF b, of s need] sb(2) t by linarith
  moreover have "int (length c) \<le> cdiv_int need (st_block_size m)" using le_cdiv [OF b, of "int (length c)" need] t by linarith
  moreover have "get_num_evictable_blocks p (drop (nat s) c) \<le> max 0 (int (length c) - s)"
    using evictable_le(1) [of p "drop (nat s) c"] sb(1) by simp
  ultimately have "max (cdiv_int need (st_block_size m) - max s (int (length c))) 0 + get_num_evictable_blocks p (drop (nat s) c) \<le> cdiv_int need (st_block_size m)"
    using sb(1) by linarith
  then show thesis using that new sb(1) by (simp add: get_num_blocks_to_allocate_def Let_def s_def split: option.splits)
qed

text \<open>After the decision: taking over hits and connector blocks, then new blocks, then entering hashes.\<close>

lemma cache_phase:
  assumes k: "kv_ok p m" "km_caching k = enable_caching p" "\<not> enable_kv_cache_events p" "km_caching k \<longrightarrow> hash_block_size p = st_block_size m"
    and n: "km_caching k \<longrightarrow> n div st_block_size m \<le> int (length (block_hashes r))"
  obtains p' m' where "(if \<not> km_caching k \<or> d then Inr (r, p, m) else st_cache_blocks sha n r p m) = Inr (r, p', m')" "kv_ok p' m'" "same_frame p p'"
    "kept (request_id r) m m'" "blocks_of m' = blocks_of m"
proof (cases "\<not> km_caching k \<or> d")
  case True
  then show thesis using that [of p m] k(1) by simp
next
  case False
  have c: "enable_caching p" "hash_block_size p = st_block_size m" "n div st_block_size m \<le> int (length (block_hashes r))"
    using False k n by auto
  obtain p' m' where a: "st_cache_blocks sha n r p m = Inr (r, p', m')" "kv_ok p' m'" "same_frame p p'" "blocks_of m' = blocks_of m"
    by (rule enter_hashes [OF k(1) c(1) k(3) c(2,3)])
  have "kept (request_id r) m m'" using a(1,4) by (auto simp: kept_def st_cache_blocks_def Let_def res_simps split: if_splits)
  then show thesis using that [of p' m'] a False by simp
qed

lemma commit_phase:
  assumes k: "kv_ok p m" "spec_ok m" "km_caching k = enable_caching p" "\<not> enable_kv_cache_events p" "km_caching k \<longrightarrow> hash_block_size p = st_block_size m"
    and co: "co_pool co = p" "co_managers co = [m]" and blk: "kv_blocks k (sa_computed a) = [c]"
    and n: "km_caching k \<longrightarrow> min (total_computed + sa_num_new_tokens a) (kr_num_tokens r) div st_block_size m \<le> int (length (block_hashes (kr_request r)))"
    and first: "(if sa_computed a \<noteq> EmptyBlocks \<or> 0 < sa_num_external_computed_tokens a
        then allocate_new_computed_blocks (request_id (kr_request r)) c loc (sa_num_external_computed_tokens a) p m else Inr (p, m)) = Inr (p1, m1)"
      "kv_ok p1 m1" "same_frame p p1" "kept (request_id (kr_request r)) m m1"
      "cdiv_int need (st_block_size m) - int (length (blocks_of m1 (request_id (kr_request r)))) \<le> get_num_free_blocks p1"
  obtains p' m' b where "commit_slots sha r a loc total_computed need co k = Inr (Some b, kr_request r, k\<lparr>km_co := set_co p' m' co\<rparr>)"
    "kv_ok p' m'" "same_frame p p'" "kept (request_id (kr_request r)) m m'"
    "need \<le> int (length (blocks_of m' (request_id (kr_request r)))) * st_block_size m"
proof -
  define rid where "rid = request_id (kr_request r)"
  have bs1: "st_block_size m1 = st_block_size m" using first(4) by (simp add: kept_def)
  obtain nb p2 m2 where a2: "allocate_new_blocks rid need p1 m1 = Inr (nb, p2, m2)" "kv_ok p2 m2" "same_frame p1 p2" "kept rid m1 m2"
    "need \<le> int (length (blocks_of m2 rid)) * st_block_size m1"
    by (rule new_phase [OF first(2), of need rid]) (use first(5) bs1 in \<open>auto simp: rid_def\<close>)
  have f2: "same_frame p p2" "kept rid m m2" using same_frame_trans [OF first(3) a2(3)] kept_trans [of rid m m1 m2] first(4) a2(4) by (simp_all add: rid_def)
  have bs2: "st_block_size m2 = st_block_size m" using f2(2) by (simp add: kept_def)
  let ?n = "min (total_computed + sa_num_new_tokens a) (kr_num_tokens r)"
  obtain p3 m3 where a3: "(if \<not> km_caching k \<or> sa_delay_cache_blocks a then Inr (kr_request r, p2, m2) else st_cache_blocks sha ?n (kr_request r) p2 m2) = Inr (kr_request r, p3, m3)"
    "kv_ok p3 m3" "same_frame p2 p3" "kept rid m2 m3" "blocks_of m3 = blocks_of m2"
    by (rule cache_phase [OF a2(2), of k ?n "kr_request r" "sa_delay_cache_blocks a" sha])
      (use k f2(1) n bs2 in \<open>auto simp: same_frame_def rid_def\<close>)
  have "(if sa_computed a \<noteq> EmptyBlocks \<or> 0 < sa_num_external_computed_tokens a
      then co_allocate_new_computed_blocks rid [c] loc (sa_num_external_computed_tokens a) co else Inr co) = Inr (set_co p1 m1 co)"
    using first(1) co by (auto simp: co_single rid_def split: if_splits)
  moreover have "co_allocate_new_blocks rid need (set_co p1 m1 co) = Inr ([nb], set_co p2 m2 co)" using a2(1) by (simp add: co_single)
  ultimately have "commit_slots sha r a loc total_computed need co k = Inr (Some (create_kv_cache_blocks [nb]), kr_request r, k\<lparr>km_co := set_co p3 m3 co\<rparr>)"
    using a3(1) unfolding commit_slots_def Let_def blk rid_def [symmetric] by (auto simp: co_single split: if_splits)
  then show thesis using that [OF _ a3(2) same_frame_trans [OF f2(1) a3(3)]] kept_trans [OF f2(2) a3(4)] a2(5) a3(5) bs1 by (simp add: rid_def)
qed

text \<open>The number of token slots a call asks for.\<close>

definition slots_needed :: "KVCacheManager \<Rightarrow> kv_request \<Rightarrow> slot_args \<Rightarrow> int" where
  "slots_needed k r a = min (kr_num_computed_tokens r + sa_num_new_computed_tokens a + sa_num_external_computed_tokens a +
     sa_num_new_tokens a + sa_num_lookahead_tokens a) (km_max_model_len k)"

text \<open>What a call brings along: nothing for a running request, hits and connector tokens for a new one.\<close>

definition brings :: "bool \<Rightarrow> BlockPool \<Rightarrow> st_manager \<Rightarrow> string \<Rightarrow> bytes list \<Rightarrow> node list \<Rightarrow> int \<Rightarrow> int \<Rightarrow> bool" where
  "brings new p m rid hs c loc ext \<longleftrightarrow> 0 \<le> loc \<and> 0 \<le> ext \<and>
     (if new then blocks_of m rid = [] \<and> od_get (num_cached_block m) rid = None \<and> hits_ok p 0 hs c \<and> distinct hs \<and>
        loc = int (length c) * st_block_size m \<and> enable_caching p \<or> blocks_of m rid = [] \<and> od_get (num_cached_block m) rid = None \<and> c = [] \<and> loc = 0
      else c = [] \<and> ext = 0 \<and> loc \<le> int (length (blocks_of m rid)) * st_block_size m)"

lemma map_fst_Inr: "map_sum id fst x = Inr y \<Longrightarrow> \<exists>z. x = Inr (y, z)"
  by (cases x) auto

lemma contract_brings:
  assumes k: "km_ok k m" and con: "slot_contract k m r a"
  obtains new c where "kv_blocks k (sa_computed a) = [c]"
    "brings new (co_pool (km_co k)) m (request_id (kr_request r)) (block_hashes (kr_request r)) c
       (kr_num_computed_tokens r + sa_num_new_computed_tokens a) (sa_num_external_computed_tokens a)"
    "sa_computed a = EmptyBlocks \<longrightarrow> c = []" "\<not> new \<longrightarrow> sa_computed a = EmptyBlocks"
proof -
  note D = km_okD [OF k]
  have b: "0 < st_block_size m" using kv_okD(3) [OF D(2)] .
  have C: "0 \<le> sa_num_external_computed_tokens a" "0 \<le> kr_num_computed_tokens r" "km_caching k \<longrightarrow> distinct (block_hashes (kr_request r))"
    using con by (auto simp: slot_contract_def Let_def)
  show thesis
  proof (cases "sa_computed a = EmptyBlocks \<and> sa_num_external_computed_tokens a = 0 \<and> sa_num_new_computed_tokens a = 0 \<and>
      kr_num_computed_tokens r \<le> int (length (blocks_of m (request_id (kr_request r)))) * st_block_size m")
    case True
    have "kv_blocks k EmptyBlocks = [[]]" by (simp add: kv_blocks_def D(1))
    then show thesis using that [of "[]" False] True C by (simp add: brings_def)
  next
    case False
    then have n: "kr_num_computed_tokens r = 0" "blocks_of m (request_id (kr_request r)) = []" "od_get (num_cached_block m) (request_id (kr_request r)) = None"
      "map_sum id fst (get_computed_blocks r k) = Inr (sa_computed a, sa_num_new_computed_tokens a)"
      using con unfolding slot_contract_def Let_def by blast+
    obtain k' where g: "get_computed_blocks r k = Inr ((sa_computed a, sa_num_new_computed_tokens a), k')" using map_fst_Inr [OF n(4)] by blast
    obtain c where c: "kv_blocks k (sa_computed a) = [c]" "hits_ok (co_pool (km_co k)) 0 (block_hashes (kr_request r)) c"
      "sa_num_new_computed_tokens a = int (length c) * st_block_size m" "km_caching k \<or> c = []" "sa_computed a = EmptyBlocks \<longrightarrow> c = []"
      using computed_blocks_ok [OF k g] by blast
    have "brings True (co_pool (km_co k)) m (request_id (kr_request r)) (block_hashes (kr_request r)) c
       (kr_num_computed_tokens r + sa_num_new_computed_tokens a) (sa_num_external_computed_tokens a)"
      using n(1-3) c(2-4) C b D(5) by (auto simp: brings_def)
    then show thesis using that [of c True] c(1,5) by simp
  qed
qed

lemma brings_hits:
  assumes "kv_ok p m" "brings True p m rid hs c loc ext"
  shows "set c \<subseteq> set (blocks p)" "distinct (filter (\<lambda>b. b \<noteq> null_block p) c)" "enable_caching p \<or> c = []"
    "\<And>b. b \<in> set c \<Longrightarrow> b \<noteq> null_block p \<Longrightarrow> block_hash (heap p b) \<noteq> None" "loc = int (length c) * st_block_size m"
    "blocks_of m rid = []" "od_get (num_cached_block m) rid = None"
proof -
  consider "hits_ok p 0 hs c" "distinct hs" "enable_caching p" | "c = []" using assms(2) by (auto simp: brings_def)
  note cs = this
  have null: "null_block p \<in> set (blocks p)" by (rule block_refs_ok_null [OF kv_okD(1) [OF assms(1)]])
  show "set c \<subseteq> set (blocks p)" using hits_ok_props(2) [of p 0 hs c] null by (cases rule: cs) auto
  show "distinct (filter (\<lambda>b. b \<noteq> null_block p) c)" using hits_ok_props(1) [of p 0 hs c] by (cases rule: cs) auto
  show "enable_caching p \<or> c = []" by (cases rule: cs) auto
  show "block_hash (heap p b) \<noteq> None" if "b \<in> set c" "b \<noteq> null_block p" for b
    using hits_ok_props(2) [of p 0 hs c b] that by (cases rule: cs) auto
  show "loc = int (length c) * st_block_size m" "blocks_of m rid = []" "od_get (num_cached_block m) rid = None"
    using assms(2) by (auto simp: brings_def)
qed

lemma brings_gate:
  assumes k: "kv_ok p m" "spec_ok m" and br: "brings new p m rid hs c loc ext" and need: "loc + ext \<le> need"
  obtains n where "get_num_blocks_to_allocate rid need c (loc + ext) False p m = Inr n"
    "n \<le> max 0 (cdiv_int need (st_block_size m) - int (length (blocks_of m rid)))"
proof (cases new)
  case True
  have br': "brings True p m rid hs c loc ext" using br True by simp
  note H = brings_hits [OF k(1) br']
  have e: "0 \<le> ext" using br by (simp add: brings_def)
  obtain n where "get_num_blocks_to_allocate rid need c (loc + ext) False p m = Inr n" "n \<le> cdiv_int need (st_block_size m)"
    by (rule gate_new [OF k H(6,7), of c ext need "loc + ext"]) (use H(5) need e in auto)
  then show thesis using that H(6) by simp
next
  case False
  then have "c = []" "ext = 0" "0 \<le> loc" "loc \<le> int (length (blocks_of m rid)) * st_block_size m" using br by (auto simp: brings_def)
  then show thesis using that gate_running [OF k, of loc rid need] by simp
qed

lemma first_phase:
  assumes k: "kv_ok p m" "spec_ok m" and br: "brings new p m rid hs c loc ext" and need: "loc + ext \<le> need"
    and cond: "\<not> new \<Longrightarrow> \<not> cond" "\<not> cond \<Longrightarrow> c = [] \<and> ext = 0"
    and g: "get_num_blocks_to_allocate rid need c (loc + ext) False p m = Inr n" "n \<le> get_num_free_blocks p"
  obtains p1 m1 where "(if cond then allocate_new_computed_blocks rid c loc ext p m else Inr (p, m)) = Inr (p1, m1)"
    "kv_ok p1 m1" "same_frame p p1" "kept rid m m1" "cdiv_int need (st_block_size m) - int (length (blocks_of m1 rid)) \<le> get_num_free_blocks p1"
proof (cases cond)
  case True
  then have new: new using cond(1) by blast
  have br': "brings True p m rid hs c loc ext" using br new by simp
  note H = brings_hits [OF k(1) br']
  have e: "0 \<le> ext" using br by (simp add: brings_def)
  obtain p1 m1 where "allocate_new_computed_blocks rid c loc ext p m = Inr (p1, m1)" "kv_ok p1 m1" "same_frame p p1" "kept rid m m1"
    "cdiv_int need (st_block_size m) - int (length (blocks_of m1 rid)) \<le> get_num_free_blocks p1"
    by (rule computed_phase [OF k H(6,7) H(1,2,4,3,5) e need g])
  then show thesis using that True by simp
next
  case False
  have z: "c = []" "ext = 0" "0 \<le> loc" using cond(2) [OF False] br by (auto simp: brings_def)
  have "loc \<le> int (length (blocks_of m rid)) * st_block_size m" using br z by (auto simp: brings_def split: if_splits)
  then have "n = max (cdiv_int need (st_block_size m) - int (length (blocks_of m rid))) 0"
    using gate_running [OF k z(3), of rid need] g(1) z by simp
  then show thesis using that [of p m] False k(1) g(2) by simp
qed

lemma brings_frame:
  assumes "brings new p m rid hs c loc ext" "same_frame p p'" "\<forall>b. block_hash (heap p' b) = block_hash (heap p b)"
    "length (blocks_of m' rid) = length (blocks_of m rid)" "num_cached_block m' = num_cached_block m" "st_block_size m' = st_block_size m"
  shows "brings new p' m' rid hs c loc ext"
proof -
  have "hits_ok p' 0 hs c = hits_ok p 0 hs c" using assms(2,3) by (simp add: hits_ok_def same_frame_def)
  moreover have "blocks_of m' rid = [] \<longleftrightarrow> blocks_of m rid = []" using assms(4) by (metis length_0_conv)
  ultimately show ?thesis using assms by (simp add: brings_def same_frame_def)
qed

lemma gate_total: "c = [] \<or> od_get (num_cached_block m) rid = None \<Longrightarrow> \<exists>n. get_num_blocks_to_allocate rid need c t cap p m = Inr n"
  by (auto simp: get_num_blocks_to_allocate_def Let_def split: option.splits)

lemma brings_fresh: "brings new p m rid hs c loc ext \<Longrightarrow> c = [] \<or> od_get (num_cached_block m) rid = None"
  by (auto simp: brings_def split: if_splits)

text \<open>The call up to the decision.\<close>

lemma slots_decision:
  assumes k: "km_ok k m" and con: "slot_contract k m r a"
  defines "rid \<equiv> request_id (kr_request r)" and "p \<equiv> co_pool (km_co k)" and "need \<equiv> slots_needed k r a"
    and "loc \<equiv> kr_num_computed_tokens r + sa_num_new_computed_tokens a" and "ext \<equiv> sa_num_external_computed_tokens a"
  obtains new c fits p1 m1 n where "kv_blocks k (sa_computed a) = [c]" "brings new p1 m1 rid (block_hashes (kr_request r)) c loc ext"
    "sa_computed a = EmptyBlocks \<longrightarrow> c = []" "\<not> new \<longrightarrow> sa_computed a = EmptyBlocks"
    "kv_ok p1 m1" "same_frame p p1" "kept rid m m1" "get_num_free_blocks p \<le> get_num_free_blocks p1" "length (blocks_of m1 rid) = length (blocks_of m rid)"
    "fits \<or> sa_full_sequence_must_fit a" "loc + ext \<le> need" "get_num_blocks_to_allocate rid need c (loc + ext) False p1 m1 = Inr n"
    "n \<le> max 0 (cdiv_int need (st_block_size m1) - int (length (blocks_of m1 rid)))"
    "allocate_slots sha r a k = (if \<not> fits then Inr (None, kr_request r, k)
      else if get_num_free_blocks p1 < n then Inr (None, kr_request r, k\<lparr>km_co := set_co p1 m1 (km_co k)\<rparr>)
      else commit_slots sha r a loc (loc + ext) need (set_co p1 m1 (km_co k)) k)"
proof -
  note D = km_okD [OF k]
  have kv: "kv_ok p m" using D(2) by (simp add: p_def)
  from con have C: "0 \<le> sa_num_new_tokens a" "0 \<le> sa_num_lookahead_tokens a" "\<not> (sa_num_new_tokens a = 0 \<and> ext = 0)" "loc + ext \<le> km_max_model_len k"
    by (auto simp: slot_contract_def Let_def loc_def ext_def)
  obtain new c where c: "kv_blocks k (sa_computed a) = [c]" "brings new p m rid (block_hashes (kr_request r)) c loc ext"
    "sa_computed a = EmptyBlocks \<longrightarrow> c = []" "\<not> new \<longrightarrow> sa_computed a = EmptyBlocks"
    unfolding p_def rid_def loc_def ext_def by (rule contract_brings [OF k con]) blast
  have tot: "min (loc + ext) (km_max_model_len k) = loc + ext"
    and need: "need = min (loc + ext + sa_num_new_tokens a + sa_num_lookahead_tokens a) (km_max_model_len k)" "loc + ext \<le> need"
    using C by (auto simp: need_def slots_needed_def loc_def ext_def)
  have loc0: "0 \<le> loc + ext" using c(2) by (simp add: brings_def)
  obtain n0 where n0: "get_num_blocks_to_allocate rid (min (kr_num_tokens r) (km_max_model_len k)) c (loc + ext) True p m = Inr n0"
    using gate_total [OF brings_fresh [OF c(2)]] by blast
  define fits where "fits = (sa_full_sequence_must_fit a \<longrightarrow> n0 \<le> get_num_free_blocks p)"
  have fits: "(if sa_full_sequence_must_fit a then full_sequence_fits r [c] (loc + ext) k else Inr True) = Inr fits"
    using n0 D(1) by (simp add: fits_def full_sequence_fits_def co_single rid_def p_def del: co_get_num_blocks_to_allocate.simps)
  obtain p1 m1 where s: "st_remove_skipped_blocks rid (loc + ext) p m = Inr (p1, m1)" "kv_ok p1 m1" "same_frame p p1" "kept rid m m1"
    "\<forall>c. block_hash (heap p1 c) = block_hash (heap p c)" "get_num_free_blocks p \<le> get_num_free_blocks p1"
    "length (blocks_of m1 rid) = length (blocks_of m rid)" "num_cached_block m1 = num_cached_block m"
    by (rule skipped_phase [OF kv D(3) loc0])
  have bs1: "st_block_size m1 = st_block_size m" and sp1: "spec_ok m1" using s(4) kept_spec_ok [OF s(4)] D(3) by (simp_all add: kept_def)
  have br1: "brings new p1 m1 rid (block_hashes (kr_request r)) c loc ext" by (rule brings_frame [OF c(2) s(3,5,7,8) bs1])
  obtain n where n: "get_num_blocks_to_allocate rid need c (loc + ext) False p1 m1 = Inr n"
    "n \<le> max 0 (cdiv_int need (st_block_size m1) - int (length (blocks_of m1 rid)))" by (rule brings_gate [OF s(2) sp1 br1 need(2)])
  have skip: "co_remove_skipped_blocks rid (loc + ext) (km_co k) = Inr (set_co p1 m1 (km_co k))" using s(1) D(1) by (simp add: co_single p_def)
  have gate: "co_get_num_blocks_to_allocate rid need [c] (loc + ext) False p1 0 [m1] = Inr n" using n(1) by (simp only: co_single)
  have run: "allocate_slots sha r a k = (if \<not> fits then Inr (None, kr_request r, k)
      else if get_num_free_blocks p1 < n then Inr (None, kr_request r, k\<lparr>km_co := set_co p1 m1 (km_co k)\<rparr>)
      else commit_slots sha r a loc (loc + ext) need (set_co p1 m1 (km_co k)) k)"
    unfolding allocate_slots_def Let_def loc_def [symmetric] ext_def [symmetric] rid_def [symmetric] c(1) tot need(1) [symmetric]
      if_not_P [OF C(3)] fits res_bind_Inr skip by (simp add: gate del: co_get_num_blocks_to_allocate.simps)
  show thesis using that [OF c(1) br1 c(3,4) s(2-4,6,7) _ need(2) n run] by (simp add: fits_def)
qed

lemma allocate_slots_spec:
  assumes k: "km_ok k m" and con: "slot_contract k m r a"
  obtains res p' m' where "allocate_slots sha r a k = Inr (res, kr_request r, k\<lparr>km_co := set_co p' m' (km_co k)\<rparr>)"
    "kv_ok p' m'" "same_frame (co_pool (km_co k)) p'" "kept (request_id (kr_request r)) m m'"
    "res = None \<longrightarrow> length (blocks_of m' (request_id (kr_request r))) = length (blocks_of m (request_id (kr_request r))) \<and>
       (sa_full_sequence_must_fit a \<or> get_num_free_blocks (co_pool (km_co k)) <
          cdiv_int (slots_needed k r a) (st_block_size m) - int (length (blocks_of m (request_id (kr_request r)))))"
    "res \<noteq> None \<longrightarrow> slots_needed k r a \<le> int (length (blocks_of m' (request_id (kr_request r)))) * st_block_size m"
proof -
  note D = km_okD [OF k]
  let ?rid = "request_id (kr_request r)" and ?hs = "block_hashes (kr_request r)" and ?ext = "sa_num_external_computed_tokens a"
  let ?loc = "kr_num_computed_tokens r + sa_num_new_computed_tokens a" and ?need = "slots_needed k r a" and ?p = "co_pool (km_co k)"
  obtain new c fits p1 m1 n where d: "kv_blocks k (sa_computed a) = [c]" "brings new p1 m1 ?rid ?hs c ?loc ?ext"
    "sa_computed a = EmptyBlocks \<longrightarrow> c = []" "\<not> new \<longrightarrow> sa_computed a = EmptyBlocks"
    "kv_ok p1 m1" "same_frame ?p p1" "kept ?rid m m1" "get_num_free_blocks ?p \<le> get_num_free_blocks p1" "length (blocks_of m1 ?rid) = length (blocks_of m ?rid)"
    "fits \<or> sa_full_sequence_must_fit a" "?loc + ?ext \<le> ?need" "get_num_blocks_to_allocate ?rid ?need c (?loc + ?ext) False p1 m1 = Inr n"
    "n \<le> max 0 (cdiv_int ?need (st_block_size m1) - int (length (blocks_of m1 ?rid)))"
    "allocate_slots sha r a k = (if \<not> fits then Inr (None, kr_request r, k)
      else if get_num_free_blocks p1 < n then Inr (None, kr_request r, k\<lparr>km_co := set_co p1 m1 (km_co k)\<rparr>)
      else commit_slots sha r a ?loc (?loc + ?ext) ?need (set_co p1 m1 (km_co k)) k)"
    by (rule slots_decision [OF k con]) blast
  have bs1: "st_block_size m1 = st_block_size m" and sp1: "spec_ok m1" using d(7) kept_spec_ok [OF d(7)] D(3) by (simp_all add: kept_def)
  consider "\<not> fits" | "fits" "get_num_free_blocks p1 < n" | "fits" "n \<le> get_num_free_blocks p1" by linarith
  then show thesis
  proof cases
    case 1
    have "k\<lparr>km_co := set_co ?p m (km_co k)\<rparr> = k" using D(1) by simp
    then show thesis using that [of None m ?p] 1 d(10,14) D(2) by simp
  next
    case 2
    have "0 \<le> get_num_free_blocks p1" using kv_ok_free [OF d(5)] by simp
    then have "get_num_free_blocks ?p < cdiv_int ?need (st_block_size m) - int (length (blocks_of m ?rid))" using 2(2) d(8,9,13) bs1 by simp
    then show thesis using that [of None m1 p1] 2 d(5-7,9,14) by simp
  next
    case 3
    have ext: "0 \<le> ?ext" "\<not> new \<longrightarrow> ?ext = 0" using d(2) by (auto simp: brings_def)
    have c1: "\<not> (sa_computed a \<noteq> EmptyBlocks \<or> 0 < ?ext)" if "\<not> new" using that d(4) ext by simp
    have c2: "c = [] \<and> ?ext = 0" if "\<not> (sa_computed a \<noteq> EmptyBlocks \<or> 0 < ?ext)" using that d(3) ext(1) by simp
    obtain p2 m2 where f: "(if sa_computed a \<noteq> EmptyBlocks \<or> 0 < ?ext then allocate_new_computed_blocks ?rid c ?loc ?ext p1 m1 else Inr (p1, m1)) = Inr (p2, m2)"
      "kv_ok p2 m2" "same_frame p1 p2" "kept ?rid m1 m2" "cdiv_int ?need (st_block_size m1) - int (length (blocks_of m2 ?rid)) \<le> get_num_free_blocks p2"
      by (rule first_phase [OF d(5) sp1 d(2,11) c1 c2 d(12) 3(2)])
    have h: "km_caching k \<longrightarrow> min (?loc + ?ext + sa_num_new_tokens a) (kr_num_tokens r) div st_block_size m1 \<le> int (length ?hs)"
    proof
      assume "km_caching k"
      then have "kr_num_tokens r div st_block_size m \<le> int (length ?hs)" using con by (simp add: slot_contract_def Let_def)
      moreover have "min (?loc + ?ext + sa_num_new_tokens a) (kr_num_tokens r) div st_block_size m1 \<le> kr_num_tokens r div st_block_size m"
        unfolding bs1 by (rule zdiv_mono1) (use kv_okD(3) [OF D(2)] in auto)
      ultimately show "min (?loc + ?ext + sa_num_new_tokens a) (kr_num_tokens r) div st_block_size m1 \<le> int (length ?hs)" by linarith
    qed
    have g: "km_caching k = enable_caching p1" "\<not> enable_kv_cache_events p1" "km_caching k \<longrightarrow> hash_block_size p1 = st_block_size m1"
      using D(4-6) d(6) bs1 by (auto simp: same_frame_def)
    have co: "co_pool (set_co p1 m1 (km_co k)) = p1" "co_managers (set_co p1 m1 (km_co k)) = [m1]" by simp_all
    obtain p' m' b where e: "commit_slots sha r a ?loc (?loc + ?ext) ?need (set_co p1 m1 (km_co k)) k = Inr (Some b, kr_request r, k\<lparr>km_co := set_co p' m' (set_co p1 m1 (km_co k))\<rparr>)"
      "kv_ok p' m'" "same_frame p1 p'" "kept ?rid m1 m'" "?need \<le> int (length (blocks_of m' ?rid)) * st_block_size m1"
      by (rule commit_phase [OF d(5) sp1 g co d(1) h f])
    then show thesis using that [of "Some b" m' p'] 3 d(14) same_frame_trans [OF d(6) e(3)] kept_trans [OF d(7) e(4)] bs1 by simp
  qed
qed

section \<open>Runs\<close>

definition window_ok :: "KVCacheSpec \<Rightarrow> bool" where
  "window_ok spec = (case spec_kind spec of SlidingWindow w \<Rightarrow> 0 < w | ChunkedLocal c \<Rightarrow> 0 < c | _ \<Rightarrow> True)"

text \<open>
  Any sequence of calls of the operations of a manager with one group by a scheduler that keeps the contract. The queue of
  KV cache events is switched off.
\<close>

inductive kv_run :: "KVCacheManager \<Rightarrow> bool" where
  init: "make_kv_cache_manager cfg max_len hash_bs max_batched caching eagle log_stats False dcp pcp use_int metrics = Inr (Some k) \<Longrightarrow>
    kc_groups cfg = [(spec, flag)] \<Longrightarrow> 0 < spec_block_size spec \<Longrightarrow> window_ok spec \<Longrightarrow> 1 \<le> dcp \<Longrightarrow> 1 \<le> pcp \<Longrightarrow> kv_run k"
| computed: "kv_run k \<Longrightarrow> get_computed_blocks r k = Inr (x, k') \<Longrightarrow> kv_run k'"
| slots: "kv_run k \<Longrightarrow> co_managers (km_co k) = [m] \<Longrightarrow> slot_contract k m r a \<Longrightarrow> allocate_slots sha r a k = Inr (b, r', k') \<Longrightarrow> kv_run k'"
| free: "kv_run k \<Longrightarrow> km_free r k = Inr k' \<Longrightarrow> kv_run k'"
| skip: "kv_run k \<Longrightarrow> 0 \<le> n \<Longrightarrow> km_remove_skipped_blocks rid n k = Inr k' \<Longrightarrow> kv_run k'"
| evict: "kv_run k \<Longrightarrow> km_evict_blocks ids k = Inr k' \<Longrightarrow> kv_run k'"
| reset: "kv_run k \<Longrightarrow> km_reset_prefix_cache k = (ok, k') \<Longrightarrow> kv_run k'"
| cache: "kv_run k \<Longrightarrow> co_managers (km_co k) = [m] \<Longrightarrow> n div st_block_size m \<le> int (length (block_hashes r)) \<Longrightarrow>
    km_cache_blocks sha n r k = Inr (r', k') \<Longrightarrow> kv_run k'"
| common: "kv_run k \<Longrightarrow> km_common_prefix_blocks rid k = (ns, k') \<Longrightarrow> kv_run k'"
| ids: "kv_run k \<Longrightarrow> km_take_new_block_ids k = (is, k') \<Longrightarrow> kv_run k'"
| stats: "kv_run k \<Longrightarrow> make_prefix_cache_stats k = (st, k') \<Longrightarrow> kv_run k'"
| events: "kv_run k \<Longrightarrow> km_take_events k = (es, k') \<Longrightarrow> kv_run k'"

lemma kv_ok_same:
  assumes "kv_ok p m" "entry (req_to_blocks m') = entry (req_to_blocks m)" "mgr_refs m' = mgr_refs m" "od_ok (req_to_blocks m')"
    "num_cached_block m' = num_cached_block m" "st_block_size m' = st_block_size m" "st_group m' = st_group m" "st_caching m' = st_caching m"
  shows "kv_ok p m'"
  using assms unfolding kv_ok_def st_ok_def fresh_def cached_upto_def blocks_of_entry by simp

lemma enter_request:
  assumes "kv_ok p m"
  shows "kv_ok p (m\<lparr>req_to_blocks := od_set rid (blocks_of m rid) (req_to_blocks m)\<rparr>)"
proof -
  note D = kv_okD [OF assms]
  show ?thesis
    by (rule kv_ok_same [OF assms])
      (use D(2) entry_refs_set [OF D(2), of rid "blocks_of m rid"] in \<open>auto simp: mgr_refs_def blocks_of_entry intro!: ext\<close>)
qed

text \<open>A change of the pool alone that keeps references and gives no block a hash.\<close>

lemma kv_ok_pool:
  assumes k: "kv_ok p m" and r: "block_refs_ok p' (mgr_refs m)" and f: "same_frame p p'"
    and h: "\<And>b. b \<in> set (blocks p) \<Longrightarrow> block_hash (heap p b) = None \<Longrightarrow> block_hash (heap p' b) = None"
  shows "kv_ok p' m"
proof -
  have "fresh p' m" if "enable_caching p"
    unfolding fresh_def
  proof (intro allI ballI impI)
    fix rid b assume b: "b \<in> set (drop (cached_upto m rid) (blocks_of m rid))" and nn: "b \<noteq> null_block p'"
    have "b \<in> set (blocks p)" using b kv_okD(6) [OF k, of rid] by (auto dest: in_set_dropD)
    then show "block_hash (heap p' b) = None \<and> mgr_refs m b = 1" using kv_fresh [OF k that b] nn f h by (simp add: same_frame_def)
  qed
  then show ?thesis using k r f by (simp add: kv_ok_def st_ok_def same_frame_def)
qed

lemma block_refs_ok_pool:
  assumes "block_refs_ok p R" "\<And>H. pool_run p H \<Longrightarrow> pool_run p' H" "same_frame p p'"
  shows "block_refs_ok p' R"
  using assms by (auto simp: block_refs_ok_def same_frame_def)

lemma evict_keeps_none:
  assumes "evict_blocks ids p = Inr p'" "pool_at p xs {}"
  shows "block_hash (heap p b) = None \<Longrightarrow> block_hash (heap p' b) = None"
proof -
  let ?P = "\<lambda>q. pool_at q xs {} \<and> (block_hash (heap p b) = None \<longrightarrow> block_hash (heap q b) = None)"
  have "?P p'"
  proof (rule res_fold_invariant [of evict_block_id ids p p' ?P])
    fix i q q' assume a: "?P q" "evict_block_id i q = Inr q'"
    then obtain c where c: "c \<in> set (blocks q)" "q' = snd (maybe_evict_cached_block c q)"
      by (auto simp: evict_block_id_def res_simps dest: py_nth_mem split: if_splits)
    from evict_spec [OF conjunct1 [OF a(1)] c(1)] obtain q'' where "maybe_evict_cached_block c q = (block_hash (heap q c) \<noteq> None, q'')" "pool_at q'' xs {}"
      "heap q'' = (heap q)(c := (heap q c)\<lparr>block_hash := None\<rparr>)" by blast
    then show "?P q'" using a(1) c(2) by auto
  qed (use assms in \<open>auto simp: evict_blocks_def\<close>)
  then show "block_hash (heap p b) = None \<Longrightarrow> block_hash (heap p' b) = None" by blast
qed

lemma km_ok_pool:
  assumes "km_ok k m" "kv_ok p m" "same_frame (co_pool (km_co k)) p"
  shows "km_ok (km_with_pool p k) m"
  using assms by (auto simp: km_ok_def km_with_pool_def Let_def same_frame_def)

lemma world_block:
  assumes "1 \<le> dcp" "1 \<le> pcp"
  shows "world_block_size spec dcp pcp = (let b = (if 1 < dcp then spec_block_size spec * dcp else spec_block_size spec) in if 1 < pcp then b * pcp else b)"
    and "0 < spec_block_size spec \<Longrightarrow> 0 < world_block_size spec dcp pcp"
proof -
  have pos: "0 < dcp * pcp" using assms by simp
  have "1 < dcp * pcp \<longleftrightarrow> 1 < dcp \<or> 1 < pcp"
    using assms pos by (metis dual_order.strict_trans1 less_1_mult less_le mult.right_neutral mult_cancel_right1 mult.commute order_le_less)
  then show "world_block_size spec dcp pcp = (let b = (if 1 < dcp then spec_block_size spec * dcp else spec_block_size spec) in if 1 < pcp then b * pcp else b)"
    using assms by (auto simp: world_block_size_def Let_def)
  show "0 < spec_block_size spec \<Longrightarrow> 0 < world_block_size spec dcp pcp" using pos by (simp add: world_block_size_def)
qed

lemma make_kv_ok:
  assumes mk: "make_kv_cache_manager cfg max_len hash_bs max_batched caching eagle log_stats False dcp pcp use_int metrics = Inr (Some k)"
    and cfg: "kc_groups cfg = [(spec, flag)]" "0 < spec_block_size spec" "window_ok spec" "1 \<le> dcp" "1 \<le> pcp"
  shows "\<exists>m. km_ok k m"
proof -
  define batched where "batched = (case max_batched of None \<Rightarrow> max_len | Some n \<Rightarrow> n)"
  define m where "m = get_manager_for_kv_cache_spec spec batched max_len caching 0 dcp pcp"
  obtain p where p: "make_block_pool (kc_num_blocks cfg) caching hash_bs False use_int metrics = Inr p"
    and k: "co_pool (km_co k) = p" "co_managers (km_co k) = [m]" "km_caching k = caching"
      "caching \<Longrightarrow> co_unitary (km_co k) \<and> co_spec (km_co k) = spec \<and> co_dcp (km_co k) = dcp \<and> co_pcp (km_co k) = pcp \<and>
         co_block_size (km_co k) = hash_bs \<and> hash_bs = world_block_size spec dcp pcp"
    using mk cfg(1) world_block(1) [OF cfg(4,5), of spec] unfolding make_kv_cache_manager_def Let_def batched_def [symmetric]
    by (auto simp: get_kv_cache_coordinator_def make_unitary_def make_coordinator_def res_simps Let_def m_def cfg(1) split: if_splits)
  have n: "0 < kc_num_blocks cfg" using p by (simp add: make_block_pool_def split: if_splits)
  have P: "enable_caching p = caching" "hash_block_size p = hash_bs" "\<not> enable_kv_cache_events p"
    using make_block_pool_spec [OF n, of caching hash_bs False use_int metrics] p by auto
  have m: "req_to_blocks m = []" "num_cached_block m = []" "st_block_size m = world_block_size spec dcp pcp" "st_group m = 0" "st_caching m = caching" "st_spec m = spec"
    by (simp_all add: m_def get_manager_for_kv_cache_spec_def make_st_manager_def)
  have "block_refs_ok p (mgr_refs m)" using pool_run.init [OF p] by (auto simp: block_refs_ok_def mgr_refs_def entry_refs_def m)
  then have "kv_ok p m" using P world_block(2) [OF cfg(4,5,2)] by (simp add: kv_ok_def st_ok_def fresh_def m blocks_of_def)
  moreover have "spec_ok m" using cfg(3) by (simp add: spec_ok_def window_ok_def m)
  ultimately have "km_ok k m" using k P m by (simp add: km_ok_def Let_def)
  then show ?thesis ..
qed

lemma st_free_kept: "st_free rid p m = Inr (p', m') \<Longrightarrow> kept rid m m'"
  by (auto simp: st_free_def res_simps kept_def blocks_of_entry)

text \<open>Every operation keeps the manager in order.\<close>

lemma free_kept_ok:
  assumes k: "km_ok k m" and f: "km_free r k = Inr k'"
  shows "\<exists>m. km_ok k' m"
proof -
  obtain p m' where s: "st_free (request_id r) (co_pool (km_co k)) m = Inr (p, m')" "kv_ok p m'" "same_frame (co_pool (km_co k)) p"
    by (rule release_request [OF km_okD(2) [OF k], of "request_id r"])
  have "k' = k\<lparr>km_co := set_co p m' (km_co k)\<rparr>" using f s(1) km_okD(1) [OF k] by (simp add: km_free_def co_single)
  then show ?thesis using km_ok_step [OF k s(2,3) st_free_kept [OF s(1)]] by blast
qed

lemma skip_kept_ok:
  assumes k: "km_ok k m" and n: "0 \<le> n" and f: "km_remove_skipped_blocks rid n k = Inr k'"
  shows "\<exists>m. km_ok k' m"
proof -
  obtain p m' where s: "st_remove_skipped_blocks rid n (co_pool (km_co k)) m = Inr (p, m')" "kv_ok p m'" "same_frame (co_pool (km_co k)) p" "kept rid m m'"
    by (rule skipped_phase [OF km_okD(2,3) [OF k] n, of rid])
  have "k' = k\<lparr>km_co := set_co p m' (km_co k)\<rparr>" using f s(1) km_okD(1) [OF k] by (simp add: km_remove_skipped_blocks_def co_single)
  then show ?thesis using km_ok_step [OF k s(2-4)] by blast
qed

lemma evict_kept_ok:
  assumes k: "km_ok k m" and f: "km_evict_blocks ids k = Inr k'"
  shows "\<exists>m. km_ok k' m"
proof -
  obtain p where p: "evict_blocks ids (co_pool (km_co k)) = Inr p" "k' = km_with_pool p k" using f by (auto simp: km_evict_blocks_def res_simps)
  note r = kv_okD(1) [OF km_okD(2) [OF k]]
  obtain xs where x: "pool_at (co_pool (km_co k)) xs {}" by (rule block_refs_ok_list [OF r])
  have s: "same_frame (co_pool (km_co k)) p" using evict_blocks_any [OF p(1) x] by blast
  have "block_refs_ok p (mgr_refs m)" by (rule block_refs_ok_pool [OF r pool_run.evict [OF _ p(1)] s])
  then have "kv_ok p m" using kv_ok_pool [OF km_okD(2) [OF k] _ s] evict_keeps_none [OF p(1) x] by blast
  then show ?thesis using km_ok_pool [OF k _ s] p(2) by blast
qed

lemma reset_kept_ok:
  assumes k: "km_ok k m" and f: "km_reset_prefix_cache k = (ok, k')"
  shows "\<exists>m. km_ok k' m"
proof -
  obtain b p where p: "reset_prefix_cache (co_pool (km_co k)) = (b, p)" by fastforce
  note r = kv_okD(1) [OF km_okD(2) [OF k]]
  obtain xs where x: "pool_at (co_pool (km_co k)) xs {}" by (rule block_refs_ok_list [OF r])
  have s: "same_frame (co_pool (km_co k)) p" and h: "\<And>b. b \<in> set (blocks (co_pool (km_co k))) \<Longrightarrow> block_hash (heap (co_pool (km_co k)) b) = None \<Longrightarrow> block_hash (heap p b) = None"
    using reset_spec [OF x] p by (auto split: if_splits)
  have "block_refs_ok p (mgr_refs m)" by (rule block_refs_ok_pool [OF r pool_run.reset [OF _ p] s])
  then have "km_ok (km_with_pool p k) m" using km_ok_pool [OF k kv_ok_pool [OF km_okD(2) [OF k] _ s h] s] by blast
  then show ?thesis using f p by (auto simp: km_reset_prefix_cache_def km_ok_def split: bool.splits)
qed

lemma cache_kept_ok:
  assumes k: "km_ok k m" and n: "n div st_block_size m \<le> int (length (block_hashes r))" and f: "km_cache_blocks sha n r k = Inr (r', k')"
  shows "\<exists>m. km_ok k' m"
proof (cases "km_caching k")
  case False
  then show ?thesis using f k by (auto simp: km_cache_blocks_def)
next
  case True
  note D = km_okD [OF k]
  show ?thesis
    by (rule cache_phase [OF D(2,5,4), of n r False sha])
      (use True D(1,6) n f km_ok_step [OF k, of _ _ "request_id r"] in \<open>auto simp: km_cache_blocks_def co_single\<close>)
qed

lemma common_kept_ok:
  assumes k: "km_ok k m" and f: "km_common_prefix_blocks rid k = (ns, k')"
  shows "\<exists>m. km_ok k' m"
proof -
  note D = km_okD [OF k]
  have "km_ok (k\<lparr>km_co := set_co (co_pool (km_co k)) (m\<lparr>req_to_blocks := od_set rid (blocks_of m rid) (req_to_blocks m)\<rparr>) (km_co k)\<rparr>)
      (m\<lparr>req_to_blocks := od_set rid (blocks_of m rid) (req_to_blocks m)\<rparr>)"
    by (rule km_ok_step [OF k enter_request [OF D(2)] _ kept_skipped]) simp
  moreover have "km_ok (k\<lparr>km_co := (km_co k)\<lparr>co_managers := [m]\<rparr>\<rparr>) m" using k by (simp add: km_ok_def Let_def)
  ultimately show ?thesis using f k D(1)
    by (auto simp: km_common_prefix_blocks_def st_common_prefix_blocks_def Let_def split: if_splits attn_kind.splits)
qed

lemma take_ids_kept_ok:
  assumes k: "km_ok k m" and f: "km_take_new_block_ids k = (is, k')"
  shows "\<exists>m. km_ok k' m"
proof -
  have "kv_ok (co_pool (km_co k)) (m\<lparr>new_block_ids := []\<rparr>)"
    by (rule kv_ok_same [OF km_okD(2) [OF k]]) (use kv_okD(2) [OF km_okD(2) [OF k]] in \<open>auto simp: mgr_refs_def\<close>)
  then show ?thesis using f k by (auto simp: km_take_new_block_ids_def st_take_new_block_ids_def km_ok_def Let_def spec_ok_def)
qed

lemma take_events_kept_ok:
  assumes k: "km_ok k m" and f: "km_take_events k = (es, k')"
  shows "\<exists>m. km_ok k' m"
proof -
  obtain evs p where p: "take_events (co_pool (km_co k)) = (evs, p)" by fastforce
  have "p = co_pool (km_co k)" using p km_okD(4) [OF k] by (simp add: take_events_def)
  then have "k' = k" using f p by (simp add: km_take_events_def km_with_pool_def)
  then show ?thesis using k by blast
qed

lemma kv_run_ok: "kv_run k \<Longrightarrow> \<exists>m. km_ok k m"
proof (induction rule: kv_run.induct)
  case init
  then show ?case using make_kv_ok by blast
next
  case (computed k r x k')
  then have "km_co k' = km_co k" "km_caching k' = km_caching k" by (auto simp: get_computed_blocks_def res_simps split: if_splits prod.splits)
  then show ?case using computed(3) by (auto simp: km_ok_def)
next
  case (slots k m r a sha b r' k')
  have k: "km_ok k m" using slots by (auto simp: km_ok_def Let_def)
  show ?case by (rule allocate_slots_spec [OF k slots(3), of sha]) (use slots(4) km_ok_step [OF k] in auto)
next
  case (cache k m n r sha r' k')
  have "km_ok k m" using cache by (auto simp: km_ok_def Let_def)
  then show ?case using cache_kept_ok cache(3,4) by blast
next
  case (stats k st k')
  then show ?case by (auto simp: make_prefix_cache_stats_def km_ok_def)
qed (blast dest: free_kept_ok skip_kept_ok evict_kept_ok reset_kept_ok common_kept_ok take_ids_kept_ok take_events_kept_ok)+

section \<open>Properties\<close>

text \<open>
  C3. What the requests hold is what the pool counts. In every run of a manager with one group, the reference count of a block is the number
  of times it occurs in the block lists of the requests, and the number of free blocks is the number of blocks that occur
  in none. With prefix caching, a block of a request that is not yet entered into the cache, so that the request may still write
  to it, has no hash, occurs once in that request's list and in no other.
\<close>

theorem kv_references_exact:
  assumes "kv_run k" "co_managers (km_co k) = [m]"
  shows "(\<forall>b \<in> set (blocks (co_pool (km_co k))). b \<noteq> null_block (co_pool (km_co k)) \<longrightarrow>
       ref_cnt (heap (co_pool (km_co k)) b) = int (sum_list (map (\<lambda>(_, bs). count_list bs b) (req_to_blocks m)))) \<and>
     get_num_free_blocks (co_pool (km_co k)) =
       int (card {b \<in> set (blocks (co_pool (km_co k))). b \<noteq> null_block (co_pool (km_co k)) \<and> (\<forall>(_, bs) \<in> set (req_to_blocks m). b \<notin> set bs)}) \<and>
     (km_caching k \<longrightarrow> (\<forall>rid b. b \<in> set (drop (cached_upto m rid) (blocks_of m rid)) \<and> b \<noteq> null_block (co_pool (km_co k)) \<longrightarrow>
       block_hash (heap (co_pool (km_co k)) b) = None \<and> count_list (blocks_of m rid) b = 1 \<and> (\<forall>rid'. rid' \<noteq> rid \<longrightarrow> b \<notin> set (blocks_of m rid'))))"
proof -
  obtain m' where "km_ok k m'" using kv_run_ok [OF assms(1)] by blast
  then have k: "km_ok k m" using assms(2) by (simp add: km_ok_def Let_def)
  let ?p = "co_pool (km_co k)"
  note D = km_okD [OF k] and K = kv_okD [OF km_okD(2) [OF k]]
  have refs: "mgr_refs m b = sum_list (map (\<lambda>(_, bs). count_list bs b) (req_to_blocks m))" for b by (simp add: mgr_refs_def entry_refs_def)
  have zero: "mgr_refs m b = 0 \<longleftrightarrow> (\<forall>(_, bs) \<in> set (req_to_blocks m). b \<notin> set bs)" for b
    unfolding refs by (auto simp: sum_list_eq_0_iff count_list_0_iff)
  have "block_hash (heap ?p b) = None \<and> count_list (blocks_of m rid) b = 1 \<and> (\<forall>rid'. rid' \<noteq> rid \<longrightarrow> b \<notin> set (blocks_of m rid'))"
    if c: "km_caching k" and b: "b \<in> set (drop (cached_upto m rid) (blocks_of m rid))" "b \<noteq> null_block ?p" for rid b
  proof -
    have f: "block_hash (heap ?p b) = None" "mgr_refs m b = 1" using kv_fresh [OF D(2) _ b] c D(5) by auto
    have "0 < count_list (blocks_of m rid) b" using b(1) by (simp add: count_list_pos in_set_dropD)
    moreover have "count_list (blocks_of m rid) b \<le> 1" using entry_refs_ge [OF K(2), of rid b] f(2) by (simp add: mgr_refs_def blocks_of_entry)
    moreover have "b \<notin> set (blocks_of m rid')" if "rid' \<noteq> rid" for rid'
      using fresh_private [OF D(2) _ b] c D(5) that by simp
    ultimately show ?thesis using f(1) by auto
  qed
  moreover have "get_num_free_blocks ?p = int (card {b \<in> set (blocks ?p). b \<noteq> null_block ?p \<and> (\<forall>(_, bs) \<in> set (req_to_blocks m). b \<notin> set bs)})"
    using kv_ok_free [OF D(2)] unfolding idle_def zero .
  moreover have "\<forall>b \<in> set (blocks ?p). b \<noteq> null_block ?p \<longrightarrow> ref_cnt (heap ?p b) = int (sum_list (map (\<lambda>(_, bs). count_list bs b) (req_to_blocks m)))"
    using block_refs_ok_ref_cnt [OF K(1)] unfolding refs by blast
  ultimately show ?thesis by blast
qed

text \<open>
  C4. Allocation is decided before it is made. In every run and for every call within the contract, \<^verbatim>\<open>allocate_slots\<close> raises
  nothing. Either it returns no blocks: then the request has as many blocks as before and, unless the whole sequence was
  asked to fit, fewer blocks are free than the request lacks. Or it returns blocks, and then the request has slots for
  all tokens asked for. In both cases the blocks of other requests are unchanged.
\<close>

theorem allocate_slots_safe:
  assumes "kv_run k" "co_managers (km_co k) = [m]" "slot_contract k m r a"
  shows "\<exists>res k' m'. allocate_slots sha r a k = Inr (res, kr_request r, k') \<and> co_managers (km_co k') = [m'] \<and>
     (\<forall>rid. rid \<noteq> request_id (kr_request r) \<longrightarrow> blocks_of m' rid = blocks_of m rid) \<and>
     (case res of
        None \<Rightarrow> length (blocks_of m' (request_id (kr_request r))) = length (blocks_of m (request_id (kr_request r))) \<and>
          (sa_full_sequence_must_fit a \<or> get_num_free_blocks (co_pool (km_co k)) <
             cdiv_int (slots_needed k r a) (st_block_size m) - int (length (blocks_of m (request_id (kr_request r)))))
      | Some _ \<Rightarrow> slots_needed k r a \<le> int (length (blocks_of m' (request_id (kr_request r)))) * st_block_size m)"
proof -
  obtain m' where "km_ok k m'" using kv_run_ok [OF assms(1)] by blast
  then have k: "km_ok k m" using assms(2) by (simp add: km_ok_def Let_def)
  show ?thesis by (rule allocate_slots_spec [OF k assms(3), of sha]) (auto simp: kept_def split: option.splits)
qed


section \<open>Witnesses\<close>

definition kv_demo_spec :: KVCacheSpec where
  "kv_demo_spec = \<lparr>spec_kind = FullAttention, spec_block_size = 2\<rparr>"

definition kv_demo_cfg :: KVCacheConfig where
  "kv_demo_cfg = \<lparr>kc_num_blocks = 5, kc_groups = [(kv_demo_spec, False)]\<rparr>"

definition kv_demo_make :: "KVCacheManager option res" where
  "kv_demo_make = make_kv_cache_manager kv_demo_cfg 8 2 None True False False False 1 1 False None"

definition kv_demo_km :: KVCacheManager where
  "kv_demo_km = (case kv_demo_make of Inr (Some k) \<Rightarrow> k | _ \<Rightarrow> undefined)"

definition kv_demo_request :: "string \<Rightarrow> kv_request" where
  "kv_demo_request rid = \<lparr>kr_request = \<lparr>request_id = rid, all_token_ids = [7, 8, 9], mm_features = [], lora_request = None, cache_salt = None,
     prompt_embeds = None, prompt_embeds_per_block_hashes = [], block_hashes = [[9]]\<rparr>, kr_num_computed_tokens = 0,
     kr_skip_reading_prefix_cache = False, kr_num_preemptions = 0\<rparr>"

definition kv_demo_args :: slot_args where
  "kv_demo_args = \<lparr>sa_num_new_tokens = 3, sa_num_new_computed_tokens = 0, sa_new_computed_blocks = None, sa_num_lookahead_tokens = 0,
     sa_num_external_computed_tokens = 0, sa_delay_cache_blocks = False, sa_full_sequence_must_fit = False\<rparr>"

definition kv_demo_slots :: "(KVCacheBlocks option \<times> Request \<times> KVCacheManager) res" where
  "kv_demo_slots = allocate_slots (\<lambda>_. []) (kv_demo_request ''r'') kv_demo_args kv_demo_km"

definition kv_demo_km2 :: KVCacheManager where
  "kv_demo_km2 = (case kv_demo_slots of Inr (_, _, k) \<Rightarrow> k | _ \<Rightarrow> undefined)"

lemma kv_demo_made: "kv_demo_make = Inr (Some kv_demo_km)"
proof -
  have "case kv_demo_make of Inr (Some _) \<Rightarrow> True | _ \<Rightarrow> False" by code_simp
  then obtain k where k: "kv_demo_make = Inr (Some k)" by (auto split: sum.splits option.splits)
  have "kv_demo_km = k" unfolding kv_demo_km_def k by simp
  then show ?thesis using k by simp
qed

lemma kv_demo_run: "kv_run kv_demo_km"
  by (rule kv_run.init [OF kv_demo_made [unfolded kv_demo_make_def], of kv_demo_spec False]) (simp_all add: kv_demo_cfg_def kv_demo_spec_def window_ok_def)

definition kv_demo_m :: st_manager where
  "kv_demo_m = hd (co_managers (km_co kv_demo_km))"

definition kv_demo_m2 :: st_manager where
  "kv_demo_m2 = hd (co_managers (km_co kv_demo_km2))"

lemma single_hd: "length xs = 1 \<Longrightarrow> xs = [hd xs]"
  by (cases xs) auto

lemma kv_demo_managers: "co_managers (km_co kv_demo_km) = [kv_demo_m]" "co_managers (km_co kv_demo_km2) = [kv_demo_m2]"
proof -
  have "length (co_managers (km_co kv_demo_km)) = 1" "length (co_managers (km_co kv_demo_km2)) = 1" by code_simp+
  then show "co_managers (km_co kv_demo_km) = [kv_demo_m]" "co_managers (km_co kv_demo_km2) = [kv_demo_m2]"
    unfolding kv_demo_m_def kv_demo_m2_def by (blast intro: single_hd)+
qed

lemma kv_demo_contract: "slot_contract kv_demo_km kv_demo_m (kv_demo_request ''r'') kv_demo_args"
  by code_simp

lemma kv_demo_allocated: "\<exists>b r. allocate_slots (\<lambda>_. []) (kv_demo_request ''r'') kv_demo_args kv_demo_km = Inr (b, r, kv_demo_km2)"
proof -
  have "case kv_demo_slots of Inr _ \<Rightarrow> True | Inl _ \<Rightarrow> False" by code_simp
  then obtain b r k where k: "kv_demo_slots = Inr (b, r, k)" by (auto split: sum.splits)
  have "kv_demo_km2 = k" unfolding kv_demo_km2_def k by simp
  then show ?thesis using k unfolding kv_demo_slots_def by blast
qed

lemma kv_demo_run2: "kv_run kv_demo_km2"
  using kv_demo_allocated kv_run.slots [OF kv_demo_run kv_demo_managers(1) kv_demo_contract] by blast

lemma kv_demo_eval:
  "get_num_free_blocks (co_pool (km_co kv_demo_km)) = 4" "st_block_size kv_demo_m = 2" "blocks_of kv_demo_m ''r'' = []"
  "cdiv_int (slots_needed kv_demo_km (kv_demo_request ''r'') kv_demo_args) 2 = 2" "slots_needed kv_demo_km (kv_demo_request ''r'') kv_demo_args = 3"
  "req_to_blocks kv_demo_m2 = [(''r'', [Blk 1, Blk 2])]" "cached_upto kv_demo_m2 ''r'' = 1" "km_caching kv_demo_km2 = True"
  "blocks (co_pool (km_co kv_demo_km2)) = [Blk 0, Blk 1, Blk 2, Blk 3, Blk 4]" "null_block (co_pool (km_co kv_demo_km2)) = Blk 0"
  "st_block_size kv_demo_m2 = 2" "spec_kind (st_spec kv_demo_m2) = FullAttention" "co_eagle (km_co kv_demo_km2) = []"
  "kr_num_tokens (kv_demo_request rid) = 3"
  by code_simp+

lemma kv_demo_carries: "carries (co_pool (km_co kv_demo_km2)) [9] (Blk 1)"
proof -
  have "make_block_hash_with_group_id [9] 0 = Inr [9, 0, 0, 0, 0]" by code_simp
  moreover have "block_hash (heap (co_pool (km_co kv_demo_km2)) (Blk 1)) = Some [9, 0, 0, 0, 0]" by code_simp
  ultimately show ?thesis by (simp add: carries_def kv_demo_eval)
qed

theorem kv_references_exact_witness:
  "ref_cnt (heap (co_pool (km_co kv_demo_km2)) (Blk 1)) = 1 \<and> block_hash (heap (co_pool (km_co kv_demo_km2)) (Blk 2)) = None"
proof -
  note W = kv_references_exact [OF kv_demo_run2 kv_demo_managers(2)]
  have "blocks_of kv_demo_m2 ''r'' = [Blk 1, Blk 2]" by (simp add: blocks_of_def kv_demo_eval)
  then have "Blk 2 \<in> set (drop (cached_upto kv_demo_m2 ''r'') (blocks_of kv_demo_m2 ''r''))" by (simp add: kv_demo_eval)
  then have "block_hash (heap (co_pool (km_co kv_demo_km2)) (Blk 2)) = None" using W kv_demo_eval(8,10) by fastforce
  moreover have "ref_cnt (heap (co_pool (km_co kv_demo_km2)) (Blk 1)) = 1" using conjunct1 [OF W] by (simp add: kv_demo_eval)
  ultimately show ?thesis by blast
qed

theorem allocate_slots_safe_witness:
  "\<exists>b k' m'. allocate_slots (\<lambda>_. []) (kv_demo_request ''r'') kv_demo_args kv_demo_km = Inr (Some b, kr_request (kv_demo_request ''r''), k') \<and>
     co_managers (km_co k') = [m'] \<and> 3 \<le> int (length (blocks_of m' ''r'')) * 2"
proof -
  have r: "request_id (kr_request (kv_demo_request ''r'')) = ''r''" by (simp add: kv_demo_request_def)
  have f: "\<not> sa_full_sequence_must_fit kv_demo_args" by (simp add: kv_demo_args_def)
  show ?thesis
    using allocate_slots_safe [OF kv_demo_run kv_demo_managers(1) kv_demo_contract, of "\<lambda>_. []"] f unfolding r
    by (auto simp: kv_demo_eval cdiv_int_def split: option.splits)
qed


end
