(* ===== verification/Offload.thy ===== *)
theory Offload
  imports Ordered_Dict Block_Hash
begin

text \<open>
  CPU offloading of KV blocks (\<^verbatim>\<open>vllm/v1/kv_offload\<close>): the two cache policies (\<^verbatim>\<open>cpu/policies/lru.py\<close>,
  \<^verbatim>\<open>cpu/policies/arc.py\<close>), the manager that works with either (\<^verbatim>\<open>cpu/manager.py\<close>) and the reuse filter in
  front of it (\<^verbatim>\<open>reuse_manager.py\<close>). The policy is a record of operations the manager takes as an
  argument; the locale \<^verbatim>\<open>cache_policy\<close> is its contract, under which the manager is verified once, and
  which both policies satisfy. A block's counter is 32 bits wide in the source; the model assumes
  fewer than \<open>2 ^ 31\<close> concurrent loads of a block.
\<close>

type_synonym offload_key = bytes

definition make_offload_key :: "bytes \<Rightarrow> int \<Rightarrow> offload_key res" where
  "make_offload_key block_hash group_idx = res_bind (to_bytes4 group_idx) (\<lambda>b. Inr (block_hash @ b))"

definition get_offload_block_hash :: "offload_key \<Rightarrow> bytes" where
  "get_offload_block_hash key = take (length key - 4) key"

definition get_offload_group_idx :: "offload_key \<Rightarrow> int" where
  "get_offload_group_idx key = from_bytes (drop (length key - 4) key)"

lemma offload_key_roundtrip:
  assumes "make_offload_key h g = Inr k"
  shows "get_offload_block_hash k = h" and "get_offload_group_idx k = g"
  using assms by (auto simp: make_offload_key_def get_offload_block_hash_def get_offload_group_idx_def res_simps
      to_bytes4_length from_to_bytes4)

section \<open>Blocks and policies\<close>

record BlockStatus =
  bs_ref_cnt :: int
  bs_block_id :: nat

definition new_status :: "nat \<Rightarrow> BlockStatus" where
  "new_status i = \<lparr>bs_ref_cnt = - 1, bs_block_id = i\<rparr>"

definition is_ready :: "BlockStatus \<Rightarrow> bool" where
  "is_ready b \<longleftrightarrow> 0 \<le> bs_ref_cnt b"

text \<open>
  The operations of a policy. The source mutates the counter of a block in place; \<^verbatim>\<open>pol_put\<close> stands for
  this, replacing the status stored for a key where it is.
\<close>

record 'p policy_ops =
  pol_get :: "'p \<Rightarrow> offload_key \<Rightarrow> BlockStatus option"
  pol_put :: "offload_key \<Rightarrow> BlockStatus \<Rightarrow> 'p \<Rightarrow> 'p"
  pol_insert :: "offload_key \<Rightarrow> BlockStatus \<Rightarrow> 'p \<Rightarrow> 'p"
  pol_remove :: "offload_key \<Rightarrow> 'p \<Rightarrow> 'p res"
  pol_touch :: "offload_key list \<Rightarrow> 'p \<Rightarrow> 'p"
  pol_evict :: "nat \<Rightarrow> offload_key set \<Rightarrow> 'p \<Rightarrow> ((offload_key \<times> BlockStatus) list \<times> 'p) option"

type_synonym block_dict = "(offload_key, BlockStatus) odict"

subsection \<open>LRU\<close>

definition evictable :: "offload_key set \<Rightarrow> offload_key \<times> BlockStatus \<Rightarrow> bool" where
  "evictable protected e \<longleftrightarrow> bs_ref_cnt (snd e) = 0 \<and> fst e \<notin> protected"

definition lru_touch :: "offload_key list \<Rightarrow> block_dict \<Rightarrow> block_dict" where
  "lru_touch keys d = fold (\<lambda>k d. if k \<in> set (od_keys d) then od_move_to_end k d else d) (rev keys) d"

definition lru_remove :: "offload_key \<Rightarrow> block_dict \<Rightarrow> block_dict res" where
  "lru_remove k d = (if k \<in> set (od_keys d) then Inr (od_del k d) else Inl KeyError)"

definition lru_evict :: "nat \<Rightarrow> offload_key set \<Rightarrow> block_dict \<Rightarrow> ((offload_key \<times> BlockStatus) list \<times> block_dict) option" where
  "lru_evict n protected d =
     (if n = 0 then Some ([], d)
      else
        let candidates = take n (filter (evictable protected) d)
        in if length candidates < n then None
           else Some (candidates, fold (\<lambda>(k, _). od_del k) candidates d))"

definition lru_ops :: "block_dict policy_ops" where
  "lru_ops = \<lparr>pol_get = od_get, pol_put = od_set, pol_insert = od_set, pol_remove = lru_remove,
     pol_touch = lru_touch, pol_evict = lru_evict\<rparr>"

subsection \<open>ARC\<close>

text \<open>
  The adaptive target is a Python float; its arithmetic is a parameter. \<open>f_ratio a b\<close> is \<open>max(1, a / b)\<close>
  of two list lengths.
\<close>

record 'f float_ops =
  f_zero :: 'f
  f_ratio :: "nat \<Rightarrow> nat \<Rightarrow> 'f"
  f_raise :: "'f \<Rightarrow> 'f \<Rightarrow> nat \<Rightarrow> 'f"
  f_lower :: "'f \<Rightarrow> 'f \<Rightarrow> 'f"
  f_int :: "'f \<Rightarrow> int"

record 'f ARCCachePolicy =
  cache_capacity :: nat
  target_t1_size :: 'f
  t1 :: block_dict
  t2 :: block_dict
  b1 :: "(offload_key, unit) odict"
  b2 :: "(offload_key, unit) odict"

definition make_arc :: "'f float_ops \<Rightarrow> nat \<Rightarrow> 'f ARCCachePolicy" where
  "make_arc F capacity = \<lparr>cache_capacity = capacity, target_t1_size = f_zero F, t1 = [], t2 = [], b1 = [], b2 = []\<rparr>"

definition arc_get :: "'f ARCCachePolicy \<Rightarrow> offload_key \<Rightarrow> BlockStatus option" where
  "arc_get p k = (case od_get (t1 p) k of Some b \<Rightarrow> Some b | None \<Rightarrow> od_get (t2 p) k)"

definition arc_put :: "offload_key \<Rightarrow> BlockStatus \<Rightarrow> 'f ARCCachePolicy \<Rightarrow> 'f ARCCachePolicy" where
  "arc_put k b p = (if k \<in> set (od_keys (t1 p)) then p\<lparr>t1 := od_set k b (t1 p)\<rparr> else p\<lparr>t2 := od_set k b (t2 p)\<rparr>)"

definition arc_insert :: "offload_key \<Rightarrow> BlockStatus \<Rightarrow> 'f ARCCachePolicy \<Rightarrow> 'f ARCCachePolicy" where
  "arc_insert k b p = p\<lparr>t1 := od_set k b (t1 p), b1 := od_del k (b1 p), b2 := od_del k (b2 p)\<rparr>"

definition arc_remove :: "offload_key \<Rightarrow> 'f ARCCachePolicy \<Rightarrow> 'f ARCCachePolicy res" where
  "arc_remove k p =
     Inr (if k \<in> set (od_keys (t1 p)) then p\<lparr>t1 := od_del k (t1 p)\<rparr> else p\<lparr>t2 := od_del k (t2 p)\<rparr>)"

definition arc_touch1 :: "'f float_ops \<Rightarrow> offload_key \<Rightarrow> 'f ARCCachePolicy \<Rightarrow> 'f ARCCachePolicy" where
  "arc_touch1 F k p =
     (case od_get (t1 p) k of
        Some b \<Rightarrow>
          let rest = od_del k (t1 p)
          in if \<not> is_ready b then p\<lparr>t1 := od_set k b rest\<rparr> else p\<lparr>t1 := rest, t2 := od_set k b (t2 p)\<rparr>
      | None \<Rightarrow>
          if k \<in> set (od_keys (t2 p)) then p\<lparr>t2 := od_move_to_end k (t2 p)\<rparr>
          else if k \<in> set (od_keys (b1 p)) then
            p\<lparr>target_t1_size := f_raise F (target_t1_size p) (f_ratio F (length (b2 p)) (length (b1 p))) (cache_capacity p),
              b1 := od_move_to_end k (b1 p)\<rparr>
          else if k \<in> set (od_keys (b2 p)) then
            p\<lparr>target_t1_size := f_lower F (target_t1_size p) (f_ratio F (length (b1 p)) (length (b2 p))),
              b2 := od_move_to_end k (b2 p)\<rparr>
          else p)"

definition arc_touch :: "'f float_ops \<Rightarrow> offload_key list \<Rightarrow> 'f ARCCachePolicy \<Rightarrow> 'f ARCCachePolicy" where
  "arc_touch F keys p = fold (arc_touch1 F) (rev keys) p"

text \<open>One candidate, and the loop that collects them without touching the lists.\<close>

definition first_evictable :: "offload_key set \<Rightarrow> block_dict \<Rightarrow> (offload_key \<times> BlockStatus) option" where
  "first_evictable protected d = find (evictable protected) d"

primrec arc_select ::
  "'f float_ops \<Rightarrow> 'f ARCCachePolicy \<Rightarrow> nat \<Rightarrow> offload_key set \<Rightarrow> int \<Rightarrow> (offload_key \<times> BlockStatus \<times> bool) list option" where
  "arc_select F p 0 excluded virtual_t1 = Some []"
| "arc_select F p (Suc n) excluded virtual_t1 =
     (case (if f_int F (target_t1_size p) \<le> virtual_t1 then first_evictable excluded (t1 p) else None) of
        Some (k, b) \<Rightarrow> map_option (\<lambda>cs. (k, b, True) # cs) (arc_select F p n (insert k excluded) (virtual_t1 - 1))
      | None \<Rightarrow>
          (case first_evictable excluded (t2 p) of
             None \<Rightarrow> None
           | Some (k, b) \<Rightarrow> map_option (\<lambda>cs. (k, b, False) # cs) (arc_select F p n (insert k excluded) virtual_t1)))"

definition arc_apply :: "offload_key \<times> BlockStatus \<times> bool \<Rightarrow> 'f ARCCachePolicy \<Rightarrow> 'f ARCCachePolicy" where
  "arc_apply c p =
     (case c of (k, _, from_t1) \<Rightarrow>
        if from_t1 then p\<lparr>t1 := od_del k (t1 p), b1 := od_set k () (b1 p)\<rparr>
        else p\<lparr>t2 := od_del k (t2 p), b2 := od_set k () (b2 p)\<rparr>)"

definition arc_trim :: "'f ARCCachePolicy \<Rightarrow> 'f ARCCachePolicy" where
  "arc_trim p = p\<lparr>b1 := drop (length (b1 p) - cache_capacity p) (b1 p), b2 := drop (length (b2 p) - cache_capacity p) (b2 p)\<rparr>"

definition arc_evict ::
  "'f float_ops \<Rightarrow> nat \<Rightarrow> offload_key set \<Rightarrow> 'f ARCCachePolicy \<Rightarrow> ((offload_key \<times> BlockStatus) list \<times> 'f ARCCachePolicy) option" where
  "arc_evict F n protected p =
     (if n = 0 then Some ([], p)
      else map_option (\<lambda>cs. (map (\<lambda>(k, b, _). (k, b)) cs, arc_trim (fold arc_apply cs p)))
             (arc_select F p n protected (int (length (t1 p)))))"

definition arc_ops :: "'f float_ops \<Rightarrow> 'f ARCCachePolicy policy_ops" where
  "arc_ops F = \<lparr>pol_get = arc_get, pol_put = arc_put, pol_insert = arc_insert, pol_remove = arc_remove,
     pol_touch = arc_touch F, pol_evict = arc_evict F\<rparr>"

subsection \<open>Choice of the policy\<close>

datatype 'f cache_policy_state = LruP block_dict | ArcP "'f ARCCachePolicy"

text \<open>Dynamic dispatch on the policy object the manager holds.\<close>

definition dyn_ops :: "'f float_ops \<Rightarrow> 'f cache_policy_state policy_ops" where
  "dyn_ops F = \<lparr>
     pol_get = (\<lambda>s. case s of LruP p \<Rightarrow> pol_get lru_ops p | ArcP p \<Rightarrow> pol_get (arc_ops F) p),
     pol_put = (\<lambda>k b s. case s of LruP p \<Rightarrow> LruP (pol_put lru_ops k b p) | ArcP p \<Rightarrow> ArcP (pol_put (arc_ops F) k b p)),
     pol_insert = (\<lambda>k b s. case s of LruP p \<Rightarrow> LruP (pol_insert lru_ops k b p) | ArcP p \<Rightarrow> ArcP (pol_insert (arc_ops F) k b p)),
     pol_remove = (\<lambda>k s. case s of
         LruP p \<Rightarrow> res_bind (pol_remove lru_ops k p) (\<lambda>q. Inr (LruP q))
       | ArcP p \<Rightarrow> res_bind (pol_remove (arc_ops F) k p) (\<lambda>q. Inr (ArcP q))),
     pol_touch = (\<lambda>ks s. case s of LruP p \<Rightarrow> LruP (pol_touch lru_ops ks p) | ArcP p \<Rightarrow> ArcP (pol_touch (arc_ops F) ks p)),
     pol_evict = (\<lambda>n prot s. case s of
         LruP p \<Rightarrow> map_option (\<lambda>(vs, q). (vs, LruP q)) (pol_evict lru_ops n prot p)
       | ArcP p \<Rightarrow> map_option (\<lambda>(vs, q). (vs, ArcP q)) (pol_evict (arc_ops F) n prot p))\<rparr>"

definition make_policy :: "'f float_ops \<Rightarrow> string \<Rightarrow> nat \<Rightarrow> 'f cache_policy_state res" where
  "make_policy F name capacity =
     (if name = ''lru'' then Inr (LruP []) else if name = ''arc'' then Inr (ArcP (make_arc F capacity))
      else Inl (ValueError ''Unknown cache policy''))"

section \<open>The manager\<close>

record offload_event =
  ev_keys :: "offload_key list"
  ev_removed :: bool

record 'p CPUOffloadingManager =
  m_num_blocks :: nat
  m_num_allocated_blocks :: nat
  m_free_list :: "nat list"
  m_events :: "offload_event list option"
  m_policy :: 'p

definition make_manager :: "'f float_ops \<Rightarrow> nat \<Rightarrow> string \<Rightarrow> bool \<Rightarrow> 'f cache_policy_state CPUOffloadingManager res" where
  "make_manager F num_blocks cache_policy enable_events =
     res_bind (make_policy F cache_policy num_blocks) (\<lambda>policy.
       Inr \<lparr>m_num_blocks = num_blocks, m_num_allocated_blocks = 0, m_free_list = [],
            m_events = (if enable_events then Some [] else None), m_policy = policy\<rparr>)"

definition m_get_num_free_blocks :: "'p CPUOffloadingManager \<Rightarrow> int" where
  "m_get_num_free_blocks m = int (length (m_free_list m)) + int (m_num_blocks m) - int (m_num_allocated_blocks m)"

text \<open>Fresh ids first, then ids from the end of the free list.\<close>

definition allocate_blocks :: "nat \<Rightarrow> 'p CPUOffloadingManager \<Rightarrow> (BlockStatus list \<times> 'p CPUOffloadingManager) res" where
  "allocate_blocks n m =
     (let num_fresh = min n (m_num_blocks m - m_num_allocated_blocks m);
          num_reused = n - num_fresh
      in if length (m_free_list m) < num_reused then Inl AssertionError
         else Inr (map new_status ([m_num_allocated_blocks m..<m_num_allocated_blocks m + num_fresh] @
                     take num_reused (rev (m_free_list m))),
                   m\<lparr>m_num_allocated_blocks := m_num_allocated_blocks m + num_fresh,
                     m_free_list := take (length (m_free_list m) - num_reused) (m_free_list m)\<rparr>))"

definition free_block :: "BlockStatus \<Rightarrow> 'p CPUOffloadingManager \<Rightarrow> 'p CPUOffloadingManager" where
  "free_block b m = m\<lparr>m_free_list := m_free_list m @ [bs_block_id b]\<rparr>"

definition add_event :: "offload_key list \<Rightarrow> bool \<Rightarrow> 'p CPUOffloadingManager \<Rightarrow> 'p CPUOffloadingManager" where
  "add_event keys removed m =
     (if keys = [] then m
      else m\<lparr>m_events := map_option (\<lambda>es. es @ [\<lparr>ev_keys = keys, ev_removed = removed\<rparr>]) (m_events m)\<rparr>)"

datatype lookup_result = Hit | Miss | Retry

definition m_lookup :: "'p policy_ops \<Rightarrow> offload_key \<Rightarrow> 'p CPUOffloadingManager \<Rightarrow> lookup_result" where
  "m_lookup ops k m =
     (case pol_get ops (m_policy m) k of None \<Rightarrow> Miss | Some b \<Rightarrow> if is_ready b then Hit else Retry)"

definition load_one :: "'p policy_ops \<Rightarrow> offload_key \<Rightarrow> nat list \<times> 'p \<Rightarrow> (nat list \<times> 'p) res" where
  "load_one ops k s =
     (case s of (ids, p) \<Rightarrow>
        case pol_get ops p k of
          None \<Rightarrow> Inl AssertionError
        | Some b \<Rightarrow>
            if \<not> is_ready b then Inl AssertionError
            else Inr (ids @ [bs_block_id b], pol_put ops k (b\<lparr>bs_ref_cnt := bs_ref_cnt b + 1\<rparr>) p))"

definition prepare_load :: "'p policy_ops \<Rightarrow> offload_key list \<Rightarrow> 'p CPUOffloadingManager \<Rightarrow> (nat list \<times> 'p CPUOffloadingManager) res" where
  "prepare_load ops keys m =
     res_bind (res_fold (load_one ops) keys ([], m_policy m)) (\<lambda>(ids, p). Inr (ids, m\<lparr>m_policy := p\<rparr>))"

definition m_touch :: "'p policy_ops \<Rightarrow> offload_key list \<Rightarrow> 'p CPUOffloadingManager \<Rightarrow> 'p CPUOffloadingManager" where
  "m_touch ops keys m = m\<lparr>m_policy := pol_touch ops keys (m_policy m)\<rparr>"

definition unload_one :: "'p policy_ops \<Rightarrow> offload_key \<Rightarrow> 'p \<Rightarrow> 'p res" where
  "unload_one ops k p =
     (case pol_get ops p k of
        None \<Rightarrow> Inl AssertionError
      | Some b \<Rightarrow>
          if bs_ref_cnt b \<le> 0 then Inl AssertionError
          else Inr (pol_put ops k (b\<lparr>bs_ref_cnt := bs_ref_cnt b - 1\<rparr>) p))"

definition complete_load :: "'p policy_ops \<Rightarrow> offload_key list \<Rightarrow> 'p CPUOffloadingManager \<Rightarrow> 'p CPUOffloadingManager res" where
  "complete_load ops keys m =
     res_bind (res_fold (unload_one ops) keys (m_policy m)) (\<lambda>p. Inr (m\<lparr>m_policy := p\<rparr>))"

record PrepareStoreOutput =
  keys_to_store :: "offload_key list"
  store_spec :: "nat list"
  evicted_keys :: "offload_key list"

definition prepare_store ::
  "'p policy_ops \<Rightarrow> offload_key list \<Rightarrow> 'p CPUOffloadingManager \<Rightarrow> (PrepareStoreOutput option \<times> 'p CPUOffloadingManager) res" where
  "prepare_store ops keys m =
     (let new_keys = filter (\<lambda>k. pol_get ops (m_policy m) k = None) keys in
      if new_keys = [] then Inr (Some \<lparr>keys_to_store = [], store_spec = [], evicted_keys = []\<rparr>, m)
      else
        let excess = int (length new_keys) - m_get_num_free_blocks m in
        case (if 0 < excess then pol_evict ops (nat excess) (set keys) (m_policy m) else Some ([], m_policy m)) of
          None \<Rightarrow> Inr (None, m)
        | Some (evicted, p) \<Rightarrow>
            let to_evict = map fst evicted;
                m1 = fold (\<lambda>(_, b). free_block b) evicted (m\<lparr>m_policy := p\<rparr>);
                m2 = add_event to_evict True m1
            in res_bind (allocate_blocks (length new_keys) m2) (\<lambda>(blocks, m3).
                 if length blocks \<noteq> length new_keys then Inl AssertionError
                 else Inr (Some \<lparr>keys_to_store = new_keys, store_spec = map bs_block_id blocks, evicted_keys = to_evict\<rparr>,
                      m3\<lparr>m_policy := fold (\<lambda>(k, b). pol_insert ops k b) (zip new_keys blocks) (m_policy m3)\<rparr>)))"

definition store_one :: "'p policy_ops \<Rightarrow> offload_key \<Rightarrow> offload_key list \<times> 'p \<Rightarrow> offload_key list \<times> 'p" where
  "store_one ops k s =
     (case s of (stored, p) \<Rightarrow>
        case pol_get ops p k of
          None \<Rightarrow> (stored, p)
        | Some b \<Rightarrow> if is_ready b then (stored, p) else (stored @ [k], pol_put ops k (b\<lparr>bs_ref_cnt := 0\<rparr>) p))"

definition drop_one :: "'p policy_ops \<Rightarrow> offload_key \<Rightarrow> 'p CPUOffloadingManager \<Rightarrow> 'p CPUOffloadingManager res" where
  "drop_one ops k m =
     (case pol_get ops (m_policy m) k of
        None \<Rightarrow> Inr m
      | Some b \<Rightarrow>
          if is_ready b then Inr m
          else res_bind (pol_remove ops k (m_policy m)) (\<lambda>p. Inr (free_block b (m\<lparr>m_policy := p\<rparr>))))"

definition complete_store ::
  "'p policy_ops \<Rightarrow> offload_key list \<Rightarrow> bool \<Rightarrow> 'p CPUOffloadingManager \<Rightarrow> 'p CPUOffloadingManager res" where
  "complete_store ops keys success m =
     (if success
      then let (stored, p) = fold (store_one ops) keys ([], m_policy m) in Inr (add_event stored False (m\<lparr>m_policy := p\<rparr>))
      else res_fold (drop_one ops) keys m)"

definition m_take_events :: "'p CPUOffloadingManager \<Rightarrow> offload_event list \<times> 'p CPUOffloadingManager" where
  "m_take_events m =
     (case m_events m of None \<Rightarrow> ([], m) | Some es \<Rightarrow> (es, m\<lparr>m_events := Some []\<rparr>))"

section \<open>The reuse filter\<close>

record 'p FilterReused =
  fr_backing :: "'p CPUOffloadingManager"
  fr_store_threshold :: int
  fr_max_tracker_size :: int
  fr_counts :: "(offload_key, int) odict"

definition make_filter :: "'p CPUOffloadingManager \<Rightarrow> int \<Rightarrow> int \<Rightarrow> 'p FilterReused res" where
  "make_filter backing threshold max_size =
     (if threshold < 2 then Inl (ValueError ''store_threshold must be >= 2'')
      else if max_size < 1 then Inl (ValueError ''max_tracker_size must be >= 1'')
      else Inr \<lparr>fr_backing = backing, fr_store_threshold = threshold, fr_max_tracker_size = max_size, fr_counts = []\<rparr>)"

definition track :: "int \<Rightarrow> offload_key \<Rightarrow> (offload_key, int) odict \<Rightarrow> (offload_key, int) odict" where
  "track max_size k d =
     (case od_get d k of
        Some n \<Rightarrow> od_set k (n + 1) (od_move_to_end k d)
      | None \<Rightarrow> od_set k 1 (if max_size \<le> int (length d) then tl d else d))"

definition fr_lookup :: "'p policy_ops \<Rightarrow> offload_key \<Rightarrow> 'p FilterReused \<Rightarrow> lookup_result \<times> 'p FilterReused" where
  "fr_lookup ops k r =
     (m_lookup ops k (fr_backing r), r\<lparr>fr_counts := track (fr_max_tracker_size r) k (fr_counts r)\<rparr>)"

definition seen :: "'p FilterReused \<Rightarrow> offload_key \<Rightarrow> int" where
  "seen r k = (case od_get (fr_counts r) k of None \<Rightarrow> 0 | Some n \<Rightarrow> n)"

definition fr_prepare_store ::
  "'p policy_ops \<Rightarrow> offload_key list \<Rightarrow> 'p FilterReused \<Rightarrow> (PrepareStoreOutput option \<times> 'p FilterReused) res" where
  "fr_prepare_store ops keys r =
     (let eligible = filter (\<lambda>k. fr_store_threshold r \<le> seen r k) keys
      in res_bind (prepare_store ops eligible (fr_backing r)) (\<lambda>(out, m). Inr (out, r\<lparr>fr_backing := m\<rparr>)))"

definition fr_prepare_load :: "'p policy_ops \<Rightarrow> offload_key list \<Rightarrow> 'p FilterReused \<Rightarrow> (nat list \<times> 'p FilterReused) res" where
  "fr_prepare_load ops keys r = res_bind (prepare_load ops keys (fr_backing r)) (\<lambda>(ids, m). Inr (ids, r\<lparr>fr_backing := m\<rparr>))"

definition fr_touch :: "'p policy_ops \<Rightarrow> offload_key list \<Rightarrow> 'p FilterReused \<Rightarrow> 'p FilterReused" where
  "fr_touch ops keys r = r\<lparr>fr_backing := m_touch ops keys (fr_backing r)\<rparr>"

definition fr_complete_load :: "'p policy_ops \<Rightarrow> offload_key list \<Rightarrow> 'p FilterReused \<Rightarrow> 'p FilterReused res" where
  "fr_complete_load ops keys r = res_bind (complete_load ops keys (fr_backing r)) (\<lambda>m. Inr (r\<lparr>fr_backing := m\<rparr>))"

definition fr_complete_store :: "'p policy_ops \<Rightarrow> offload_key list \<Rightarrow> bool \<Rightarrow> 'p FilterReused \<Rightarrow> 'p FilterReused res" where
  "fr_complete_store ops keys success r =
     res_bind (complete_store ops keys success (fr_backing r)) (\<lambda>m. Inr (r\<lparr>fr_backing := m\<rparr>))"

definition fr_take_events :: "'p FilterReused \<Rightarrow> offload_event list \<times> 'p FilterReused" where
  "fr_take_events r = (let (es, m) = m_take_events (fr_backing r) in (es, r\<lparr>fr_backing := m\<rparr>))"

section \<open>The contract of a policy\<close>

locale cache_policy =
  fixes ops :: "'p policy_ops" and ok :: "'p \<Rightarrow> bool"
  assumes put: "ok p \<Longrightarrow> pol_get ops p k = Some b0 \<Longrightarrow>
      ok (pol_put ops k b p) \<and> pol_get ops (pol_put ops k b p) = (pol_get ops p)(k \<mapsto> b)"
    and insert: "ok p \<Longrightarrow> pol_get ops p k = None \<Longrightarrow>
      ok (pol_insert ops k b p) \<and> pol_get ops (pol_insert ops k b p) = (pol_get ops p)(k \<mapsto> b)"
    and remove: "ok p \<Longrightarrow> pol_get ops p k = Some b0 \<Longrightarrow>
      \<exists>q. pol_remove ops k p = Inr q \<and> ok q \<and> pol_get ops q = (pol_get ops p)(k := None)"
    and touch: "ok p \<Longrightarrow> ok (pol_touch ops ks p) \<and> pol_get ops (pol_touch ops ks p) = pol_get ops p"
    and evict: "ok p \<Longrightarrow> pol_evict ops n prot p = Some (vs, q) \<Longrightarrow>
      ok q \<and> length vs = n \<and> distinct (map fst vs) \<and>
      (\<forall>(k, b) \<in> set vs. pol_get ops p k = Some b \<and> bs_ref_cnt b = 0 \<and> k \<notin> prot) \<and>
      pol_get ops q = (\<lambda>k. if k \<in> set (map fst vs) then None else pol_get ops p k)"

subsection \<open>LRU keeps the contract\<close>

lemma in_keys: "k \<in> fst ` set d \<longleftrightarrow> od_get d k \<noteq> None"
  by (simp add: od_get_None)

lemma fold_del_get:
  "od_get (fold (\<lambda>(k, _). od_del k) cs d) = (\<lambda>k. if k \<in> set (map fst cs) then None else od_get d k)"
  by (induction cs arbitrary: d) (auto simp: od_simps fun_eq_iff split: prod.splits)

lemma fold_del_ok: "od_ok d \<Longrightarrow> od_ok (fold (\<lambda>(k, _). od_del k) cs d)"
  by (induction cs arbitrary: d) (auto split: prod.splits)

lemma distinct_keys_filter: "od_ok d \<Longrightarrow> distinct (map fst (take n (filter P d)))"
proof -
  assume "od_ok d"
  then have "distinct (map fst (filter P d))" by (simp add: od_ok_def distinct_map_filter)
  then show ?thesis by (simp add: take_map [symmetric])
qed

lemma od_set_upd: "od_get (od_set k b d) = (od_get d)(k \<mapsto> b)"
  by (auto simp: od_simps fun_eq_iff)

lemma od_del_upd: "od_get (od_del k d) = (od_get d)(k := None)"
  by (auto simp: od_simps fun_eq_iff)

lemma lru_touch_ok: "od_ok d \<Longrightarrow> od_ok (lru_touch ks d) \<and> od_get (lru_touch ks d) = od_get d"
proof -
  have "od_ok d \<Longrightarrow> od_ok (fold (\<lambda>k d. if k \<in> set (od_keys d) then od_move_to_end k d else d) ks d) \<and>
     od_get (fold (\<lambda>k d. if k \<in> set (od_keys d) then od_move_to_end k d else d) ks d) = od_get d" for ks
    by (induction ks arbitrary: d) (auto simp: od_get_move)
  then show "od_ok d \<Longrightarrow> ?thesis" unfolding lru_touch_def by blast
qed

lemma lru_evict_ok:
  assumes d: "od_ok d" and e: "lru_evict n prot d = Some (vs, q)"
  shows "od_ok q" "length vs = n" "distinct (map fst vs)"
    "\<forall>(k, b) \<in> set vs. od_get d k = Some b \<and> bs_ref_cnt b = 0 \<and> k \<notin> prot"
    "od_get q = (\<lambda>k. if k \<in> set (map fst vs) then None else od_get d k)"
proof -
  have v: "vs = take n (filter (evictable prot) d)" "q = fold (\<lambda>(k, _). od_del k) vs d" "length vs = n"
    using e by (auto simp: lru_evict_def Let_def split: if_splits)
  show "length vs = n" by (rule v(3))
  show "od_ok q" unfolding v(2) by (rule fold_del_ok [OF d])
  show "distinct (map fst vs)" unfolding v(1) by (rule distinct_keys_filter [OF d])
  show "od_get q = (\<lambda>k. if k \<in> set (map fst vs) then None else od_get d k)" unfolding v(2) by (rule fold_del_get)
  show "\<forall>(k, b) \<in> set vs. od_get d k = Some b \<and> bs_ref_cnt b = 0 \<and> k \<notin> prot"
    unfolding v(1) using d by (auto dest!: in_set_takeD simp: evictable_def od_ok_def)
qed

interpretation lru: cache_policy lru_ops od_ok
proof
  show "od_ok p \<Longrightarrow> pol_evict lru_ops n prot p = Some (vs, q) \<Longrightarrow>
      od_ok q \<and> length vs = n \<and> distinct (map fst vs) \<and>
      (\<forall>(k, b) \<in> set vs. pol_get lru_ops p k = Some b \<and> bs_ref_cnt b = 0 \<and> k \<notin> prot) \<and>
      pol_get lru_ops q = (\<lambda>k. if k \<in> set (map fst vs) then None else pol_get lru_ops p k)" for p n prot vs q
    using lru_evict_ok [of p n prot vs q] by (simp add: lru_ops_def cong: if_cong)
qed (auto simp: lru_ops_def od_set_upd od_del_upd lru_touch_ok lru_remove_def in_keys)

subsection \<open>ARC keeps the contract\<close>

definition arc_ok :: "'f ARCCachePolicy \<Rightarrow> bool" where
  "arc_ok p \<longleftrightarrow> od_ok (t1 p) \<and> od_ok (t2 p) \<and> (\<forall>k b. od_get (t1 p) k = Some b \<longrightarrow> od_get (t2 p) k = None)"

lemma arc_get_add: "arc_get p = od_get (t2 p) ++ od_get (t1 p)"
  by (auto simp: arc_get_def map_add_def fun_eq_iff)

lemma arc_touch1_ok:
  assumes "arc_ok p"
  shows "arc_ok (arc_touch1 F k p) \<and> arc_get (arc_touch1 F k p) = arc_get p"
proof (cases "od_get (t1 p) k")
  case None
  then show ?thesis using assms by (auto simp: arc_touch1_def arc_ok_def arc_get_add od_get_move)
next
  case (Some b)
  then have "od_get (t2 p) k = None" using assms by (auto simp: arc_ok_def)
  then show ?thesis using assms Some
    by (auto simp: arc_touch1_def arc_ok_def arc_get_def fun_eq_iff od_simps Let_def split: option.splits)
qed

lemma arc_touch_ok: "arc_ok p \<Longrightarrow> arc_ok (arc_touch F ks p) \<and> arc_get (arc_touch F ks p) = arc_get p"
proof -
  have "arc_ok p \<Longrightarrow> arc_ok (fold (arc_touch1 F) ks p) \<and> arc_get (fold (arc_touch1 F) ks p) = arc_get p" for ks
    by (induction ks arbitrary: p) (auto simp: arc_touch1_ok)
  then show "arc_ok p \<Longrightarrow> ?thesis" unfolding arc_touch_def by blast
qed

lemma first_evictable_Some:
  "od_ok d \<Longrightarrow> first_evictable excl d = Some (k, b) \<Longrightarrow> od_get d k = Some b \<and> bs_ref_cnt b = 0 \<and> k \<notin> excl"
  by (auto simp: first_evictable_def evictable_def find_Some_iff od_get_mem in_set_conv_nth) (metis fst_conv snd_conv)+

text \<open>What the selection loop guarantees of every candidate.\<close>

definition candidate_ok :: "'f ARCCachePolicy \<Rightarrow> offload_key set \<Rightarrow> offload_key \<times> BlockStatus \<times> bool \<Rightarrow> bool" where
  "candidate_ok p excl c \<longleftrightarrow> (case c of (k, b, from_t1) \<Rightarrow>
     od_get (if from_t1 then t1 p else t2 p) k = Some b \<and> bs_ref_cnt b = 0 \<and> k \<notin> excl)"

lemma arc_select_ok:
  assumes "arc_ok p" and "arc_select F p n excl v = Some cs"
  shows "length cs = n \<and> distinct (map fst cs) \<and> (\<forall>c \<in> set cs. candidate_ok p excl c)"
  using assms(2)
proof (induction n arbitrary: excl v cs)
  case (Suc n)
  have ok: "od_ok (t1 p)" "od_ok (t2 p)" using assms(1) by (auto simp: arc_ok_def)
  have step: "length (c # ds) = Suc n \<and> distinct (map fst (c # ds)) \<and> (\<forall>x \<in> set (c # ds). candidate_ok p excl x)"
    if "candidate_ok p excl c" "arc_select F p n (insert (fst c) excl) w = Some ds" for c ds w
    using that(1) Suc.IH [OF that(2)] by (force simp: candidate_ok_def)
  show ?case
  proof (cases "if f_int F (target_t1_size p) \<le> v then first_evictable excl (t1 p) else None")
    case (Some c)
    then obtain k b where f: "first_evictable excl (t1 p) = Some (k, b)" and c: "c = (k, b)" by (cases c) (auto split: if_splits)
    obtain ds where "cs = (k, b, True) # ds" "arc_select F p n (insert k excl) (v - 1) = Some ds"
      using Suc.prems Some c by auto
    then show ?thesis using step [of "(k, b, True)" "v - 1" ds] first_evictable_Some [OF ok(1) f]
      by (simp add: candidate_ok_def)
  next
    case None
    then obtain k b ds where f: "first_evictable excl (t2 p) = Some (k, b)"
      and "cs = (k, b, False) # ds" "arc_select F p n (insert k excl) v = Some ds"
      using Suc.prems by (auto split: option.splits)
    then show ?thesis using step [of "(k, b, False)" v ds] first_evictable_Some [OF ok(2) f]
      by (simp add: candidate_ok_def)
  qed
qed auto

lemma arc_apply_ok:
  assumes "arc_ok p" and "candidate_ok p excl c"
  shows "arc_ok (arc_apply c p)" and "arc_get (arc_apply c p) = (arc_get p)(fst c := None)"
  using assms by (auto simp: arc_apply_def arc_ok_def arc_get_def candidate_ok_def fun_eq_iff od_simps
      split: prod.splits option.splits if_splits)

lemma candidate_ok_apply:
  "candidate_ok p excl c \<Longrightarrow> fst c \<noteq> fst d \<Longrightarrow> candidate_ok (arc_apply d p) excl c"
  by (auto simp: arc_apply_def candidate_ok_def od_simps split: prod.splits)

lemma arc_apply_all:
  assumes "arc_ok p" and "\<forall>c \<in> set cs. candidate_ok p excl c" and "distinct (map fst cs)"
  shows "arc_ok (fold arc_apply cs p) \<and>
    arc_get (fold arc_apply cs p) = (\<lambda>k. if k \<in> set (map fst cs) then None else arc_get p k)"
  using assms
proof (induction cs arbitrary: p)
  case (Cons c cs)
  have c: "candidate_ok p excl c" using Cons.prems by simp
  have "\<forall>x \<in> set cs. candidate_ok (arc_apply c p) excl x"
  proof
    fix x assume "x \<in> set cs"
    then have "fst x \<noteq> fst c" using Cons.prems(3) by (metis distinct.simps(2) image_eqI list.simps(9) list.set_map)
    then show "candidate_ok (arc_apply c p) excl x" using Cons.prems(2) \<open>x \<in> set cs\<close> by (simp add: candidate_ok_apply)
  qed
  from Cons.IH [OF arc_apply_ok(1) [OF Cons.prems(1) c] this] Cons.prems(3)
  show ?case by (auto simp: arc_apply_ok(2) [OF Cons.prems(1) c] fun_eq_iff)
qed auto

lemma arc_evict_ok:
  assumes p: "arc_ok p" and e: "arc_evict F n prot p = Some (vs, q)"
  shows "arc_ok q \<and> length vs = n \<and> distinct (map fst vs) \<and>
    (\<forall>(k, b) \<in> set vs. arc_get p k = Some b \<and> bs_ref_cnt b = 0 \<and> k \<notin> prot) \<and>
    arc_get q = (\<lambda>k. if k \<in> set (map fst vs) then None else arc_get p k)"
proof (cases "n = 0")
  case True
  then show ?thesis using p e by (auto simp: arc_evict_def)
next
  case False
  then obtain cs where s: "arc_select F p n prot (int (length (t1 p))) = Some cs"
    and vs: "vs = map (\<lambda>(k, b, _). (k, b)) cs" and q: "q = arc_trim (fold arc_apply cs p)"
    using e by (auto simp: arc_evict_def)
  note sel = arc_select_ok [OF p s]
  have keys: "map fst vs = map fst cs" unfolding vs by (induction cs) auto
  have q2: "arc_ok q = arc_ok (fold arc_apply cs p)" "arc_get q = arc_get (fold arc_apply cs p)"
    unfolding q by (auto simp: arc_trim_def arc_ok_def arc_get_add)
  have "\<forall>(k, b) \<in> set vs. arc_get p k = Some b \<and> bs_ref_cnt b = 0 \<and> k \<notin> prot"
    using sel p unfolding vs by (fastforce simp: candidate_ok_def arc_get_def arc_ok_def split: if_splits option.splits)
  then show ?thesis using sel arc_apply_all [OF p, of cs prot] unfolding keys q2
    by (simp add: vs)
qed

interpretation arc: cache_policy "arc_ops F" arc_ok
proof
  show "arc_ok p \<Longrightarrow> pol_evict (arc_ops F) n prot p = Some (vs, q) \<Longrightarrow>
      arc_ok q \<and> length vs = n \<and> distinct (map fst vs) \<and>
      (\<forall>(k, b) \<in> set vs. pol_get (arc_ops F) p k = Some b \<and> bs_ref_cnt b = 0 \<and> k \<notin> prot) \<and>
      pol_get (arc_ops F) q = (\<lambda>k. if k \<in> set (map fst vs) then None else pol_get (arc_ops F) p k)" for p n prot vs q
    using arc_evict_ok [of p F n prot vs q] by (simp add: arc_ops_def cong: if_cong)
  show "arc_ok p \<Longrightarrow> arc_ok (pol_touch (arc_ops F) ks p) \<and> pol_get (arc_ops F) (pol_touch (arc_ops F) ks p) = pol_get (arc_ops F) p"
    for p ks by (simp add: arc_ops_def arc_touch_ok)
qed (auto simp: arc_ops_def arc_get_def arc_ok_def arc_put_def arc_insert_def arc_remove_def
    fun_eq_iff od_simps in_keys split: option.splits)

subsection \<open>The policy the manager was built with\<close>

fun dyn_ok :: "'f cache_policy_state \<Rightarrow> bool" where
  "dyn_ok (LruP p) \<longleftrightarrow> od_ok p"
| "dyn_ok (ArcP p) \<longleftrightarrow> arc_ok p"

lemma dyn_LruP [simp]:
  "pol_get (dyn_ops F) (LruP p) = pol_get lru_ops p"
  "pol_put (dyn_ops F) k b (LruP p) = LruP (pol_put lru_ops k b p)"
  "pol_insert (dyn_ops F) k b (LruP p) = LruP (pol_insert lru_ops k b p)"
  "pol_remove (dyn_ops F) k (LruP p) = res_bind (pol_remove lru_ops k p) (\<lambda>q. Inr (LruP q))"
  "pol_touch (dyn_ops F) ks (LruP p) = LruP (pol_touch lru_ops ks p)"
  "pol_evict (dyn_ops F) n prot (LruP p) = map_option (\<lambda>(vs, q). (vs, LruP q)) (pol_evict lru_ops n prot p)"
  by (simp_all add: dyn_ops_def)

lemma dyn_ArcP [simp]:
  "pol_get (dyn_ops F) (ArcP p) = pol_get (arc_ops F) p"
  "pol_put (dyn_ops F) k b (ArcP p) = ArcP (pol_put (arc_ops F) k b p)"
  "pol_insert (dyn_ops F) k b (ArcP p) = ArcP (pol_insert (arc_ops F) k b p)"
  "pol_remove (dyn_ops F) k (ArcP p) = res_bind (pol_remove (arc_ops F) k p) (\<lambda>q. Inr (ArcP q))"
  "pol_touch (dyn_ops F) ks (ArcP p) = ArcP (pol_touch (arc_ops F) ks p)"
  "pol_evict (dyn_ops F) n prot (ArcP p) = map_option (\<lambda>(vs, q). (vs, ArcP q)) (pol_evict (arc_ops F) n prot p)"
  by (simp_all add: dyn_ops_def)

interpretation dyn: cache_policy "dyn_ops F" dyn_ok
proof
  fix p :: "'a cache_policy_state" and k b b0
  show "dyn_ok p \<Longrightarrow> pol_get (dyn_ops F) p k = Some b0 \<Longrightarrow>
      dyn_ok (pol_put (dyn_ops F) k b p) \<and> pol_get (dyn_ops F) (pol_put (dyn_ops F) k b p) = (pol_get (dyn_ops F) p)(k \<mapsto> b)"
    by (cases p) (simp_all add: lru.put arc.put)
  show "dyn_ok p \<Longrightarrow> pol_get (dyn_ops F) p k = None \<Longrightarrow>
      dyn_ok (pol_insert (dyn_ops F) k b p) \<and> pol_get (dyn_ops F) (pol_insert (dyn_ops F) k b p) = (pol_get (dyn_ops F) p)(k \<mapsto> b)"
    by (cases p) (simp_all add: lru.insert arc.insert)
  show "dyn_ok p \<Longrightarrow> pol_get (dyn_ops F) p k = Some b0 \<Longrightarrow>
      \<exists>q. pol_remove (dyn_ops F) k p = Inr q \<and> dyn_ok q \<and> pol_get (dyn_ops F) q = (pol_get (dyn_ops F) p)(k := None)"
    by (cases p) (auto dest: lru.remove arc.remove)
next
  fix p :: "'a cache_policy_state" and ks
  show "dyn_ok p \<Longrightarrow> dyn_ok (pol_touch (dyn_ops F) ks p) \<and> pol_get (dyn_ops F) (pol_touch (dyn_ops F) ks p) = pol_get (dyn_ops F) p"
    by (cases p) (simp_all add: lru.touch arc.touch)
next
  fix p q :: "'a cache_policy_state" and n prot vs
  show "dyn_ok p \<Longrightarrow> pol_evict (dyn_ops F) n prot p = Some (vs, q) \<Longrightarrow>
      dyn_ok q \<and> length vs = n \<and> distinct (map fst vs) \<and>
      (\<forall>(k, b) \<in> set vs. pol_get (dyn_ops F) p k = Some b \<and> bs_ref_cnt b = 0 \<and> k \<notin> prot) \<and>
      pol_get (dyn_ops F) q = (\<lambda>k. if k \<in> set (map fst vs) then None else pol_get (dyn_ops F) p k)"
    by (cases p) (auto dest: lru.evict arc.evict cong: if_cong)
qed

end
