(* ===== verification/Offload_Safety.thy ===== *)
theory Offload_Safety
  imports Complex_Main Offload
begin

text \<open>
  Correctness of the offloading manager. Its lemmas are proved once in the policy contract; the
  properties are their instances for the policy chosen by name, LRU or ARC.
\<close>

section \<open>Accounting of block ids\<close>

text \<open>
  \<open>held\<close> are ids that have left the free list and are not yet attached to a key; between two calls it
  is empty.
\<close>

definition ids_ok :: "nat \<Rightarrow> nat \<Rightarrow> nat list \<Rightarrow> nat list \<Rightarrow> (offload_key \<rightharpoonup> nat) \<Rightarrow> bool" where
  "ids_ok num alloc free held I \<longleftrightarrow>
     alloc \<le> num \<and> distinct (free @ held) \<and> ran I \<inter> (set free \<union> set held) = {} \<and>
     (\<forall>k k' i. I k = Some i \<longrightarrow> I k' = Some i \<longrightarrow> k = k') \<and>
     set free \<union> set held \<union> ran I = {..<alloc}"

definition ids :: "(offload_key \<rightharpoonup> BlockStatus) \<Rightarrow> (offload_key \<rightharpoonup> nat)" where
  "ids G k = map_option bs_block_id (G k)"

lemma ids_upd [simp]: "ids (G(k := v)) = (ids G)(k := map_option bs_block_id v)"
  by (auto simp: fun_eq_iff ids_def)

lemma ids_ok_free:
  assumes "ids_ok num alloc free held I" and "I k = Some i"
  shows "ids_ok num alloc (free @ [i]) held (I(k := None))"
proof -
  define J where "J = I(k := None)"
  have inj: "\<forall>k k' i. I k = Some i \<longrightarrow> I k' = Some i \<longrightarrow> k = k'" using assms(1) by (simp add: ids_ok_def)
  have r: "ran I = insert i (ran J)"
    using assms(2) unfolding J_def by (auto simp: ran_def) (metis option.inject)
  have n: "i \<notin> ran J" using assms(2) inj unfolding J_def by (auto simp: ran_def split: if_splits)
  have j: "\<forall>k k' i. J k = Some i \<longrightarrow> J k' = Some i \<longrightarrow> k = k'" using inj unfolding J_def by auto
  show ?thesis unfolding J_def [symmetric] ids_ok_def
  proof (intro conjI)
    show "distinct ((free @ [i]) @ held)" "ran J \<inter> (set (free @ [i]) \<union> set held) = {}"
      "set (free @ [i]) \<union> set held \<union> ran J = {..<alloc}" "alloc \<le> num"
      using assms(1) n unfolding ids_ok_def r by auto
  qed (rule j)
qed

lemma ids_ok_insert:
  assumes "ids_ok num alloc free (i # held) I" and "I k = None"
  shows "ids_ok num alloc free held (I(k \<mapsto> i))"
proof -
  have "i \<notin> ran I" and inj: "\<forall>k k' i. I k = Some i \<longrightarrow> I k' = Some i \<longrightarrow> k = k'"
    using assms(1) by (auto simp: ids_ok_def)
  define J where "J = I(k \<mapsto> i)"
  have r: "ran J = insert i (ran I)" unfolding J_def by (rule ran_map_upd [of I k i, OF assms(2)])
  have j: "\<forall>k k' i. J k = Some i \<longrightarrow> J k' = Some i \<longrightarrow> k = k'"
    using inj \<open>i \<notin> ran I\<close> unfolding J_def by (auto simp: ran_def)
  show ?thesis unfolding J_def [symmetric] ids_ok_def
  proof (intro conjI)
    show "distinct (free @ held)" "ran J \<inter> (set free \<union> set held) = {}"
      "set free \<union> set held \<union> ran J = {..<alloc}" "alloc \<le> num"
      using assms(1) unfolding ids_ok_def r by auto
  qed (rule j)
qed

lemma ids_ok_free_all:
  assumes "ids_ok num alloc free held (ids G)" and "distinct (map fst vs)" and "\<forall>(k, b) \<in> set vs. G k = Some b"
  shows "ids_ok num alloc (free @ map (bs_block_id \<circ> snd) vs) held (ids (\<lambda>k. if k \<in> set (map fst vs) then None else G k))"
  using assms
proof (induction vs arbitrary: free G)
  case (Cons v vs)
  obtain k b where v: "v = (k, b)" by (cases v)
  have "ids_ok num alloc (free @ [bs_block_id b]) held (ids (G(k := None)))"
  proof -
    have "ids G k = Some (bs_block_id b)" using Cons.prems(3) v by (simp add: ids_def)
    then show ?thesis using ids_ok_free [OF Cons.prems(1)] by simp
  qed
  moreover have "\<forall>(k', b') \<in> set vs. (G(k := None)) k' = Some b'" using Cons.prems v by force
  moreover have "distinct (map fst vs)" using Cons.prems(2) by simp
  ultimately have "ids_ok num alloc ((free @ [bs_block_id b]) @ map (bs_block_id \<circ> snd) vs) held
      (ids (\<lambda>k'. if k' \<in> set (map fst vs) then None else (G(k := None)) k'))"
    by (intro Cons.IH)
  moreover have "(\<lambda>k'. if k' \<in> set (map fst vs) then None else (G(k := None)) k') =
      (\<lambda>k'. if k' \<in> set (map fst (v # vs)) then None else G k')" by (auto simp: v fun_eq_iff)
  ultimately show ?case by (simp add: v comp_def)
qed simp

lemma ids_ok_alloc:
  assumes "ids_ok num alloc free [] I" and "alloc + f \<le> num"
  shows "ids_ok num (alloc + f) (take (length free - r) free) ([alloc..<alloc + f] @ take r (rev free)) I"
proof -
  define keep where "keep = take (length free - r) free"
  define used where "used = take r (rev free)"
  have fr: "free = keep @ rev used" by (simp add: keep_def used_def rev_take)
  have i: "distinct keep" "distinct used" "set keep \<inter> set used = {}" "ran I \<inter> (set keep \<union> set used) = {}"
    "set keep \<union> set used \<union> ran I = {..<alloc}" "\<forall>k k' i. I k = Some i \<longrightarrow> I k' = Some i \<longrightarrow> k = k'"
    using assms unfolding ids_ok_def fr by auto
  have fresh: "{alloc..<alloc + f} \<inter> (set keep \<union> set used \<union> ran I) = {}" unfolding i(5) by auto
  have "{..<alloc + f} = {alloc..<alloc + f} \<union> {..<alloc}" by auto
  then show ?thesis unfolding keep_def [symmetric] used_def [symmetric] ids_ok_def
    using i(1-4,6) fresh assms(2) unfolding i(5) [symmetric] by auto
qed

lemma ids_ok_card:
  assumes "ids_ok num alloc free [] I"
  shows "card (dom I) + length free = alloc"
proof -
  have u: "set free \<union> ran I = {..<alloc}" "set free \<inter> ran I = {}" "distinct free"
    using assms by (auto simp: ids_ok_def)
  have "inj_on (\<lambda>k. the (I k)) (dom I)" using assms by (force simp: ids_ok_def inj_on_def)
  then have "card (dom I) = card ((\<lambda>k. the (I k)) ` dom I)" by (simp add: card_image)
  also have "(\<lambda>k. the (I k)) ` dom I = ran I" by (force simp: ran_def)
  finally have "card (dom I) = card (ran I)" .
  moreover have "card (set free \<union> ran I) = card (set free) + card (ran I)"
  proof (rule card_Un_disjoint)
    show "finite (ran I)" using u(1) by (metis finite_Un finite_lessThan)
  qed (auto simp: u(2))
  ultimately show ?thesis using u by (simp add: distinct_card)
qed

text \<open>The counter of a block is the number of loads in progress; \<open>-1\<close> marks a store in progress.\<close>

definition refs_ok :: "(offload_key \<Rightarrow> nat) \<Rightarrow> (offload_key \<rightharpoonup> BlockStatus) \<Rightarrow> bool" where
  "refs_ok H G \<longleftrightarrow> (\<forall>k. case G k of None \<Rightarrow> H k = 0
     | Some b \<Rightarrow> bs_ref_cnt b = int (H k) \<or> bs_ref_cnt b = - 1 \<and> H k = 0)"

lemma refs_okD: "refs_ok H G \<Longrightarrow> G k = Some b \<Longrightarrow> bs_ref_cnt b = int (H k) \<or> bs_ref_cnt b = - 1 \<and> H k = 0"
  unfolding refs_ok_def by (drule spec [of _ k]) simp

lemma refs_ok_None: "refs_ok H G \<Longrightarrow> G k = None \<Longrightarrow> H k = 0"
  unfolding refs_ok_def by (drule spec [of _ k]) simp

lemma refs_ok_upd:
  assumes "refs_ok H G" and "case v of None \<Rightarrow> n = 0 | Some b \<Rightarrow> bs_ref_cnt b = int n \<or> bs_ref_cnt b = - 1 \<and> n = 0"
  shows "refs_ok (H(k := n)) (G(k := v))"
  using assms by (simp add: refs_ok_def cong: option.case_cong)

lemma refs_ok_same:
  assumes "refs_ok H G" and "case v of None \<Rightarrow> H k = 0 | Some b \<Rightarrow> bs_ref_cnt b = int (H k) \<or> bs_ref_cnt b = - 1 \<and> H k = 0"
  shows "refs_ok H (G(k := v))"
  using assms by (simp add: refs_ok_def cong: option.case_cong)

definition manager_ok :: "'p policy_ops \<Rightarrow> ('p \<Rightarrow> bool) \<Rightarrow> (offload_key \<Rightarrow> nat) \<Rightarrow> 'p CPUOffloadingManager \<Rightarrow> bool" where
  "manager_ok ops ok H m \<longleftrightarrow> ok (m_policy m) \<and>
     ids_ok (m_num_blocks m) (m_num_allocated_blocks m) (m_free_list m) [] (ids (pol_get ops (m_policy m))) \<and>
     refs_ok H (pol_get ops (m_policy m))"

lemma manager_okI:
  "ok (m_policy m) \<Longrightarrow>
   ids_ok (m_num_blocks m) (m_num_allocated_blocks m) (m_free_list m) [] (ids (pol_get ops (m_policy m))) \<Longrightarrow>
   refs_ok H (pol_get ops (m_policy m)) \<Longrightarrow> manager_ok ops ok H m"
  by (simp add: manager_ok_def)

section \<open>The operations under the contract\<close>

lemma load_one_Inr: "load_one ops k (xs, p) = Inr s \<longleftrightarrow> (\<exists>b. pol_get ops p k = Some b \<and> is_ready b \<and>
    s = (xs @ [bs_block_id b], pol_put ops k (b\<lparr>bs_ref_cnt := bs_ref_cnt b + 1\<rparr>) p))"
  by (auto simp: load_one_def split: option.splits)

lemma unload_one_Inr: "unload_one ops k p = Inr q \<longleftrightarrow> (\<exists>b. pol_get ops p k = Some b \<and> 0 < bs_ref_cnt b \<and>
    q = pol_put ops k (b\<lparr>bs_ref_cnt := bs_ref_cnt b - 1\<rparr>) p)"
  by (auto simp: unload_one_def split: option.splits)

lemma free_blocks_fold:
  "fold (\<lambda>(_, b). free_block b) vs m = m\<lparr>m_free_list := m_free_list m @ map (bs_block_id \<circ> snd) vs\<rparr>"
  by (induction vs arbitrary: m) (auto simp: free_block_def)

lemma allocate_blocks_ok:
  assumes "ids_ok (m_num_blocks m) (m_num_allocated_blocks m) (m_free_list m) [] I"
    and "int n \<le> m_get_num_free_blocks m"
  shows "\<exists>xs m'. allocate_blocks n m = Inr (map new_status xs, m') \<and> length xs = n \<and> m_policy m' = m_policy m \<and>
    m_num_blocks m' = m_num_blocks m \<and> ids_ok (m_num_blocks m) (m_num_allocated_blocks m') (m_free_list m') xs I"
proof -
  define f where "f = min n (m_num_blocks m - m_num_allocated_blocks m)"
  have le: "m_num_allocated_blocks m \<le> m_num_blocks m" using assms(1) by (simp add: ids_ok_def)
  have r: "n - f \<le> length (m_free_list m)" and "m_num_allocated_blocks m + f \<le> m_num_blocks m"
    using assms(2) le by (auto simp: m_get_num_free_blocks_def f_def)
  note a = ids_ok_alloc [OF assms(1) this(2), of "n - f"]
  define xs where "xs = [m_num_allocated_blocks m..<m_num_allocated_blocks m + f] @ take (n - f) (rev (m_free_list m))"
  define m' where "m' = m\<lparr>m_num_allocated_blocks := m_num_allocated_blocks m + f,
    m_free_list := take (length (m_free_list m) - (n - f)) (m_free_list m)\<rparr>"
  have "length xs = n" using r by (simp add: xs_def f_def)
  moreover have "allocate_blocks n m = Inr (map new_status xs, m')"
    using r unfolding allocate_blocks_def Let_def f_def [symmetric] xs_def m'_def by simp
  moreover have "ids_ok (m_num_blocks m) (m_num_allocated_blocks m') (m_free_list m') xs I" using a by (simp add: xs_def m'_def)
  ultimately show ?thesis by (intro exI [of _ xs] exI [of _ m']) (simp add: m'_def)
qed

text \<open>What a successful \<^verbatim>\<open>prepare_store\<close> leaves.\<close>

definition stored_state ::
  "'p policy_ops \<Rightarrow> offload_key list \<Rightarrow> 'p CPUOffloadingManager \<Rightarrow> PrepareStoreOutput \<Rightarrow> 'p CPUOffloadingManager \<Rightarrow> bool" where
  "stored_state ops ks m out m' \<longleftrightarrow>
     keys_to_store out = filter (\<lambda>k. pol_get ops (m_policy m) k = None) ks \<and>
     length (store_spec out) = length (keys_to_store out) \<and> distinct (store_spec out) \<and>
     distinct (evicted_keys out) \<and>
     int (length (evicted_keys out)) = max 0 (int (length (keys_to_store out)) - m_get_num_free_blocks m) \<and>
     (\<forall>k \<in> set (evicted_keys out). k \<notin> set ks \<and> (\<exists>b. pol_get ops (m_policy m) k = Some b \<and> bs_ref_cnt b = 0)) \<and>
     pol_get ops (m_policy m') =
       (\<lambda>k. if k \<in> set (evicted_keys out) then None else pol_get ops (m_policy m) k) ++
         map_of (zip (keys_to_store out) (map new_status (store_spec out)))"

context cache_policy
begin

text \<open>Changing the counter of a cached block.\<close>

lemma put_ok:
  assumes "ok p" and "ids_ok num alloc free [] (ids (pol_get ops p))" and "refs_ok H (pol_get ops p)"
    and "pol_get ops p k = Some b" and "bs_block_id b' = bs_block_id b" and "bs_ref_cnt b' = int n"
  shows "ok (pol_put ops k b' p) \<and> ids_ok num alloc free [] (ids (pol_get ops (pol_put ops k b' p))) \<and>
    refs_ok (H(k := n)) (pol_get ops (pol_put ops k b' p))"
proof -
  have "ids (pol_get ops p) k = Some (bs_block_id b)" using assms(4) by (simp add: ids_def)
  then have "(ids (pol_get ops p))(k \<mapsto> bs_block_id b) = ids (pol_get ops p)" by (rule map_upd_triv)
  then show ?thesis using put [OF assms(1,4), of b'] assms(2,3,5,6) by (simp add: refs_ok_upd)
qed

lemma load_fold:
  assumes "res_fold (load_one ops) ks (xs, p) = Inr (ys, q)"
    and "ok p" and "ids_ok num alloc free [] (ids (pol_get ops p))" and "refs_ok H (pol_get ops p)"
  shows "ok q \<and> ids_ok num alloc free [] (ids (pol_get ops q)) \<and> refs_ok (\<lambda>k. H k + count_list ks k) (pol_get ops q)"
  using assms
proof (induction ks arbitrary: xs p H)
  case (Cons k ks)
  obtain b where b: "pol_get ops p k = Some b" "is_ready b"
    and r: "res_fold (load_one ops) ks (xs @ [bs_block_id b], pol_put ops k (b\<lparr>bs_ref_cnt := bs_ref_cnt b + 1\<rparr>) p) = Inr (ys, q)"
    using Cons.prems(1) by (auto simp: load_one_Inr res_simps)
  have n: "bs_ref_cnt b = int (H k)" using refs_okD [OF Cons.prems(4) b(1)] b(2) by (auto simp: is_ready_def)
  note s = put_ok [OF Cons.prems(2-4) b(1), of "b\<lparr>bs_ref_cnt := bs_ref_cnt b + 1\<rparr>" "H k + 1"]
  have e: "(\<lambda>k'. (H(k := H k + 1)) k' + count_list ks k') = (\<lambda>k'. H k' + count_list (k # ks) k')" by (auto simp: fun_eq_iff)
  have "bs_ref_cnt (b\<lparr>bs_ref_cnt := bs_ref_cnt b + 1\<rparr>) = int (H k + 1)" using n by simp
  with s have s: "ok (pol_put ops k (b\<lparr>bs_ref_cnt := bs_ref_cnt b + 1\<rparr>) p)"
    "ids_ok num alloc free [] (ids (pol_get ops (pol_put ops k (b\<lparr>bs_ref_cnt := bs_ref_cnt b + 1\<rparr>) p)))"
    "refs_ok (H(k := H k + 1)) (pol_get ops (pol_put ops k (b\<lparr>bs_ref_cnt := bs_ref_cnt b + 1\<rparr>) p))" by simp_all
  show ?case using Cons.IH [OF r s] unfolding e .
qed simp

lemma load_ids:
  assumes "res_fold (load_one ops) ks (xs, p) = Inr (ys, q)" and "ok p"
  shows "ys = xs @ map (\<lambda>k. bs_block_id (the (pol_get ops p k))) ks"
  using assms
proof (induction ks arbitrary: xs p)
  case (Cons k ks)
  obtain b where b: "pol_get ops p k = Some b" "is_ready b"
    and r: "res_fold (load_one ops) ks (xs @ [bs_block_id b], pol_put ops k (b\<lparr>bs_ref_cnt := bs_ref_cnt b + 1\<rparr>) p) = Inr (ys, q)"
    using Cons.prems(1) by (auto simp: load_one_Inr res_simps)
  note s = put [OF Cons.prems(2) b(1), of "b\<lparr>bs_ref_cnt := bs_ref_cnt b + 1\<rparr>"]
  then show ?case using Cons.IH [OF r] b(1) by simp
qed simp

lemma load_total:
  assumes "\<And>k. k \<in> set ks \<Longrightarrow> \<exists>b. pol_get ops p k = Some b \<and> is_ready b" and "ok p"
  shows "\<exists>ys q. res_fold (load_one ops) ks (xs, p) = Inr (ys, q)"
  using assms
proof (induction ks arbitrary: xs p)
  case (Cons k ks)
  obtain b where b: "pol_get ops p k = Some b" "is_ready b" using Cons.prems(1) [of k] by auto
  define b' where "b' = b\<lparr>bs_ref_cnt := bs_ref_cnt b + 1\<rparr>"
  note s = put [OF Cons.prems(2) b(1), of b']
  have "\<exists>c. pol_get ops (pol_put ops k b' p) k' = Some c \<and> is_ready c" if "k' \<in> set ks" for k'
    using Cons.prems(1) [of k'] that s b(2) by (auto simp: b'_def is_ready_def)
  from Cons.IH [OF this] s show ?case using b by (simp add: load_one_def b'_def)
qed simp

lemma prepare_load_ok:
  assumes "manager_ok ops ok H m" and "prepare_load ops ks m = Inr (xs, m')"
  shows "manager_ok ops ok (\<lambda>k. H k + count_list ks k) m'"
  using assms load_fold [of ks "[]" "m_policy m"] unfolding manager_ok_def prepare_load_def
  by (auto simp: res_simps)

lemma unload_fold:
  assumes "res_fold (unload_one ops) ks p = Inr q" and "\<forall>k. count_list ks k \<le> H k"
    and "ok p" and "ids_ok num alloc free [] (ids (pol_get ops p))" and "refs_ok H (pol_get ops p)"
  shows "ok q \<and> ids_ok num alloc free [] (ids (pol_get ops q)) \<and> refs_ok (\<lambda>k. H k - count_list ks k) (pol_get ops q)"
  using assms
proof (induction ks arbitrary: p H)
  case (Cons k ks)
  obtain b where b: "pol_get ops p k = Some b" "0 < bs_ref_cnt b"
    and r: "res_fold (unload_one ops) ks (pol_put ops k (b\<lparr>bs_ref_cnt := bs_ref_cnt b - 1\<rparr>) p) = Inr q"
    using Cons.prems(1) by (auto simp: unload_one_Inr res_simps)
  have n: "bs_ref_cnt b = int (H k)" using refs_okD [OF Cons.prems(5) b(1)] b(2) by auto
  note s = put_ok [OF Cons.prems(3-5) b(1), of "b\<lparr>bs_ref_cnt := bs_ref_cnt b - 1\<rparr>" "H k - 1"]
  have le: "\<forall>k'. count_list ks k' \<le> (H(k := H k - 1)) k'"
  proof
    fix k' show "count_list ks k' \<le> (H(k := H k - 1)) k'" using Cons.prems(2) [rule_format, of k'] by (auto split: if_splits)
  qed
  have e: "(\<lambda>k'. (H(k := H k - 1)) k' - count_list ks k') = (\<lambda>k'. H k' - count_list (k # ks) k')" by (auto simp: fun_eq_iff)
  have "bs_ref_cnt (b\<lparr>bs_ref_cnt := bs_ref_cnt b - 1\<rparr>) = int (H k - 1)" using n b(2) by simp
  with s have s: "ok (pol_put ops k (b\<lparr>bs_ref_cnt := bs_ref_cnt b - 1\<rparr>) p)"
    "ids_ok num alloc free [] (ids (pol_get ops (pol_put ops k (b\<lparr>bs_ref_cnt := bs_ref_cnt b - 1\<rparr>) p)))"
    "refs_ok (H(k := H k - 1)) (pol_get ops (pol_put ops k (b\<lparr>bs_ref_cnt := bs_ref_cnt b - 1\<rparr>) p))" by simp_all
  show ?case using Cons.IH [OF r le s] unfolding e .
qed simp

lemma complete_load_ok:
  assumes "manager_ok ops ok H m" and "complete_load ops ks m = Inr m'" and "\<forall>k. count_list ks k \<le> H k"
  shows "manager_ok ops ok (\<lambda>k. H k - count_list ks k) m'"
  using assms unload_fold [of ks "m_policy m" _ H] unfolding manager_ok_def complete_load_def
  by (auto simp: res_simps)

lemma m_touch_ok: "manager_ok ops ok H m \<Longrightarrow> manager_ok ops ok H (m_touch ops ks m)"
  by (simp add: manager_ok_def m_touch_def touch)

text \<open>Completing stores, successfully or not.\<close>

lemma store_fold:
  assumes "fold (store_one ops) ks (xs, p) = (ys, q)"
    and "ok p" and "ids_ok num alloc free [] (ids (pol_get ops p))" and "refs_ok H (pol_get ops p)"
  shows "ok q \<and> ids_ok num alloc free [] (ids (pol_get ops q)) \<and> refs_ok H (pol_get ops q)"
  using assms
proof (induction ks arbitrary: xs p)
  case (Cons k ks)
  show ?case
  proof (cases "\<exists>b. pol_get ops p k = Some b \<and> \<not> is_ready b")
    case True
    then obtain b where b: "pol_get ops p k = Some b" "\<not> is_ready b" by blast
    then have r: "fold (store_one ops) ks (xs @ [k], pol_put ops k (b\<lparr>bs_ref_cnt := 0\<rparr>) p) = (ys, q)"
      using Cons.prems(1) by (simp add: store_one_def [of ops k])
    have "H k = 0" using refs_okD [OF Cons.prems(4) b(1)] b(2) by (auto simp: is_ready_def)
    then have "H(k := 0) = H" by auto
    then show ?thesis using Cons.IH [OF r] put_ok [OF Cons.prems(2-4) b(1), of "b\<lparr>bs_ref_cnt := 0\<rparr>" 0] by simp
  next
    case False
    then have "store_one ops k (xs, p) = (xs, p)" by (auto simp: store_one_def split: option.splits)
    then show ?thesis using Cons.IH [of xs p] Cons.prems by simp
  qed
qed simp

lemma drop_one_ok:
  assumes "manager_ok ops ok H m" and "drop_one ops k m = Inr m'"
  shows "manager_ok ops ok H m'"
proof (cases "\<exists>b. pol_get ops (m_policy m) k = Some b \<and> \<not> is_ready b")
  case True
  then obtain b where b: "pol_get ops (m_policy m) k = Some b" "\<not> is_ready b" by blast
  have m: "ok (m_policy m)" "refs_ok H (pol_get ops (m_policy m))"
    "ids_ok (m_num_blocks m) (m_num_allocated_blocks m) (m_free_list m) [] (ids (pol_get ops (m_policy m)))"
    using assms(1) by (auto simp: manager_ok_def)
  obtain q where q: "pol_remove ops k (m_policy m) = Inr q" "ok q" "pol_get ops q = (pol_get ops (m_policy m))(k := None)"
    using remove [OF m(1) b(1)] by blast
  have m': "m' = free_block b (m\<lparr>m_policy := q\<rparr>)" using assms(2) b q by (auto simp: drop_one_def)
  have "H k = 0" using refs_okD [OF m(2) b(1)] b(2) by (auto simp: is_ready_def)
  moreover have "ids (pol_get ops (m_policy m)) k = Some (bs_block_id b)" using b(1) by (simp add: ids_def)
  ultimately show ?thesis unfolding m' using q(2,3) ids_ok_free [OF m(3)] m(2)
    by (intro manager_okI) (auto simp: free_block_def refs_ok_same)
next
  case False
  then have "m' = m" using assms(2) by (auto simp: drop_one_def split: option.splits if_splits)
  then show ?thesis using assms(1) by simp
qed

lemma drop_one_total: "manager_ok ops ok H m \<Longrightarrow> \<exists>m'. drop_one ops k m = Inr m'"
  using remove [of "m_policy m" k] by (auto simp: drop_one_def manager_ok_def split: option.splits)

lemma add_event_ok: "manager_ok ops ok H (add_event ks r m) \<longleftrightarrow> manager_ok ops ok H m"
  by (simp add: add_event_def manager_ok_def)

lemma complete_store_ok:
  assumes "manager_ok ops ok H m" and "complete_store ops ks success m = Inr m'"
  shows "manager_ok ops ok H m'"
proof (cases success)
  case True
  obtain ys q where f: "fold (store_one ops) ks ([], m_policy m) = (ys, q)" by force
  have "manager_ok ops ok H (m\<lparr>m_policy := q\<rparr>)" using store_fold [OF f, of "m_num_blocks m" "m_num_allocated_blocks m" "m_free_list m" H] assms(1)
    by (simp add: manager_ok_def)
  then show ?thesis using assms(2) True f by (auto simp: complete_store_def add_event_ok)
next
  case False
  then have "res_fold (drop_one ops) ks m = Inr m'" using assms(2) by (simp add: complete_store_def)
  then show ?thesis using assms(1) by (rule res_fold_invariant) (rule drop_one_ok)
qed

lemma complete_store_total:
  assumes "manager_ok ops ok H m" shows "\<exists>m'. complete_store ops ks success m = Inr m'"
proof -
  have "\<exists>m'. res_fold (drop_one ops) ks m = Inr m'" using assms
  proof (induction ks arbitrary: m)
    case (Cons k ks)
    obtain m1 where "drop_one ops k m = Inr m1" using drop_one_total [OF Cons.prems] by blast
    then show ?case using Cons.IH [of m1] drop_one_ok [OF Cons.prems] by simp
  qed simp
  then show ?thesis by (auto simp: complete_store_def split: prod.splits)
qed

lemma take_events_ok: "manager_ok ops ok H m \<Longrightarrow> manager_ok ops ok H (snd (m_take_events m))"
  by (auto simp: m_take_events_def manager_ok_def split: option.splits)

text \<open>Preparing a store.\<close>

lemma insert_fold:
  assumes "ok p" and "distinct ks" and "\<And>k. k \<in> set ks \<Longrightarrow> pol_get ops p k = None" and "length xs = length ks"
    and "ids_ok num alloc free (xs @ held) (ids (pol_get ops p))" and "refs_ok H (pol_get ops p)"
    and "q = fold (\<lambda>(k, b). pol_insert ops k b) (zip ks (map new_status xs)) p"
  shows "ok q \<and> ids_ok num alloc free held (ids (pol_get ops q)) \<and> refs_ok H (pol_get ops q) \<and>
    pol_get ops q = pol_get ops p ++ map_of (zip ks (map new_status xs))"
  using assms
proof (induction ks arbitrary: p xs)
  case (Cons k ks)
  obtain x xs' where xs: "xs = x # xs'" using Cons.prems(4) by (cases xs) auto
  define p1 where "p1 = pol_insert ops k (new_status x) p"
  have n: "pol_get ops p k = None" using Cons.prems(3) by simp
  have g: "ok p1" "pol_get ops p1 = (pol_get ops p)(k \<mapsto> new_status x)"
    using insert [OF Cons.prems(1) n] by (auto simp: p1_def)
  have "H k = 0" by (rule refs_ok_None [OF Cons.prems(6) n])
  then have rf: "refs_ok H (pol_get ops p1)" using refs_ok_same [OF Cons.prems(6)] by (simp add: g(2) new_status_def)
  have "ids (pol_get ops p) k = None" using n by (simp add: ids_def)
  then have io: "ids_ok num alloc free (xs' @ held) (ids (pol_get ops p1))"
    using Cons.prems(5) ids_ok_insert [of num alloc free x "xs' @ held"] by (simp add: xs g(2) new_status_def)
  have "ok q \<and> ids_ok num alloc free held (ids (pol_get ops q)) \<and> refs_ok H (pol_get ops q) \<and>
    pol_get ops q = pol_get ops p1 ++ map_of (zip ks (map new_status xs'))"
  proof (rule Cons.IH [OF g(1) _ _ _ io rf])
    show "pol_get ops p1 k' = None" if "k' \<in> set ks" for k' using that Cons.prems(2,3) g(2) by auto
    show "distinct ks" "length xs' = length ks" using Cons.prems(2,4) xs by auto
    show "q = fold (\<lambda>(k, b). pol_insert ops k b) (zip ks (map new_status xs')) p1"
      using Cons.prems(7) by (simp add: xs p1_def)
  qed
  moreover have "pol_get ops p1 ++ map_of (zip ks (map new_status xs')) = pol_get ops p ++ map_of (zip (k # ks) (map new_status xs))"
  proof -
    have "map_of (zip ks (map new_status xs')) k = None"
      using Cons.prems(2,4) xs by (auto simp: map_of_eq_None_iff dest: set_zip_leftD)
    then show ?thesis by (auto simp: xs g(2) map_add_def fun_eq_iff split: option.splits)
  qed
  ultimately show ?case by metis
qed simp

lemma make_room:
  assumes "manager_ok ops ok H m" and "pol_evict ops n prot (m_policy m) = Some (vs, p)"
  shows "manager_ok ops ok H (add_event es r (fold (\<lambda>(_, b). free_block b) vs (m\<lparr>m_policy := p\<rparr>)))"
proof -
  have m: "ok (m_policy m)" "refs_ok H (pol_get ops (m_policy m))"
    "ids_ok (m_num_blocks m) (m_num_allocated_blocks m) (m_free_list m) [] (ids (pol_get ops (m_policy m)))"
    using assms(1) by (auto simp: manager_ok_def)
  have e: "ok p" "distinct (map fst vs)" "pol_get ops p = (\<lambda>k. if k \<in> set (map fst vs) then None else pol_get ops (m_policy m) k)"
    and v: "\<forall>(k, b) \<in> set vs. pol_get ops (m_policy m) k = Some b \<and> bs_ref_cnt b = 0 \<and> k \<notin> prot"
    using evict [OF m(1) assms(2)] by auto
  have z: "H k = 0" if k: "k \<in> set (map fst vs)" for k
  proof -
    obtain b where "(k, b) \<in> set vs" using k by auto
    then show ?thesis using v refs_okD [OF m(2), of k b] by auto
  qed
  have "refs_ok H (pol_get ops p)" unfolding refs_ok_def
  proof
    fix k show "case pol_get ops p k of None \<Rightarrow> H k = 0 | Some b \<Rightarrow> bs_ref_cnt b = int (H k) \<or> bs_ref_cnt b = - 1 \<and> H k = 0"
      using z [of k] m(2) unfolding e(3) refs_ok_def by (cases "k \<in> set (map fst vs)") auto
  qed
  moreover have "ids_ok (m_num_blocks m) (m_num_allocated_blocks m) (m_free_list m @ map (bs_block_id \<circ> snd) vs) [] (ids (pol_get ops p))"
    unfolding e(3) using v by (intro ids_ok_free_all [OF m(3) e(2)]) auto
  ultimately show ?thesis using e(1) unfolding add_event_ok by (intro manager_okI) (auto simp: free_blocks_fold)
qed

lemma room:
  assumes "manager_ok ops ok H m"
    and ev: "(if 0 < ex then pol_evict ops (nat ex) prot (m_policy m) else Some ([], m_policy m)) = Some (vs, p)"
    and m2: "m2 = add_event (map fst vs) True (fold (\<lambda>(_, b). free_block b) vs (m\<lparr>m_policy := p\<rparr>))"
  shows "distinct (map fst vs)" "int (length vs) = max 0 ex"
    "pol_get ops (m_policy m2) = (\<lambda>k. if k \<in> set (map fst vs) then None else pol_get ops (m_policy m) k)"
    "\<forall>(k, b) \<in> set vs. pol_get ops (m_policy m) k = Some b \<and> bs_ref_cnt b = 0 \<and> k \<notin> prot"
    "manager_ok ops ok H m2" "m_get_num_free_blocks m2 = m_get_num_free_blocks m + int (length vs)"
proof -
  have ok: "ok (m_policy m)" using assms(1) by (simp add: manager_ok_def)
  have p2: "m_policy m2 = p" by (simp add: m2 add_event_def free_blocks_fold)
  have "distinct (map fst vs) \<and> int (length vs) = max 0 ex \<and>
      pol_get ops p = (\<lambda>k. if k \<in> set (map fst vs) then None else pol_get ops (m_policy m) k) \<and>
      (\<forall>(k, b) \<in> set vs. pol_get ops (m_policy m) k = Some b \<and> bs_ref_cnt b = 0 \<and> k \<notin> prot)"
    using ev evict [OF ok, of "nat ex" prot vs p] by (auto split: if_splits)
  then show "distinct (map fst vs)" "int (length vs) = max 0 ex"
    "pol_get ops (m_policy m2) = (\<lambda>k. if k \<in> set (map fst vs) then None else pol_get ops (m_policy m) k)"
    "\<forall>(k, b) \<in> set vs. pol_get ops (m_policy m) k = Some b \<and> bs_ref_cnt b = 0 \<and> k \<notin> prot"
    unfolding p2 by auto
  show "m_get_num_free_blocks m2 = m_get_num_free_blocks m + int (length vs)"
    by (simp add: m2 add_event_def free_blocks_fold m_get_num_free_blocks_def)
  show "manager_ok ops ok H m2"
  proof (cases "0 < ex")
    case True
    then show ?thesis using ev unfolding m2 by (auto intro: make_room [OF assms(1)])
  next
    case False
    then show ?thesis using assms(1) ev by (auto simp: m2 add_event_ok)
  qed
qed

lemma fill:
  assumes "manager_ok ops ok H m" and "int (length nk) \<le> m_get_num_free_blocks m" and "distinct nk"
    and "\<And>k. k \<in> set nk \<Longrightarrow> pol_get ops (m_policy m) k = None"
  shows "\<exists>xs m3. allocate_blocks (length nk) m = Inr (map new_status xs, m3) \<and> length xs = length nk \<and> distinct xs \<and>
    (\<forall>q. q = fold (\<lambda>(k, b). pol_insert ops k b) (zip nk (map new_status xs)) (m_policy m3) \<longrightarrow>
       manager_ok ops ok H (m3\<lparr>m_policy := q\<rparr>) \<and>
       pol_get ops q = pol_get ops (m_policy m) ++ map_of (zip nk (map new_status xs)))"
proof -
  have m: "ok (m_policy m)" "refs_ok H (pol_get ops (m_policy m))"
    "ids_ok (m_num_blocks m) (m_num_allocated_blocks m) (m_free_list m) [] (ids (pol_get ops (m_policy m)))"
    using assms(1) by (auto simp: manager_ok_def)
  from allocate_blocks_ok [OF m(3) assms(2)] obtain xs m3 where a: "allocate_blocks (length nk) m = Inr (map new_status xs, m3)"
    "length xs = length nk" "m_policy m3 = m_policy m" "m_num_blocks m3 = m_num_blocks m"
    and i: "ids_ok (m_num_blocks m) (m_num_allocated_blocks m3) (m_free_list m3) (xs @ []) (ids (pol_get ops (m_policy m)))"
    by auto
  define q where "q = fold (\<lambda>(k, b). pol_insert ops k b) (zip nk (map new_status xs)) (m_policy m3)"
  have "manager_ok ops ok H (m3\<lparr>m_policy := q\<rparr>) \<and>
      pol_get ops q = pol_get ops (m_policy m) ++ map_of (zip nk (map new_status xs))"
    using insert_fold [OF m(1) assms(3,4) a(2) i m(2), of q] a(3,4) by (auto simp: q_def intro!: manager_okI)
  moreover have "distinct xs" using i by (simp add: ids_ok_def)
  ultimately show ?thesis using a(1,2) by (intro exI [of _ xs] exI [of _ m3]) (simp add: q_def)
qed

lemma prepare_store_spec:
  assumes "manager_ok ops ok H m" and "distinct ks"
  shows "(prepare_store ops ks m = Inr (None, m) \<and>
      m_get_num_free_blocks m < int (length (filter (\<lambda>k. pol_get ops (m_policy m) k = None) ks))) \<or>
    (\<exists>out m'. prepare_store ops ks m = Inr (Some out, m') \<and> manager_ok ops ok H m' \<and> stored_state ops ks m out m')"
proof -
  define nk where "nk = filter (\<lambda>k. pol_get ops (m_policy m) k = None) ks"
  define ex where "ex = int (length nk) - m_get_num_free_blocks m"
  define ev where "ev = (if 0 < ex then pol_evict ops (nat ex) (set ks) (m_policy m) else Some ([], m_policy m))"
  note unf = prepare_store_def Let_def nk_def [symmetric] ex_def [symmetric] ev_def [symmetric]
  have free: "0 \<le> m_get_num_free_blocks m"
    using assms(1) by (simp add: ids_ok_def m_get_num_free_blocks_def manager_ok_def)
  consider (cached) "nk = []" | (refused) "nk \<noteq> []" "ev = None" | (stored) vs p where "nk \<noteq> []" "ev = Some (vs, p)"
    by (cases ev) auto
  then show ?thesis
  proof cases
    case cached
    then have "prepare_store ops ks m = Inr (Some \<lparr>keys_to_store = [], store_spec = [], evicted_keys = []\<rparr>, m)"
      unfolding unf by simp
    moreover have "stored_state ops ks m \<lparr>keys_to_store = [], store_spec = [], evicted_keys = []\<rparr> m"
      unfolding stored_state_def nk_def [symmetric] using cached free by simp
    ultimately show ?thesis using assms(1) by blast
  next
    case refused
    then have "prepare_store ops ks m = Inr (None, m)" unfolding unf by simp
    moreover have "0 < ex" using refused by (auto simp: ev_def split: if_splits)
    ultimately show ?thesis by (simp add: nk_def ex_def)
  next
    case stored
    define m2 where "m2 = add_event (map fst vs) True (fold (\<lambda>(_, b). free_block b) vs (m\<lparr>m_policy := p\<rparr>))"
    note r = room [OF assms(1) stored(2) [unfolded ev_def] m2_def]
    have "int (length nk) \<le> m_get_num_free_blocks m2" using r(2,6) by (simp add: ex_def)
    moreover have "distinct nk" using assms(2) by (simp add: nk_def)
    moreover have "pol_get ops (m_policy m2) k = None" if "k \<in> set nk" for k using that by (simp add: r(3) nk_def)
    ultimately obtain xs m3 q where a: "allocate_blocks (length nk) m2 = Inr (map new_status xs, m3)" "length xs = length nk" "distinct xs"
      and q: "q = fold (\<lambda>(k, b). pol_insert ops k b) (zip nk (map new_status xs)) (m_policy m3)" "manager_ok ops ok H (m3\<lparr>m_policy := q\<rparr>)"
      "pol_get ops q = pol_get ops (m_policy m2) ++ map_of (zip nk (map new_status xs))"
      using fill [OF r(5), of nk] by blast
    define out where "out = \<lparr>keys_to_store = nk, store_spec = xs, evicted_keys = map fst vs\<rparr>"
    have mq: "m_policy (m3\<lparr>m_policy := q\<rparr>) = q" by simp
    have xs: "map (bs_block_id \<circ> new_status) xs = xs" by (induction xs) (auto simp: new_status_def)
    have "prepare_store ops ks m = Inr (Some out, m3\<lparr>m_policy := q\<rparr>)"
      using stored unfolding unf by (simp add: m2_def [symmetric] a q(1) out_def xs)
    moreover have "\<forall>k \<in> set (map fst vs). k \<notin> set ks \<and> (\<exists>b. pol_get ops (m_policy m) k = Some b \<and> bs_ref_cnt b = 0)"
      using r(4) by fastforce
    then have "stored_state ops ks m out (m3\<lparr>m_policy := q\<rparr>)"
      unfolding stored_state_def out_def mq using r(1,2) a(2,3) q(3) [unfolded r(3)]
      by (simp only: nk_def [symmetric] ex_def [symmetric] length_map PrepareStoreOutput.simps simp_thms)
    ultimately show ?thesis using q(2) by blast
  qed
qed

end

section \<open>Runs\<close>

text \<open>
  Every sequence of calls; \<open>H\<close> counts the loads of each key that were prepared and not yet completed.
  A client completes only loads it has prepared, and asks to store each key once per call.
\<close>

inductive offload_run :: "'p policy_ops \<Rightarrow> 'p CPUOffloadingManager \<Rightarrow> 'p CPUOffloadingManager \<Rightarrow> (offload_key \<Rightarrow> nat) \<Rightarrow> bool"
  for ops m0 where
  start: "offload_run ops m0 m0 (\<lambda>_. 0)"
| loading: "offload_run ops m0 m H \<Longrightarrow> prepare_load ops ks m = Inr (xs, m') \<Longrightarrow>
    offload_run ops m0 m' (\<lambda>k. H k + count_list ks k)"
| loaded: "offload_run ops m0 m H \<Longrightarrow> \<forall>k. count_list ks k \<le> H k \<Longrightarrow> complete_load ops ks m = Inr m' \<Longrightarrow>
    offload_run ops m0 m' (\<lambda>k. H k - count_list ks k)"
| touched: "offload_run ops m0 m H \<Longrightarrow> offload_run ops m0 (m_touch ops ks m) H"
| storing: "offload_run ops m0 m H \<Longrightarrow> distinct ks \<Longrightarrow> prepare_store ops ks m = Inr (out, m') \<Longrightarrow> offload_run ops m0 m' H"
| stored: "offload_run ops m0 m H \<Longrightarrow> complete_store ops ks success m = Inr m' \<Longrightarrow> offload_run ops m0 m' H"
| events: "offload_run ops m0 m H \<Longrightarrow> offload_run ops m0 (snd (m_take_events m)) H"

context cache_policy
begin

lemma run_ok:
  assumes "offload_run ops m0 m H" and "manager_ok ops ok (\<lambda>_. 0) m0"
  shows "manager_ok ops ok H m"
  using assms
proof induction
  case (storing m H ks out m')
  then show ?case using prepare_store_spec [of H m ks] by auto
next
  case (stored m H ks success m')
  show ?case by (rule complete_store_ok [OF stored.IH [OF stored.prems] stored.hyps(2)])
next
  case (loading m H ks xs m')
  show ?case by (rule prepare_load_ok [OF loading.IH [OF loading.prems] loading.hyps(2)])
next
  case (loaded m H ks m')
  show ?case by (rule complete_load_ok [OF loaded.IH [OF loaded.prems] loaded.hyps(3,2)])
qed (simp_all add: m_touch_ok take_events_ok)

end

lemma make_manager_ok:
  assumes "make_manager F n name ev = Inr m0"
  shows "manager_ok (dyn_ops F) dyn_ok (\<lambda>_. 0) m0"
proof -
  obtain p where p: "make_policy F name n = Inr p" and m0: "m_policy m0 = p" "m_num_allocated_blocks m0 = 0" "m_free_list m0 = []"
    using assms by (auto simp: make_manager_def res_simps)
  have "p = LruP [] \<or> p = ArcP (make_arc F n)" using p by (auto simp: make_policy_def split: if_splits)
  then have "dyn_ok p" "pol_get (dyn_ops F) p = (\<lambda>_. None)"
    by (auto simp: lru_ops_def arc_ops_def arc_get_def make_arc_def arc_ok_def fun_eq_iff)
  then show ?thesis using m0 by (simp add: manager_ok_def ids_ok_def refs_ok_def ids_def ran_def)
qed

lemma allocate_num_blocks: "allocate_blocks n m = Inr (bs, m') \<Longrightarrow> m_num_blocks m' = m_num_blocks m"
  by (auto simp: allocate_blocks_def Let_def split: if_splits)

lemma prepare_store_shape:
  assumes "prepare_store ops ks m = Inr (out, m')"
  shows "m_num_blocks m' = m_num_blocks m \<and>
    (\<forall>x. out = Some x \<longrightarrow> keys_to_store x = filter (\<lambda>k. pol_get ops (m_policy m) k = None) ks)"
proof -
  define nk where "nk = filter (\<lambda>k. pol_get ops (m_policy m) k = None) ks"
  define ev where "ev = (if 0 < int (length nk) - m_get_num_free_blocks m
    then pol_evict ops (nat (int (length nk) - m_get_num_free_blocks m)) (set ks) (m_policy m) else Some ([], m_policy m))"
  note e = assms [unfolded prepare_store_def Let_def nk_def [symmetric] ev_def [symmetric]]
  consider "nk = [] \<or> ev = None" | vs p where "nk \<noteq> []" "ev = Some (vs, p)" by (cases ev) auto
  then show ?thesis
  proof cases
    case 1
    then show ?thesis using e unfolding nk_def [symmetric] by (auto split: if_splits)
  next
    case 2
    define m2 where "m2 = add_event (map fst vs) True (fold (\<lambda>(_, b). free_block b) vs (m\<lparr>m_policy := p\<rparr>))"
    have n2: "m_num_blocks m2 = m_num_blocks m" by (simp add: m2_def add_event_def free_blocks_fold)
    show ?thesis using e 2 allocate_num_blocks [of "length nk" m2] unfolding nk_def [symmetric]
      by (auto simp: m2_def [symmetric] n2 res_simps)
  qed
qed

lemma complete_store_num_blocks: "complete_store ops ks s m = Inr m' \<Longrightarrow> m_num_blocks m' = m_num_blocks m"
proof -
  have d: "drop_one ops k m = Inr m' \<Longrightarrow> m_num_blocks m' = m_num_blocks m" for k m m'
    by (auto simp: drop_one_def free_block_def res_simps split: option.splits if_splits)
  have "res_fold (drop_one ops) ks m = Inr m' \<Longrightarrow> m_num_blocks m' = m_num_blocks m"
    by (erule res_fold_invariant) (auto dest: d)
  then show "complete_store ops ks s m = Inr m' \<Longrightarrow> ?thesis"
    by (auto simp: complete_store_def add_event_def split: if_splits prod.splits)
qed

lemma run_num_blocks: "offload_run ops m0 m H \<Longrightarrow> m_num_blocks m = m_num_blocks m0"
proof (induction rule: offload_run.induct)
  case (storing m H ks out m')
  then show ?case using prepare_store_shape by metis
next
  case (stored m H ks success m')
  then show ?case using complete_store_num_blocks by metis
qed (auto simp: prepare_load_def complete_load_def m_touch_def m_take_events_def res_simps split: option.splits)

lemma reach_ok:
  assumes "make_manager F n name ev = Inr m0" and "offload_run (dyn_ops F) m0 m H"
  shows "manager_ok (dyn_ops F) dyn_ok H m" and "m_num_blocks m = n"
  using dyn.run_ok [OF assms(2) make_manager_ok [OF assms(1)]] run_num_blocks [OF assms(2)] assms(1)
  by (auto simp: make_manager_def res_simps)

text \<open>A block in use survives a store.\<close>

lemma stored_keeps:
  assumes ok: "manager_ok ops okp H m'" and st: "stored_state ops ks m out m'" and ks: "distinct ks"
    and b: "pol_get ops (m_policy m) k = Some b" "bs_ref_cnt b \<noteq> 0"
  shows "pol_get ops (m_policy m') k = Some b \<and> bs_block_id b \<notin> set (store_spec out)"
proof -
  let ?z = "map_of (zip (keys_to_store out) (map new_status (store_spec out)))"
  have out: "k \<notin> set (keys_to_store out)" "k \<notin> set (evicted_keys out)" "distinct (keys_to_store out)"
    "length (store_spec out) = length (keys_to_store out)"
    using st b ks by (auto simp: stored_state_def)
  have g: "pol_get ops (m_policy m') = (\<lambda>k. if k \<in> set (evicted_keys out) then None else pol_get ops (m_policy m) k) ++ ?z"
    using st by (simp add: stored_state_def)
  have "?z k = None" using out(1) by (auto simp: map_of_eq_None_iff dest: set_zip_leftD)
  then have k: "pol_get ops (m_policy m') k = Some b" using out(2) b(1) by (simp add: g map_add_def)
  have "bs_block_id b \<noteq> store_spec out ! i" if i: "i < length (store_spec out)" for i
  proof
    assume e: "bs_block_id b = store_spec out ! i"
    have "?z (keys_to_store out ! i) = Some (new_status (store_spec out ! i))"
      using out i by (simp add: map_of_zip_nth)
    then have "pol_get ops (m_policy m') (keys_to_store out ! i) = Some (new_status (store_spec out ! i))"
      by (simp add: g map_add_def)
    then have "ids (pol_get ops (m_policy m')) (keys_to_store out ! i) = Some (bs_block_id b)"
      using e by (simp add: ids_def new_status_def)
    moreover have "ids (pol_get ops (m_policy m')) k = Some (bs_block_id b)" using k by (simp add: ids_def)
    ultimately have "k = keys_to_store out ! i" using ok unfolding manager_ok_def ids_ok_def by blast
    then show False using out(1,4) i by simp
  qed
  then show ?thesis using k by (metis in_set_conv_nth)
qed

section \<open>Properties\<close>

text \<open>Two example runs, with exact rationals for the adaptive target.\<close>

definition rat_float :: "rat float_ops" where
  "rat_float = \<lparr>f_zero = 0, f_ratio = (\<lambda>a b. max 1 (of_nat a / of_nat b)), f_raise = (\<lambda>t d c. min (t + d) (of_nat c)),
     f_lower = (\<lambda>t d. max (t - d) 0), f_int = floor\<rparr>"

definition demo_lru :: "block_dict \<Rightarrow> nat \<Rightarrow> rat cache_policy_state CPUOffloadingManager" where
  "demo_lru d n = \<lparr>m_num_blocks = 2, m_num_allocated_blocks = n, m_free_list = [], m_events = None, m_policy = LruP d\<rparr>"

definition demo_arc :: "block_dict \<Rightarrow> block_dict \<Rightarrow> (offload_key, unit) odict \<Rightarrow> rat \<Rightarrow> nat \<Rightarrow> rat cache_policy_state CPUOffloadingManager" where
  "demo_arc d e g t n = \<lparr>m_num_blocks = 2, m_num_allocated_blocks = n, m_free_list = [], m_events = None,
     m_policy = ArcP \<lparr>cache_capacity = 2, target_t1_size = t, t1 = d, t2 = e, b1 = g, b2 = []\<rparr>\<rparr>"

definition demo_block :: "int \<Rightarrow> nat \<Rightarrow> BlockStatus" where
  "demo_block r i = \<lparr>bs_ref_cnt = r, bs_block_id = i\<rparr>"

lemma demo_lru_start: "make_manager rat_float 2 ''lru'' False = Inr (demo_lru [] 0)"
  by code_simp

lemma demo_lru_run:
  "offload_run (dyn_ops rat_float) (demo_lru [] 0) (demo_lru [([], demo_block 1 0), ([0], demo_block 0 1)] 2)
     (\<lambda>k. 0 + count_list [[]] k)"
proof (rule offload_run.loading [OF offload_run.stored [OF offload_run.storing [OF offload_run.start]]])
  show "distinct [[], [0 :: 8 word]]" by simp
  show "prepare_store (dyn_ops rat_float) [[], [0]] (demo_lru [] 0) =
      Inr (Some \<lparr>keys_to_store = [[], [0]], store_spec = [0, 1], evicted_keys = []\<rparr>,
           demo_lru [([], demo_block (- 1) 0), ([0], demo_block (- 1) 1)] 2)" by code_simp
  show "complete_store (dyn_ops rat_float) [[], [0]] True (demo_lru [([], demo_block (- 1) 0), ([0], demo_block (- 1) 1)] 2) =
      Inr (demo_lru [([], demo_block 0 0), ([0], demo_block 0 1)] 2)" by code_simp
  show "prepare_load (dyn_ops rat_float) [[]] (demo_lru [([], demo_block 0 0), ([0], demo_block 0 1)] 2) =
      Inr ([0], demo_lru [([], demo_block 1 0), ([0], demo_block 0 1)] 2)" by code_simp
qed

lemma demo_arc_start: "make_manager rat_float 2 ''arc'' False = Inr (demo_arc [] [] [] 0 0)"
  by code_simp

lemma demo_arc_run:
  "offload_run (dyn_ops rat_float) (demo_arc [] [] [] 0 0)
     (demo_arc [([0, 0], demo_block 0 0)] [([0], demo_block 1 1)] [([], ())] 2 2) (\<lambda>k. 0 + count_list [[0]] k)"
proof -
  let ?O = "dyn_ops rat_float" and ?m0 = "demo_arc [] [] [] 0 0"
  have s1: "offload_run ?O ?m0 (demo_arc [([], demo_block 0 0), ([0], demo_block 0 1)] [] [] 0 2) (\<lambda>_. 0)"
  proof (rule offload_run.stored [OF offload_run.storing [OF offload_run.start]])
    show "distinct [[], [0 :: 8 word]]" by simp
    show "prepare_store ?O [[], [0]] ?m0 = Inr (Some \<lparr>keys_to_store = [[], [0]], store_spec = [0, 1], evicted_keys = []\<rparr>,
        demo_arc [([], demo_block (- 1) 0), ([0], demo_block (- 1) 1)] [] [] 0 2)" by code_simp
    show "complete_store ?O [[], [0]] True (demo_arc [([], demo_block (- 1) 0), ([0], demo_block (- 1) 1)] [] [] 0 2) =
        Inr (demo_arc [([], demo_block 0 0), ([0], demo_block 0 1)] [] [] 0 2)" by code_simp
  qed
  have s2: "offload_run ?O ?m0 (demo_arc [([0], demo_block 0 1), ([0, 0], demo_block 0 0)] [] [([], ())] 0 2) (\<lambda>_. 0)"
  proof (rule offload_run.stored [OF offload_run.storing [OF s1]])
    show "distinct [[0, 0 :: 8 word]]" by simp
    show "prepare_store ?O [[0, 0]] (demo_arc [([], demo_block 0 0), ([0], demo_block 0 1)] [] [] 0 2) =
        Inr (Some \<lparr>keys_to_store = [[0, 0]], store_spec = [0], evicted_keys = [[]]\<rparr>,
          demo_arc [([0], demo_block 0 1), ([0, 0], demo_block (- 1) 0)] [] [([], ())] 0 2)" by code_simp
    show "complete_store ?O [[0, 0]] True (demo_arc [([0], demo_block 0 1), ([0, 0], demo_block (- 1) 0)] [] [([], ())] 0 2) =
        Inr (demo_arc [([0], demo_block 0 1), ([0, 0], demo_block 0 0)] [] [([], ())] 0 2)" by code_simp
  qed
  have t: "m_touch ?O [[0], []] (m_touch ?O [[]] (demo_arc [([0], demo_block 0 1), ([0, 0], demo_block 0 0)] [] [([], ())] 0 2)) =
      demo_arc [([0, 0], demo_block 0 0)] [([0], demo_block 0 1)] [([], ())] 2 2" by code_simp
  have s3: "offload_run ?O ?m0 (demo_arc [([0, 0], demo_block 0 0)] [([0], demo_block 0 1)] [([], ())] 2 2) (\<lambda>_. 0)"
    unfolding t [symmetric] by (intro offload_run.touched s2)
  have "prepare_load ?O [[0]] (demo_arc [([0, 0], demo_block 0 0)] [([0], demo_block 0 1)] [([], ())] 2 2) =
      Inr ([1], demo_arc [([0, 0], demo_block 0 0)] [([0], demo_block 1 1)] [([], ())] 2 2)" by code_simp
  then show ?thesis by (rule offload_run.loading [OF s3])
qed



text \<open>
  C23. \<^verbatim>\<open>prepare_store\<close> with LRU or ARC never raises: it either refuses, leaving the manager as it was
  and only when fewer blocks are free than keys are new, or hands out one distinct block for exactly
  the keys not yet cached, evicting exactly as many idle blocks outside the request as are missing. A
  block that is being loaded or stored stays cached and its id is not handed out again.
\<close>

theorem prepare_store_safe:
  assumes "make_manager F n name ev = Inr m0" and "offload_run (dyn_ops F) m0 m H" and "distinct ks"
  shows "(prepare_store (dyn_ops F) ks m = Inr (None, m) \<and>
      m_get_num_free_blocks m < int (length (filter (\<lambda>k. pol_get (dyn_ops F) (m_policy m) k = None) ks))) \<or>
    (\<exists>out m'. prepare_store (dyn_ops F) ks m = Inr (Some out, m') \<and> stored_state (dyn_ops F) ks m out m' \<and>
      (\<forall>k b. pol_get (dyn_ops F) (m_policy m) k = Some b \<and> bs_ref_cnt b \<noteq> 0 \<longrightarrow>
         pol_get (dyn_ops F) (m_policy m') k = Some b \<and> bs_block_id b \<notin> set (store_spec out)))"
proof -
  have "pol_get (dyn_ops F) (m_policy m') k = Some b \<and> bs_block_id b \<notin> set (store_spec out)"
    if ok: "manager_ok (dyn_ops F) dyn_ok H m'" and st: "stored_state (dyn_ops F) ks m out m'"
      and b: "pol_get (dyn_ops F) (m_policy m) k = Some b" "bs_ref_cnt b \<noteq> 0" for out m' k b
    by (rule stored_keeps [OF ok st assms(3) b])
  then show ?thesis using dyn.prepare_store_spec [OF reach_ok(1) [OF assms(1,2)] assms(3)] by blast
qed

theorem prepare_store_safe_witness:
  "prepare_store (dyn_ops rat_float) [[0, 0]] (demo_lru [([], demo_block 1 0), ([0], demo_block 0 1)] 2) =
     Inr (Some \<lparr>keys_to_store = [[0, 0]], store_spec = [1], evicted_keys = [[0]]\<rparr>,
          demo_lru [([], demo_block 1 0), ([0, 0], demo_block (- 1) 1)] 2) \<and>
   stored_state (dyn_ops rat_float) [[0, 0]] (demo_lru [([], demo_block 1 0), ([0], demo_block 0 1)] 2)
     \<lparr>keys_to_store = [[0, 0]], store_spec = [1], evicted_keys = [[0]]\<rparr>
     (demo_lru [([], demo_block 1 0), ([0, 0], demo_block (- 1) 1)] 2)"
proof -
  have e: "prepare_store (dyn_ops rat_float) [[0, 0]] (demo_lru [([], demo_block 1 0), ([0], demo_block 0 1)] 2) =
     Inr (Some \<lparr>keys_to_store = [[0, 0]], store_spec = [1], evicted_keys = [[0]]\<rparr>,
          demo_lru [([], demo_block 1 0), ([0, 0], demo_block (- 1) 1)] 2)" by code_simp
  then show ?thesis using prepare_store_safe [OF demo_lru_start demo_lru_run, of "[[0, 0]]"] by auto
qed

text \<open>
  ARC can refuse an eviction although an idle, unprotected block is cached: in a reachable state of a
  manager with two blocks, a store of one key is refused while a block of T1 has no user, because T1
  is below its target and T2 holds no idle block.
\<close>

lemma arc_refuses_with_idle_block:
  "\<exists>m0 m H k b. make_manager rat_float 2 ''arc'' False = Inr m0 \<and> offload_run (dyn_ops rat_float) m0 m H \<and>
     pol_get (dyn_ops rat_float) (m_policy m) k = Some b \<and> bs_ref_cnt b = 0 \<and> k \<noteq> [0, 0, 0] \<and>
     prepare_store (dyn_ops rat_float) [[0, 0, 0]] m = Inr (None, m)"
proof (intro exI conjI)
  let ?m = "demo_arc [([0, 0], demo_block 0 0)] [([0], demo_block 1 1)] [([], ())] 2 2"
  show "make_manager rat_float 2 ''arc'' False = Inr (demo_arc [] [] [] 0 0)" by (rule demo_arc_start)
  show "offload_run (dyn_ops rat_float) (demo_arc [] [] [] 0 0) ?m (\<lambda>k. 0 + count_list [[0]] k)" by (rule demo_arc_run)
  show "pol_get (dyn_ops rat_float) (m_policy ?m) [0, 0] = Some (demo_block 0 0)" by code_simp
  show "bs_ref_cnt (demo_block 0 0) = 0" by code_simp
  show "[0, 0] \<noteq> [0, 0, 0 :: 8 word]" by simp
  show "prepare_store (dyn_ops rat_float) [[0, 0, 0]] ?m = Inr (None, ?m)" by code_simp
qed

section \<open>The reuse filter\<close>

text \<open>The calls made on the filter, with the keys looked up so far.\<close>

inductive filter_run :: "'p policy_ops \<Rightarrow> 'p FilterReused \<Rightarrow> 'p FilterReused \<Rightarrow> offload_key list \<Rightarrow> bool" for ops r0 where
  f_start: "filter_run ops r0 r0 []"
| f_lookup: "filter_run ops r0 r ks \<Longrightarrow> filter_run ops r0 (snd (fr_lookup ops k r)) (ks @ [k])"
| f_storing: "filter_run ops r0 r ks \<Longrightarrow> fr_prepare_store ops qs r = Inr (out, r') \<Longrightarrow> filter_run ops r0 r' ks"
| f_loading: "filter_run ops r0 r ks \<Longrightarrow> fr_prepare_load ops qs r = Inr (xs, r') \<Longrightarrow> filter_run ops r0 r' ks"
| f_touched: "filter_run ops r0 r ks \<Longrightarrow> filter_run ops r0 (fr_touch ops qs r) ks"
| f_loaded: "filter_run ops r0 r ks \<Longrightarrow> fr_complete_load ops qs r = Inr r' \<Longrightarrow> filter_run ops r0 r' ks"
| f_stored: "filter_run ops r0 r ks \<Longrightarrow> fr_complete_store ops qs success r = Inr r' \<Longrightarrow> filter_run ops r0 r' ks"
| f_events: "filter_run ops r0 r ks \<Longrightarrow> filter_run ops r0 (snd (fr_take_events r)) ks"

definition counts_ok :: "int \<Rightarrow> offload_key list \<Rightarrow> (offload_key, int) odict \<Rightarrow> bool" where
  "counts_ok mx ks d \<longleftrightarrow> od_ok d \<and> int (length d) \<le> mx \<and> (\<forall>k n. od_get d k = Some n \<longrightarrow> n \<le> int (count_list ks k))"

lemma track_ok:
  assumes "counts_ok mx ks d" and "1 \<le> mx"
  shows "counts_ok mx (ks @ [k]) (track mx k d)"
proof (cases "od_get d k")
  case (Some n)
  have "length (od_move_to_end k d) = length d"
    using od_del_length [of d k n] assms(1) Some by (simp add: od_move_to_end_def counts_ok_def)
  moreover have "length (od_set k v e) = length e" if "od_get e k = Some n" for v and e :: "(offload_key, int) odict"
    using that by (induction e) (auto split: if_splits)
  ultimately have "length (od_set k (n + 1) (od_move_to_end k d)) = length d" using Some by (simp add: od_get_move)
  then show ?thesis using assms(1) Some
    by (auto simp: counts_ok_def track_def od_simps)
next
  case None
  define e where "e = (if mx \<le> int (length d) then tl d else d)"
  have sub: "set e \<subseteq> set d" by (cases d) (auto simp: e_def)
  have "od_ok e" "int (length e) < mx"
    using assms by (auto simp: e_def counts_ok_def od_ok_def map_tl distinct_tl)
  note sub = sub this
  have ek: "od_get e k = None" using None sub(1) by (auto simp: map_of_eq_None_iff)
  have t: "track mx k d = od_set k 1 e" by (simp add: track_def None e_def)
  have "n \<le> int (count_list (ks @ [k]) k')" if n: "od_get (od_set k 1 e) k' = Some n" for k' n
  proof (cases "k' = k")
    case False
    then have "(k', n) \<in> set d" using n sub(1) od_get_mem [OF sub(2)] by (auto simp: od_simps)
    then have "od_get d k' = Some n" using assms(1) od_get_mem [of d] by (simp add: counts_ok_def)
    then show ?thesis using assms(1) False by (simp add: counts_ok_def)
  qed (use n in \<open>simp add: od_simps\<close>)
  then show ?thesis using sub(2,3) unfolding t counts_ok_def by (simp add: od_set_fresh [OF ek] od_ok_set [of e k 1, unfolded od_set_fresh [OF ek]])
qed

lemma filter_counts:
  assumes "filter_run ops r0 r ks" and "make_filter m th mx = Inr r0"
  shows "counts_ok mx ks (fr_counts r) \<and> fr_store_threshold r = th \<and> fr_max_tracker_size r = mx"
  using assms
proof (induction rule: filter_run.induct)
  case (f_lookup r ks k)
  have "1 \<le> mx" using f_lookup.prems by (auto simp: make_filter_def split: if_splits)
  then show ?case using f_lookup by (simp add: fr_lookup_def track_ok)
qed (auto simp: make_filter_def counts_ok_def fr_prepare_store_def fr_prepare_load_def fr_touch_def
    fr_complete_load_def fr_complete_store_def fr_take_events_def res_simps split: if_splits prod.splits)

text \<open>
  The reuse filter hands to the manager only keys that were looked up at least \<^verbatim>\<open>store_threshold\<close>
  times, and its table of counters never exceeds \<^verbatim>\<open>max_tracker_size\<close> entries.
\<close>

lemma filter_stores_reused:
  assumes "make_filter m th mx = Inr r0" and "filter_run ops r0 r ks"
  shows "int (length (fr_counts r)) \<le> mx \<and>
    (\<forall>qs out r'. fr_prepare_store ops qs r = Inr (Some out, r') \<longrightarrow>
       (\<forall>k \<in> set (keys_to_store out). k \<in> set qs \<and> th \<le> int (count_list ks k)))"
proof (intro conjI allI impI ballI)
  note c = filter_counts [OF assms(2,1)]
  show "int (length (fr_counts r)) \<le> mx" using c by (simp add: counts_ok_def)
  fix qs out r' k
  assume "fr_prepare_store ops qs r = Inr (Some out, r')" and k: "k \<in> set (keys_to_store out)"
  then obtain m' where "prepare_store ops (filter (\<lambda>k. fr_store_threshold r \<le> seen r k) qs) (fr_backing r) = Inr (Some out, m')"
    by (auto simp: fr_prepare_store_def res_simps)
  from prepare_store_shape [OF this] k have "k \<in> set qs" "th \<le> seen r k" using c by auto
  moreover have "seen r k \<le> int (count_list ks k)"
    using c by (auto simp: seen_def counts_ok_def split: option.splits)
  ultimately show "k \<in> set qs" "th \<le> int (count_list ks k)" by auto
qed

definition demo_filter :: "(offload_key, int) odict \<Rightarrow> rat cache_policy_state FilterReused" where
  "demo_filter d = \<lparr>fr_backing = demo_lru [] 0, fr_store_threshold = 2, fr_max_tracker_size = 1, fr_counts = d\<rparr>"

end
