(* ===== verification/Encoder_Cache.thy ===== *)
theory Encoder_Cache
  imports Ordered_Dict Block_Hash
begin

text \<open>
  The cache of multimodal encoder outputs (\<^verbatim>\<open>vllm/v1/core/encoder_cache_manager.py\<close>): the manager for
  multimodal models, its variant for encoder-decoder models and the computation of the budgets; and the
  placeholder ranges they measure (\<^verbatim>\<open>vllm/multimodal/inputs.py\<close>). Reference sets are sets of request
  ids; the order in which Python iterates a set of input ids is an argument.
\<close>

section \<open>Placeholders and requests\<close>

record mm_item = mm_feature +
  mm_is_embed :: "bool list option"

record EncRequest =
  er_id :: string
  er_features :: "mm_item list"

primrec cumsum :: "int \<Rightarrow> bool list \<Rightarrow> int list" where
  "cumsum n [] = []"
| "cumsum n (b # bs) = (let n' = n + (if b then 1 else 0) in n' # cumsum n' bs)"

definition embeds_cumsum :: "mm_item \<Rightarrow> int list option" where
  "embeds_cumsum f = map_option (cumsum 0) (mm_is_embed f)"

definition get_num_embeds :: "mm_item \<Rightarrow> int" where
  "get_num_embeds f =
     (case embeds_cumsum f of None \<Rightarrow> mm_length f | Some c \<Rightarrow> if c = [] then 0 else last c)"

definition get_embeds_indices_in_range :: "mm_item \<Rightarrow> int \<Rightarrow> int \<Rightarrow> (int \<times> int) res" where
  "get_embeds_indices_in_range f start_idx end_idx =
     (case embeds_cumsum f of
        None \<Rightarrow> Inr (start_idx, end_idx)
      | Some c \<Rightarrow>
          res_bind (if 0 < start_idx then py_nth c (start_idx - 1) else Inr 0) (\<lambda>embeds_start_idx.
          res_bind (if 0 < end_idx then py_nth c (end_idx - 1) else Inr 0) (\<lambda>embeds_end_idx.
            Inr (embeds_start_idx, embeds_end_idx))))"

definition get_num_encoder_embeds :: "EncRequest \<Rightarrow> nat \<Rightarrow> int res" where
  "get_num_encoder_embeds r input_id =
     (if \<not> input_id < length (er_features r) then Inl AssertionError
      else Inr (get_num_embeds (er_features r ! input_id)))"

definition feature_hash :: "EncRequest \<Rightarrow> nat \<Rightarrow> string res" where
  "feature_hash r input_id = res_bind (py_nth (er_features r) (int input_id)) (\<lambda>f. Inr (mm_identifier f))"

section \<open>The manager\<close>

record EncoderCacheManager =
  ec_size :: int
  ec_num_free_slots :: int
  ec_num_freeable_slots :: int
  ec_cached :: "(string, string set) odict"
  ec_freeable :: "(string, int) odict"
  ec_freed :: "string list"

definition make_encoder_cache :: "int \<Rightarrow> EncoderCacheManager" where
  "make_encoder_cache cache_size =
     \<lparr>ec_size = cache_size, ec_num_free_slots = cache_size, ec_num_freeable_slots = cache_size,
      ec_cached = [], ec_freeable = [], ec_freed = []\<rparr>"

definition ec_reset :: "EncoderCacheManager \<Rightarrow> EncoderCacheManager" where
  "ec_reset m = m\<lparr>ec_cached := [], ec_freeable := [], ec_freed := [],
     ec_num_free_slots := ec_size m, ec_num_freeable_slots := ec_size m\<rparr>"

definition check_and_update_cache :: "EncRequest \<Rightarrow> nat \<Rightarrow> EncoderCacheManager \<Rightarrow> (bool \<times> EncoderCacheManager) res" where
  "check_and_update_cache r input_id m =
     res_bind (feature_hash r input_id) (\<lambda>mm_hash.
       case od_get (ec_cached m) mm_hash of
         None \<Rightarrow> Inr (False, m)
       | Some refs \<Rightarrow>
           res_bind
             (if refs = {} then
                (case od_get (ec_freeable m) mm_hash of
                   None \<Rightarrow> Inl KeyError
                 | Some n \<Rightarrow> Inr (m\<lparr>ec_freeable := od_del mm_hash (ec_freeable m),
                                  ec_num_freeable_slots := ec_num_freeable_slots m - n\<rparr>))
              else Inr m)
             (\<lambda>m1. Inr (True, m1\<lparr>ec_cached := od_set mm_hash (insert (er_id r) refs) (ec_cached m1)\<rparr>)))"

text \<open>The eviction loop: the oldest unreferenced entry first.\<close>

function evict_until :: "int \<Rightarrow> EncoderCacheManager \<Rightarrow> EncoderCacheManager res" where
  "evict_until num_embeds m =
     (if \<not> ec_num_free_slots m < num_embeds then Inr m
      else
        case ec_freeable m of
          [] \<Rightarrow> Inl KeyError
        | (mm_hash, n) # rest \<Rightarrow>
            if od_get (ec_cached m) mm_hash = None then Inl KeyError
            else evict_until num_embeds
                   (m\<lparr>ec_freeable := rest, ec_cached := od_del mm_hash (ec_cached m),
                      ec_freed := ec_freed m @ [mm_hash], ec_num_free_slots := ec_num_free_slots m + n\<rparr>))"
  by pat_completeness auto
termination
  by (relation "measure (\<lambda>(_, m). length (ec_freeable m))") auto

declare evict_until.simps [simp del]

definition can_allocate ::
  "EncRequest \<Rightarrow> nat \<Rightarrow> int \<Rightarrow> int \<Rightarrow> EncoderCacheManager \<Rightarrow> (bool \<times> EncoderCacheManager) res" where
  "can_allocate r input_id encoder_compute_budget num_embeds_to_schedule m =
     res_bind (get_num_encoder_embeds r input_id) (\<lambda>n.
       if encoder_compute_budget < n then Inr (False, m)
       else
         let num_embeds = n + num_embeds_to_schedule in
         if num_embeds \<le> ec_num_free_slots m then Inr (True, m)
         else if ec_num_freeable_slots m < num_embeds then Inr (False, m)
         else res_bind (evict_until num_embeds m) (\<lambda>m'. Inr (True, m')))"

definition ec_allocate :: "EncRequest \<Rightarrow> nat \<Rightarrow> EncoderCacheManager \<Rightarrow> EncoderCacheManager res" where
  "ec_allocate r input_id m =
     res_bind (feature_hash r input_id) (\<lambda>mm_hash.
       let refs = (case od_get (ec_cached m) mm_hash of None \<Rightarrow> {} | Some refs \<Rightarrow> refs) in
       res_bind (get_num_encoder_embeds r input_id) (\<lambda>n.
         if \<not> n \<le> ec_num_free_slots m then Inl AssertionError
         else if \<not> n \<le> ec_num_freeable_slots m then Inl AssertionError
         else Inr (m\<lparr>ec_cached := od_set mm_hash (insert (er_id r) refs) (ec_cached m),
                    ec_num_free_slots := ec_num_free_slots m - n,
                    ec_num_freeable_slots := ec_num_freeable_slots m - n\<rparr>)))"

definition get_cached_input_ids :: "EncRequest \<Rightarrow> EncoderCacheManager \<Rightarrow> nat set" where
  "get_cached_input_ids r m =
     {i \<in> {..<length (er_features r)}. od_get (ec_cached m) (mm_identifier (er_features r ! i)) \<noteq> None}"

definition free_encoder_input :: "EncRequest \<Rightarrow> nat \<Rightarrow> EncoderCacheManager \<Rightarrow> EncoderCacheManager res" where
  "free_encoder_input r input_id m =
     res_bind (feature_hash r input_id) (\<lambda>mm_hash.
       case od_get (ec_cached m) mm_hash of
         None \<Rightarrow> Inr m
       | Some refs \<Rightarrow>
           if refs = {} then Inr m
           else
             let refs' = refs - {er_id r}; m1 = m\<lparr>ec_cached := od_set mm_hash refs' (ec_cached m)\<rparr>
             in if refs' = {}
                then res_bind (get_num_encoder_embeds r input_id) (\<lambda>n.
                       Inr (m1\<lparr>ec_freeable := od_set mm_hash n (ec_freeable m1),
                              ec_num_freeable_slots := ec_num_freeable_slots m1 + n\<rparr>))
                else Inr m1)"

definition ec_free :: "nat list \<Rightarrow> EncRequest \<Rightarrow> EncoderCacheManager \<Rightarrow> EncoderCacheManager res" where
  "ec_free input_ids r m = res_fold (free_encoder_input r) input_ids m"

definition get_freed_mm_hashes :: "EncoderCacheManager \<Rightarrow> string list \<times> EncoderCacheManager" where
  "get_freed_mm_hashes m = (ec_freed m, m\<lparr>ec_freed := []\<rparr>)"

section \<open>Budgets\<close>

record enc_scheduler_config =
  disable_chunked_mm_input :: bool
  max_num_batched_tokens :: int
  max_num_encoder_input_tokens :: int
  encoder_cache_size :: int

definition compute_mm_encoder_budget :: "enc_scheduler_config \<Rightarrow> (string, int) odict \<Rightarrow> (int \<times> int) res" where
  "compute_mm_encoder_budget config mm_max_toks_per_item =
     (if mm_max_toks_per_item = [] then Inr (0, 0)
      else
        let max_tokens_per_mm_item = Max (set (map snd mm_max_toks_per_item)) in
        if disable_chunked_mm_input config \<and> max_num_batched_tokens config < max_tokens_per_mm_item
        then Inl (ValueError ''Chunked MM input disabled but max_tokens_per_mm_item is larger than max_num_batched_tokens'')
        else Inr (max (max_num_encoder_input_tokens config) max_tokens_per_mm_item,
                  max (encoder_cache_size config) max_tokens_per_mm_item))"

section \<open>The variant for encoder-decoder models\<close>

record EncoderDecoderCacheManager =
  ed_size :: int
  ed_num_free_slots :: int
  ed_allocated :: "string list"
  ed_to_free :: "string list"

definition make_encdec_cache :: "int \<Rightarrow> EncoderDecoderCacheManager" where
  "make_encdec_cache cache_size =
     \<lparr>ed_size = cache_size, ed_num_free_slots = cache_size, ed_allocated = [], ed_to_free = []\<rparr>"

definition ed_reset :: "EncoderDecoderCacheManager \<Rightarrow> EncoderDecoderCacheManager" where
  "ed_reset m = m\<lparr>ed_num_free_slots := ed_size m, ed_allocated := [], ed_to_free := []\<rparr>"

definition ed_check_and_update_cache ::
  "EncRequest \<Rightarrow> nat \<Rightarrow> EncoderDecoderCacheManager \<Rightarrow> (bool \<times> EncoderDecoderCacheManager) res" where
  "ed_check_and_update_cache r input_id m = Inr (False, m)"

definition ed_can_allocate ::
  "EncRequest \<Rightarrow> nat \<Rightarrow> int \<Rightarrow> int \<Rightarrow> EncoderDecoderCacheManager \<Rightarrow> (bool \<times> EncoderDecoderCacheManager) res" where
  "ed_can_allocate r input_id encoder_compute_budget num_embeds_to_schedule m =
     res_bind (get_num_encoder_embeds r input_id) (\<lambda>n.
       if encoder_compute_budget < n then Inr (False, m)
       else Inr (n + num_embeds_to_schedule \<le> ed_num_free_slots m, m))"

definition ed_allocate :: "EncRequest \<Rightarrow> nat \<Rightarrow> EncoderDecoderCacheManager \<Rightarrow> EncoderDecoderCacheManager res" where
  "ed_allocate r input_id m =
     res_bind (get_num_encoder_embeds r input_id) (\<lambda>n.
     res_bind (feature_hash r input_id) (\<lambda>mm_hash.
       Inr (m\<lparr>ed_num_free_slots := ed_num_free_slots m - n, ed_allocated := ed_allocated m @ [mm_hash]\<rparr>)))"

definition ed_free_encoder_input :: "EncRequest \<Rightarrow> nat \<Rightarrow> EncoderDecoderCacheManager \<Rightarrow> EncoderDecoderCacheManager res" where
  "ed_free_encoder_input r input_id m =
     res_bind (get_num_encoder_embeds r input_id) (\<lambda>n. Inr (m\<lparr>ed_num_free_slots := ed_num_free_slots m + n\<rparr>))"

definition ed_free :: "EncRequest \<Rightarrow> EncoderDecoderCacheManager \<Rightarrow> EncoderDecoderCacheManager res" where
  "ed_free r m = res_fold (ed_free_encoder_input r) [0..<length (er_features r)] m"

definition ed_get_cached_input_ids :: "EncRequest \<Rightarrow> EncoderDecoderCacheManager \<Rightarrow> nat set" where
  "ed_get_cached_input_ids r m = {..<length (er_features r)}"

definition ed_get_freed_mm_hashes :: "EncoderDecoderCacheManager \<Rightarrow> string list \<times> EncoderDecoderCacheManager" where
  "ed_get_freed_mm_hashes m = (ed_to_free m, m\<lparr>ed_to_free := ed_allocated m, ed_allocated := []\<rparr>)"

section \<open>Accounting of slots\<close>

text \<open>
  \<open>emb\<close> gives the number of embeddings of an input by its hash. An entry is in \<^verbatim>\<open>freeable\<close> exactly
  when it is cached and no request refers to it.
\<close>

definition enc_ok :: "(string \<Rightarrow> int) \<Rightarrow> EncoderCacheManager \<Rightarrow> bool" where
  "enc_ok emb m \<longleftrightarrow> od_ok (ec_cached m) \<and> od_ok (ec_freeable m) \<and>
     (\<forall>h. od_get (ec_freeable m) h = (if od_get (ec_cached m) h = Some {} then Some (emb h) else None)) \<and>
     ec_num_free_slots m + sum_list (map emb (od_keys (ec_cached m))) = ec_size m \<and>
     ec_num_freeable_slots m = ec_num_free_slots m + sum_list (map snd (ec_freeable m)) \<and>
     0 \<le> ec_num_free_slots m"

definition request_ok :: "(string \<Rightarrow> int) \<Rightarrow> EncRequest \<Rightarrow> bool" where
  "request_ok emb r \<longleftrightarrow> (\<forall>f \<in> set (er_features r). get_num_embeds f = emb (mm_identifier f))"

lemma enc_okD:
  assumes "enc_ok emb m"
  shows "od_ok (ec_cached m)" "od_ok (ec_freeable m)"
    "od_get (ec_freeable m) h = (if od_get (ec_cached m) h = Some {} then Some (emb h) else None)"
    "ec_num_free_slots m + sum_list (map emb (od_keys (ec_cached m))) = ec_size m"
    "ec_num_freeable_slots m = ec_num_free_slots m + sum_list (map snd (ec_freeable m))"
    "0 \<le> ec_num_free_slots m"
  using assms by (auto simp: enc_ok_def)

lemma enc_okI:
  assumes "od_ok (ec_cached m)" "od_ok (ec_freeable m)"
    and "\<And>h. od_get (ec_freeable m) h = (if od_get (ec_cached m) h = Some {} then Some (emb h) else None)"
    and "ec_num_free_slots m + sum_list (map emb (od_keys (ec_cached m))) = ec_size m"
    and "ec_num_freeable_slots m = ec_num_free_slots m + sum_list (map snd (ec_freeable m))"
    and "0 \<le> ec_num_free_slots m"
  shows "enc_ok emb m"
  using assms unfolding enc_ok_def by blast

lemma feature_hash_in: "i < length (er_features r) \<Longrightarrow> feature_hash r i = Inr (mm_identifier (er_features r ! i))"
  by (simp add: feature_hash_def)

lemma num_embeds_in:
  "request_ok emb r \<Longrightarrow> i < length (er_features r) \<Longrightarrow>
   get_num_encoder_embeds r i = Inr (emb (mm_identifier (er_features r ! i)))"
  by (simp add: get_num_encoder_embeds_def request_ok_def)

text \<open>Sums over dictionaries.\<close>

lemma od_keys_update: "od_get d k = Some v \<Longrightarrow> od_keys (od_set k w d) = od_keys d"
  by (induction d) (auto split: if_splits)

lemma od_keys_insert: "od_get d k = None \<Longrightarrow> od_keys (od_set k w d) = od_keys d @ [k]"
  by (simp add: od_set_fresh)

lemma sum_filter_neq:
  fixes f :: "'a \<Rightarrow> int"
  shows "distinct xs \<Longrightarrow> x \<in> set xs \<Longrightarrow> sum_list (map f (filter (\<lambda>y. y \<noteq> x) xs)) = sum_list (map f xs) - f x"
  by (induction xs) auto

lemma sum_del:
  fixes d :: "('k, int) odict"
  assumes "od_ok d" and "od_get d k = Some n"
  shows "sum_list (map snd (od_del k d)) = sum_list (map snd d) - n"
  using assms
proof (induction d)
  case (Cons e d)
  then show ?case using od_del_fresh [of d k]
    by (cases e) (auto simp: od_del_def od_ok_def od_get_None split: if_splits)
qed simp

lemma freeable_nonneg:
  assumes "enc_ok emb m" and "\<forall>h. 0 \<le> emb h"
  shows "0 \<le> sum_list (map snd (ec_freeable m))"
proof -
  have "0 \<le> n" if "(h, n) \<in> set (ec_freeable m)" for h n
    using that od_get_mem [OF enc_okD(2) [OF assms(1)], of h n] enc_okD(3) [OF assms(1), of h] assms(2)
    by (auto split: if_splits)
  then show ?thesis by (intro sum_list_nonneg) auto
qed

section \<open>Every operation keeps the accounting\<close>

lemma make_encoder_cache_ok: "0 \<le> n \<Longrightarrow> enc_ok emb (make_encoder_cache n)"
  by (simp add: enc_ok_def make_encoder_cache_def)

lemma ec_reset_ok: "0 \<le> ec_size m \<Longrightarrow> enc_ok emb (ec_reset m)"
  by (simp add: enc_ok_def ec_reset_def)

lemma get_freed_ok: "enc_ok emb m \<Longrightarrow> enc_ok emb (snd (get_freed_mm_hashes m))"
  by (simp add: enc_ok_def get_freed_mm_hashes_def)

text \<open>A hit adds the request to the references; a miss changes nothing.\<close>

lemma check_and_update_cases:
  assumes m: "enc_ok emb m" and i: "i < length (er_features r)" and h: "h = mm_identifier (er_features r ! i)"
  shows "(od_get (ec_cached m) h = None \<and> check_and_update_cache r i m = Inr (False, m)) \<or>
    (\<exists>refs m'. od_get (ec_cached m) h = Some refs \<and> check_and_update_cache r i m = Inr (True, m') \<and> enc_ok emb m' \<and>
       ec_num_free_slots m' = ec_num_free_slots m \<and> ec_size m' = ec_size m \<and>
       (\<forall>h'. od_get (ec_cached m') h' = (if h' = h then Some (insert (er_id r) refs) else od_get (ec_cached m) h')))"
proof (cases "od_get (ec_cached m) h")
  case None
  then show ?thesis using feature_hash_in [OF i] by (simp add: check_and_update_cache_def h)
next
  case (Some refs)
  note d = enc_okD [OF m]
  define m1 where "m1 = (if refs = {} then m\<lparr>ec_freeable := od_del h (ec_freeable m),
      ec_num_freeable_slots := ec_num_freeable_slots m - emb h\<rparr> else m)"
  define m' where "m' = m1\<lparr>ec_cached := od_set h (insert (er_id r) refs) (ec_cached m1)\<rparr>"
  have "check_and_update_cache r i m = Inr (True, m')"
    using feature_hash_in [OF i] Some d(3) [of h] by (simp add: check_and_update_cache_def h m'_def m1_def)
  moreover have "enc_ok emb m'"
  proof (cases "refs = {}")
    case True
    then have "od_get (ec_freeable m) h = Some (emb h)" using d(3) [of h] Some by simp
    then show ?thesis using d(1,2,4-6) Some True sum_del [OF d(2), of h]
      by (intro enc_okI) (simp_all add: m'_def m1_def od_simps od_keys_update d(3))
  next
    case False
    then show ?thesis using d(1,2,4-6) Some
      by (intro enc_okI) (simp_all add: m'_def m1_def od_simps od_keys_update d(3))
  qed
  ultimately show ?thesis using Some by (auto simp: m'_def m1_def od_simps)
qed

text \<open>
  Eviction ends with enough free slots, as long as the free and freeable slots together suffice. It
  removes only unreferenced entries.
\<close>

lemma evict_until_ok:
  assumes "enc_ok emb m" and "num \<le> ec_num_freeable_slots m" and "\<forall>h. 0 \<le> emb h"
  shows "\<exists>m'. evict_until num m = Inr m' \<and> enc_ok emb m' \<and> num \<le> ec_num_free_slots m' \<and>
    ec_num_free_slots m \<le> ec_num_free_slots m' \<and> ec_num_freeable_slots m' = ec_num_freeable_slots m \<and> ec_size m' = ec_size m \<and>
    (\<exists>ev. ec_freeable m = ev @ ec_freeable m' \<and> ec_freed m' = ec_freed m @ map fst ev \<and>
       (ev = [] \<or> ec_num_free_slots m + sum_list (map snd (butlast ev)) < num) \<and>
       (\<forall>h. od_get (ec_cached m') h = (if h \<in> set (map fst ev) then None else od_get (ec_cached m) h)))"
  using assms(1,2)
proof (induction "length (ec_freeable m)" arbitrary: m)
  case 0
  then have "num \<le> ec_num_free_slots m" by (simp add: enc_okD)
  then show ?case using 0 by (auto simp: evict_until.simps [of num m])
next
  case (Suc k)
  note d = enc_okD [OF Suc.prems(1)]
  obtain h n rest where f: "ec_freeable m = (h, n) # rest" using Suc.hyps(2) by (cases "ec_freeable m") auto
  have c: "od_get (ec_cached m) h = Some {}" "n = emb h" using d(3) [of h] f by (auto split: if_splits)
  show ?case
  proof (cases "num \<le> ec_num_free_slots m")
    case True
    then show ?thesis using Suc.prems by (auto simp: evict_until.simps [of num m])
  next
    case False
    define m1 where "m1 = m\<lparr>ec_freeable := rest, ec_cached := od_del h (ec_cached m),
        ec_freed := ec_freed m @ [h], ec_num_free_slots := ec_num_free_slots m + n\<rparr>"
    have step: "evict_until num m = evict_until num m1"
      using False f c by (simp add: evict_until.simps [of num m] m1_def)
    have rest: "od_get rest h' = (if h' = h then None else if od_get (ec_cached m) h' = Some {} then Some (emb h') else None)" for h'
    proof (cases "h' = h")
      case True
      then show ?thesis using d(2) f by (simp add: od_ok_def od_get_None)
    next
      case False
      then show ?thesis using d(3) [of h'] f by simp
    qed
    have "h \<in> set (od_keys (ec_cached m))" using c(1) by (metis od_get_None option.distinct(1))
    then have "sum_list (map emb (od_keys (ec_cached m1))) = sum_list (map emb (od_keys (ec_cached m))) - n"
      using d(1) c(2) by (simp add: m1_def od_ok_def sum_filter_neq)
    moreover have "od_ok rest" using d(2) f by (simp add: od_ok_def)
    moreover have "0 \<le> n" using c(2) assms(3) by simp
    ultimately have ok1: "enc_ok emb m1" using d(1,4-6) f
      by (intro enc_okI) (simp_all add: m1_def od_simps rest)
    have "k = length (ec_freeable m1)" "num \<le> ec_num_freeable_slots m1" using Suc.hyps(2) Suc.prems(2) f by (auto simp: m1_def)
    from Suc.hyps(1) [OF this(1) ok1 this(2)] obtain m' ev where m': "evict_until num m1 = Inr m'" "enc_ok emb m'"
      "num \<le> ec_num_free_slots m'" "ec_num_free_slots m1 \<le> ec_num_free_slots m'"
      "ec_num_freeable_slots m' = ec_num_freeable_slots m1" "ec_size m' = ec_size m1"
      "ec_freeable m1 = ev @ ec_freeable m'" "ec_freed m' = ec_freed m1 @ map fst ev"
      "ev = [] \<or> ec_num_free_slots m1 + sum_list (map snd (butlast ev)) < num"
      "\<forall>h. od_get (ec_cached m') h = (if h \<in> set (map fst ev) then None else od_get (ec_cached m1) h)" by blast
    show ?thesis
    proof (intro exI conjI)
      show "evict_until num m = Inr m'" using step m'(1) by simp
      show "ec_freeable m = ((h, n) # ev) @ ec_freeable m'" using f m'(7) by (simp add: m1_def)
      show "ec_freed m' = ec_freed m @ map fst ((h, n) # ev)" using m'(8) by (simp add: m1_def)
      show "\<forall>h'. od_get (ec_cached m') h' = (if h' \<in> set (map fst ((h, n) # ev)) then None else od_get (ec_cached m) h')"
        using m'(10) by (simp add: m1_def od_simps)
      show "(h, n) # ev = [] \<or> ec_num_free_slots m + sum_list (map snd (butlast ((h, n) # ev))) < num"
        using m'(9) False by (auto simp: m1_def)
      show "ec_num_free_slots m \<le> ec_num_free_slots m'" using m'(4) \<open>0 \<le> n\<close> by (simp add: m1_def)
    qed (use m'(2,3,5,6) in \<open>simp_all add: m1_def\<close>)
  qed
qed

text \<open>What \<^verbatim>\<open>can_allocate\<close> evicted: a prefix of the unreferenced entries, oldest first, no longer than needed.\<close>

definition evicted_for :: "int \<Rightarrow> EncoderCacheManager \<Rightarrow> EncoderCacheManager \<Rightarrow> (string \<times> int) list \<Rightarrow> bool" where
  "evicted_for need m m' ev \<longleftrightarrow> ec_freeable m = ev @ ec_freeable m' \<and> ec_freed m' = ec_freed m @ map fst ev \<and>
     (ev = [] \<or> ec_num_free_slots m + sum_list (map snd (butlast ev)) < need) \<and>
     (\<forall>h. od_get (ec_cached m') h = (if h \<in> set (map fst ev) then None else od_get (ec_cached m) h))"

lemma can_allocate_ok:
  assumes m: "enc_ok emb m" and r: "request_ok emb r" and i: "i < length (er_features r)" and nn: "\<forall>h. 0 \<le> emb h"
    and e: "e = emb (mm_identifier (er_features r ! i))"
  shows "\<exists>m'. can_allocate r i budget S m = Inr (e \<le> budget \<and> e + S \<le> ec_num_freeable_slots m, m') \<and> enc_ok emb m' \<and>
    (e \<le> budget \<and> e + S \<le> ec_num_freeable_slots m \<longrightarrow> e + S \<le> ec_num_free_slots m') \<and>
    ec_num_free_slots m \<le> ec_num_free_slots m' \<and> ec_num_freeable_slots m' = ec_num_freeable_slots m \<and> ec_size m' = ec_size m \<and>
    (\<exists>ev. evicted_for (e + S) m m' ev)"
proof -
  have le: "ec_num_free_slots m \<le> ec_num_freeable_slots m" using enc_okD(5) [OF m] freeable_nonneg [OF m nn] by simp
  have same: "evicted_for (e + S) m m []" by (simp add: evicted_for_def)
  consider (budget) "budget < e" | (free) "\<not> budget < e" "e + S \<le> ec_num_free_slots m"
    | (full) "\<not> budget < e" "\<not> e + S \<le> ec_num_free_slots m" "ec_num_freeable_slots m < e + S"
    | (evict) "\<not> budget < e" "\<not> e + S \<le> ec_num_free_slots m" "\<not> ec_num_freeable_slots m < e + S" by blast
  then show ?thesis
  proof cases
    case evict
    obtain m' ev where m': "evict_until (e + S) m = Inr m'" "enc_ok emb m'" "e + S \<le> ec_num_free_slots m'"
      "ec_num_free_slots m \<le> ec_num_free_slots m'" "ec_num_freeable_slots m' = ec_num_freeable_slots m" "ec_size m' = ec_size m"
      "evicted_for (e + S) m m' ev"
      using evict_until_ok [OF m _ nn, of "e + S"] evict(3) unfolding evicted_for_def by force
    have "can_allocate r i budget S m = Inr (True, m')"
      using evict m'(1) num_embeds_in [OF r i] by (simp add: can_allocate_def e)
    then show ?thesis using evict m'(2-7) by (intro exI [of _ m']) auto
  qed (use m le same num_embeds_in [OF r i] in \<open>auto simp: can_allocate_def e\<close>)
qed

lemma evicted_keeps:
  assumes "enc_ok emb m" and "evicted_for need m m' ev"
  shows "od_get (ec_cached m) h = Some s \<Longrightarrow> s \<noteq> {} \<Longrightarrow> od_get (ec_cached m') h = Some s"
    and "od_get (ec_cached m) h = None \<Longrightarrow> od_get (ec_cached m') h = None"
proof -
  show "od_get (ec_cached m) h = None \<Longrightarrow> od_get (ec_cached m') h = None" using assms(2) by (simp add: evicted_for_def)
  assume s: "od_get (ec_cached m) h = Some s" "s \<noteq> {}"
  then have "od_get (ec_freeable m) h = None" using enc_okD(3) [OF assms(1), of h] by simp
  then have "h \<notin> set (map fst ev)" using assms(2) by (auto simp: evicted_for_def od_get_None)
  then show "od_get (ec_cached m') h = Some s" using assms(2) s(1) by (simp add: evicted_for_def)
qed

lemma ec_allocate_ok:
  assumes m: "enc_ok emb m" and r: "request_ok emb r" and i: "i < length (er_features r)" and nn: "\<forall>h. 0 \<le> emb h"
    and h: "h = mm_identifier (er_features r ! i)" and new: "od_get (ec_cached m) h = None" and e: "emb h \<le> ec_num_free_slots m"
  shows "\<exists>m'. ec_allocate r i m = Inr m' \<and> enc_ok emb m' \<and> ec_num_free_slots m' = ec_num_free_slots m - emb h \<and>
    ec_size m' = ec_size m \<and>
    (\<forall>h'. od_get (ec_cached m') h' = (if h' = h then Some {er_id r} else od_get (ec_cached m) h'))"
proof -
  note d = enc_okD [OF m]
  have le: "ec_num_free_slots m \<le> ec_num_freeable_slots m" using d(5) freeable_nonneg [OF m nn] by simp
  define m' where "m' = m\<lparr>ec_cached := od_set h {er_id r} (ec_cached m), ec_num_free_slots := ec_num_free_slots m - emb h,
      ec_num_freeable_slots := ec_num_freeable_slots m - emb h\<rparr>"
  have "ec_allocate r i m = Inr m'"
    using feature_hash_in [OF i] num_embeds_in [OF r i] new e le by (simp add: ec_allocate_def h m'_def Let_def)
  moreover have "enc_ok emb m'"
    using d(1,2,4-6) new e by (intro enc_okI) (simp_all add: m'_def od_simps d(3) od_keys_insert)
  ultimately show ?thesis by (auto simp: m'_def od_simps)
qed

lemma free_encoder_input_ok:
  assumes m: "enc_ok emb m" and r: "request_ok emb r" and i: "i < length (er_features r)"
    and h: "h = mm_identifier (er_features r ! i)"
  shows "\<exists>m'. free_encoder_input r i m = Inr m' \<and> enc_ok emb m' \<and> ec_num_free_slots m' = ec_num_free_slots m \<and> ec_size m' = ec_size m \<and>
    (\<forall>h'. od_get (ec_cached m') h' = (if h' = h then map_option (\<lambda>s. s - {er_id r}) (od_get (ec_cached m) h) else od_get (ec_cached m) h'))"
proof -
  note d = enc_okD [OF m]
  note f = feature_hash_in [OF i]
  consider (absent) "od_get (ec_cached m) h = None \<or> od_get (ec_cached m) h = Some {}"
    | (kept) refs where "od_get (ec_cached m) h = Some refs" "refs \<noteq> {}" "refs - {er_id r} \<noteq> {}"
    | (dropped) refs where "od_get (ec_cached m) h = Some refs" "refs \<noteq> {}" "refs - {er_id r} = {}"
    by (cases "od_get (ec_cached m) h") auto
  then show ?thesis
  proof cases
    case absent
    then have "free_encoder_input r i m = Inr m" using f by (auto simp: free_encoder_input_def h)
    then show ?thesis using absent m by auto
  next
    case kept
    define m' where "m' = m\<lparr>ec_cached := od_set h (refs - {er_id r}) (ec_cached m)\<rparr>"
    have "free_encoder_input r i m = Inr m'" using f kept by (simp add: free_encoder_input_def h m'_def Let_def)
    moreover have "enc_ok emb m'" using d(1,2,4-6) kept
      by (intro enc_okI) (simp_all add: m'_def od_simps d(3) od_keys_update)
    ultimately show ?thesis using kept by (auto simp: m'_def od_simps)
  next
    case dropped
    define m' where "m' = m\<lparr>ec_cached := od_set h (refs - {er_id r}) (ec_cached m), ec_freeable := od_set h (emb h) (ec_freeable m),
        ec_num_freeable_slots := ec_num_freeable_slots m + emb h\<rparr>"
    have "free_encoder_input r i m = Inr m'" using f dropped num_embeds_in [OF r i]
      by (simp add: free_encoder_input_def h m'_def Let_def)
    moreover have fresh: "od_get (ec_freeable m) h = None" using d(3) [of h] dropped by simp
    have "enc_ok emb m'"
    proof (rule enc_okI)
      show "od_ok (ec_freeable m')" using d(2) by (simp add: m'_def)
      show "ec_num_freeable_slots m' = ec_num_free_slots m' + sum_list (map snd (ec_freeable m'))"
        using d(5) fresh by (simp add: m'_def od_set_fresh)
    qed (use d(1,4,6) dropped in \<open>simp_all add: m'_def od_simps d(3) od_keys_update\<close>)
    ultimately show ?thesis using dropped by (auto simp: m'_def od_simps)
  qed
qed

lemma ec_free_ok:
  assumes "enc_ok emb m" and "request_ok emb r" and "\<forall>i \<in> set is. i < length (er_features r)"
  shows "\<exists>m'. ec_free is r m = Inr m' \<and> enc_ok emb m' \<and> ec_num_free_slots m' = ec_num_free_slots m \<and> ec_size m' = ec_size m \<and>
    (\<forall>h. od_get (ec_cached m') h = None \<longleftrightarrow> od_get (ec_cached m) h = None)"
  using assms(1,3)
proof (induction "is" arbitrary: m)
  case (Cons i "is")
  obtain m1 where m1: "free_encoder_input r i m = Inr m1" "enc_ok emb m1" "ec_num_free_slots m1 = ec_num_free_slots m"
    "ec_size m1 = ec_size m" "\<forall>h. od_get (ec_cached m1) h = None \<longleftrightarrow> od_get (ec_cached m) h = None"
    using free_encoder_input_ok [OF Cons.prems(1) assms(2) _ refl, of i] Cons.prems(2) by auto
  obtain m' where "ec_free is r m1 = Inr m' \<and> enc_ok emb m' \<and> ec_num_free_slots m' = ec_num_free_slots m1 \<and> ec_size m' = ec_size m1 \<and>
    (\<forall>h. od_get (ec_cached m') h = None \<longleftrightarrow> od_get (ec_cached m1) h = None)"
    using Cons.IH [OF m1(2)] Cons.prems(2) by auto
  then show ?case using m1 by (auto simp: ec_free_def)
qed (simp add: ec_free_def)

section \<open>Runs\<close>

text \<open>
  Calls as the scheduler makes them: an input is allocated only when its hash is not cached and the
  free slots hold it.
\<close>

inductive enc_run :: "(string \<Rightarrow> int) \<Rightarrow> int \<Rightarrow> EncoderCacheManager \<Rightarrow> bool" for emb n where
  ec_start: "enc_run emb n (make_encoder_cache n)"
| ec_check: "enc_run emb n m \<Longrightarrow> request_ok emb r \<Longrightarrow> check_and_update_cache r i m = Inr (b, m') \<Longrightarrow> enc_run emb n m'"
| ec_room: "enc_run emb n m \<Longrightarrow> request_ok emb r \<Longrightarrow> can_allocate r i budget S m = Inr (b, m') \<Longrightarrow> enc_run emb n m'"
| ec_alloc: "enc_run emb n m \<Longrightarrow> request_ok emb r \<Longrightarrow> feature_hash r i = Inr h \<Longrightarrow> od_get (ec_cached m) h = None \<Longrightarrow>
    ec_allocate r i m = Inr m' \<Longrightarrow> enc_run emb n m'"
| ec_release: "enc_run emb n m \<Longrightarrow> request_ok emb r \<Longrightarrow> free_encoder_input r i m = Inr m' \<Longrightarrow> enc_run emb n m'"
| ec_finish: "enc_run emb n m \<Longrightarrow> request_ok emb r \<Longrightarrow> set is = get_cached_input_ids r m \<Longrightarrow> ec_free is r m = Inr m' \<Longrightarrow>
    enc_run emb n m'"
| ec_taken: "enc_run emb n m \<Longrightarrow> enc_run emb n (snd (get_freed_mm_hashes m))"
| ec_cleared: "enc_run emb n m \<Longrightarrow> enc_run emb n (ec_reset m)"

lemma feature_hash_range: "feature_hash r i = Inr h \<Longrightarrow> i < length (er_features r) \<and> h = mm_identifier (er_features r ! i)"
  by (auto simp: feature_hash_def py_nth_def res_simps split: if_splits)

lemma embeds_range: "get_num_encoder_embeds r i = Inr e \<Longrightarrow> i < length (er_features r)"
  by (auto simp: get_num_encoder_embeds_def split: if_splits)

lemma enc_run_ok:
  assumes "enc_run emb n m" and "0 \<le> n" and nn: "\<forall>h. 0 \<le> emb h"
  shows "enc_ok emb m \<and> ec_size m = n"
  using assms(1)
proof induction
  case ec_start
  then show ?case using assms(2) make_encoder_cache_ok by (auto simp: make_encoder_cache_def)
next
  case (ec_check m r i b m')
  have "i < length (er_features r)" using ec_check.hyps(3)
    by (auto simp: check_and_update_cache_def res_simps dest: feature_hash_range)
  from check_and_update_cases [OF conjunct1 [OF ec_check.IH] this refl] ec_check.hyps(3) ec_check.IH show ?case by auto
next
  case (ec_room m r i budget S b m')
  have "i < length (er_features r)" using ec_room.hyps(3) by (auto simp: can_allocate_def res_simps dest: embeds_range)
  from can_allocate_ok [OF conjunct1 [OF ec_room.IH] ec_room.hyps(2) this nn refl, of budget S] ec_room.hyps(3) ec_room.IH
  show ?case by auto
next
  case (ec_alloc m r i h m')
  note i = feature_hash_range [OF ec_alloc.hyps(3)]
  have "emb h \<le> ec_num_free_slots m"
    using ec_alloc.hyps(2,5) i num_embeds_in [of emb r i] by (auto simp: ec_allocate_def res_simps ec_alloc.hyps(3) Let_def)
  from ec_allocate_ok [OF conjunct1 [OF ec_alloc.IH] ec_alloc.hyps(2) conjunct1 [OF i] nn conjunct2 [OF i] ec_alloc.hyps(4) this]
    ec_alloc.hyps(5) ec_alloc.IH show ?case by auto
next
  case (ec_release m r i m')
  have "i < length (er_features r)" using ec_release.hyps(3)
    by (auto simp: free_encoder_input_def res_simps dest: feature_hash_range)
  from free_encoder_input_ok [OF conjunct1 [OF ec_release.IH] ec_release.hyps(2) this refl] ec_release.hyps(3) ec_release.IH
  show ?case by auto
next
  case (ec_finish m r "is" m')
  have "\<forall>i \<in> set is. i < length (er_features r)" using ec_finish.hyps(3) by (auto simp: get_cached_input_ids_def)
  from ec_free_ok [OF conjunct1 [OF ec_finish.IH] ec_finish.hyps(2) this] ec_finish.hyps(4) ec_finish.IH show ?case by auto
next
  case (ec_taken m)
  then show ?case using get_freed_ok [of emb m] by (simp add: get_freed_mm_hashes_def)
next
  case (ec_cleared m)
  then show ?case using ec_reset_ok [of m emb] assms(2) by (simp add: ec_reset_def)
qed

lemma referenced_sum:
  assumes "enc_ok emb m"
  shows "sum_list (map emb (od_keys (ec_cached m))) =
    sum_list (map snd (ec_freeable m)) + (\<Sum>h | h \<in> set (od_keys (ec_cached m)) \<and> od_get (ec_cached m) h \<noteq> Some {}. emb h)"
proof -
  note d = enc_okD [OF assms]
  let ?K = "set (od_keys (ec_cached m))" and ?F = "set (od_keys (ec_freeable m))"
  have F: "?F = {h \<in> ?K. od_get (ec_cached m) h = Some {}}"
  proof -
    have "h \<in> ?F \<longleftrightarrow> od_get (ec_cached m) h = Some {}" for h
      using od_get_None [of "ec_freeable m" h] d(3) [of h] by (cases "od_get (ec_cached m) h = Some {}") simp_all
    moreover have "od_get (ec_cached m) h = Some {} \<Longrightarrow> h \<in> ?K" for h
      using od_get_None [of "ec_cached m" h] by (cases "h \<in> ?K") simp_all
    ultimately show ?thesis by blast
  qed
  have "b = emb a" if "(a, b) \<in> set (ec_freeable m)" for a b
    using that od_get_mem [OF d(2), of a b] d(3) [of a] by (auto split: if_splits)
  then have "map snd (ec_freeable m) = map emb (od_keys (ec_freeable m))" by auto
  then have "sum_list (map snd (ec_freeable m)) = sum emb ?F"
    using sum.distinct_set_conv_list [of "od_keys (ec_freeable m)" emb] d(2) unfolding od_ok_def by metis
  moreover have "sum_list (map emb (od_keys (ec_cached m))) = sum emb ?K"
    using sum.distinct_set_conv_list [of "od_keys (ec_cached m)" emb] d(1) unfolding od_ok_def by metis
  moreover have "?K = ?F \<union> {h. h \<in> ?K \<and> od_get (ec_cached m) h \<noteq> Some {}}" "?F \<inter> {h. h \<in> ?K \<and> od_get (ec_cached m) h \<noteq> Some {}} = {}"
    using F by auto
  then have "sum emb ?K = sum emb ?F + (\<Sum>h | h \<in> ?K \<and> od_get (ec_cached m) h \<noteq> Some {}. emb h)"
    by (metis (no_types, lifting) List.finite_set finite_Un sum.union_disjoint)
  ultimately show ?thesis by simp
qed

section \<open>Budgets and the encoder-decoder variant\<close>

text \<open>Every input within the per-modality limits fits into both budgets.\<close>

lemma budget_fits:
  assumes "compute_mm_encoder_budget config items = Inr (compute, cache)" and "(k, n) \<in> set items"
  shows "n \<le> compute" and "n \<le> cache"
proof -
  have "n \<le> Max (set (map snd items))" using assms(2) by (intro Max_ge) force+
  then show "n \<le> compute" "n \<le> cache" using assms by (auto simp: compute_mm_encoder_budget_def Let_def split: if_splits)
qed

text \<open>A request's inputs return the slots they took, and an allocated hash is reported by the second call from now.\<close>

lemma ed_allocate_free:
  "ed_allocate r i m = Inr m1 \<Longrightarrow> \<exists>m2. ed_free_encoder_input r i m1 = Inr m2 \<and> ed_num_free_slots m2 = ed_num_free_slots m"
  by (auto simp: ed_allocate_def ed_free_encoder_input_def res_simps)

lemma ed_freed_second:
  "fst (ed_get_freed_mm_hashes (snd (ed_get_freed_mm_hashes m))) = ed_allocated m"
  by (simp add: ed_get_freed_mm_hashes_def)

section \<open>Properties\<close>

text \<open>
  C24. In every run of the encoder cache the slots are conserved: the free slots and the embeddings of all
  cached inputs add up to the cache size, the free slots are never negative, and the freeable slots are
  the cache size less the embeddings of the inputs some request refers to. The entries that may be
  evicted are exactly those no request refers to.
\<close>

theorem encoder_cache_slots:
  assumes "enc_run emb n m" and "0 \<le> n" and "\<forall>h. 0 \<le> emb h"
  shows "0 \<le> ec_num_free_slots m \<and> ec_num_free_slots m + sum_list (map emb (od_keys (ec_cached m))) = n \<and>
    ec_num_freeable_slots m = n - (\<Sum>h | h \<in> set (od_keys (ec_cached m)) \<and> od_get (ec_cached m) h \<noteq> Some {}. emb h) \<and>
    set (od_keys (ec_freeable m)) = {h. od_get (ec_cached m) h = Some {}}"
proof -
  have ok: "enc_ok emb m" "ec_size m = n" using enc_run_ok [OF assms] by auto
  note d = enc_okD [OF ok(1)]
  have "h \<in> set (od_keys (ec_freeable m)) \<longleftrightarrow> od_get (ec_cached m) h = Some {}" for h
    using od_get_None [of "ec_freeable m" h] d(3) [of h] by (cases "od_get (ec_cached m) h = Some {}") simp_all
  then show ?thesis using d(4-6) ok(2) referenced_sum [OF ok(1)] by auto
qed

definition demo_item :: "string \<Rightarrow> int \<Rightarrow> int \<Rightarrow> mm_item" where
  "demo_item h start len = \<lparr>mm_identifier = h, mm_offset = start, mm_length = len, mm_is_embed = None\<rparr>"

definition demo_request :: EncRequest where
  "demo_request = \<lparr>er_id = ''r'', er_features = [demo_item ''a'' 0 2, demo_item ''b'' 4 2]\<rparr>"

definition demo_cache :: "int \<Rightarrow> int \<Rightarrow> (string, string set) odict \<Rightarrow> (string, int) odict \<Rightarrow> string list \<Rightarrow> EncoderCacheManager" where
  "demo_cache f g c d e = \<lparr>ec_size = 3, ec_num_free_slots = f, ec_num_freeable_slots = g, ec_cached = c, ec_freeable = d, ec_freed = e\<rparr>"

lemmas demo_enc_simps = demo_cache_def demo_request_def demo_item_def feature_hash_def get_num_encoder_embeds_def
  get_num_embeds_def embeds_cumsum_def py_nth_def

lemma demo_request_ok: "request_ok (\<lambda>_. 2) demo_request"
  by (simp add: request_ok_def demo_enc_simps)

lemma demo_enc_run: "enc_run (\<lambda>_. 2) 3 (demo_cache 1 3 [(''a'', {})] [(''a'', 2)] [])"
proof (rule enc_run.ec_release [OF enc_run.ec_alloc [OF enc_run.ec_start demo_request_ok] demo_request_ok])
  show "feature_hash demo_request 0 = Inr ''a''" by (simp add: demo_enc_simps)
  show "od_get (ec_cached (make_encoder_cache 3)) ''a'' = None" by (simp add: make_encoder_cache_def)
  show "ec_allocate demo_request 0 (make_encoder_cache 3) = Inr (demo_cache 1 1 [(''a'', {''r''})] [] [])"
    by (simp add: ec_allocate_def make_encoder_cache_def demo_enc_simps)
  show "free_encoder_input demo_request 0 (demo_cache 1 1 [(''a'', {''r''})] [] []) = Inr (demo_cache 1 3 [(''a'', {})] [(''a'', 2)] [])"
    by (simp add: free_encoder_input_def demo_enc_simps)
qed

theorem encoder_cache_slots_witness:
  "ec_num_freeable_slots (demo_cache 1 3 [(''a'', {})] [(''a'', 2)] []) = 3 \<and>
   1 + sum_list (map (\<lambda>_. 2) (od_keys (ec_cached (demo_cache 1 3 [(''a'', {})] [(''a'', 2)] [])))) = (3 :: int)"
  using encoder_cache_slots [OF demo_enc_run] by (simp add: demo_cache_def)

text \<open>
  C27. In every run, \<^verbatim>\<open>can_allocate\<close> returns: its eviction loop ends without exhausting the list. The
  answer is yes exactly when the input is within the compute budget and the input with what is already
  scheduled is within the freeable slots, and then that many slots are free. It evicts the oldest
  unreferenced entries, as few as needed, and no entry a request refers to.
\<close>

theorem can_allocate_decides:
  assumes "enc_run emb n m" and "0 \<le> n" and "\<forall>h. 0 \<le> emb h" and "request_ok emb r" and "i < length (er_features r)"
    and "e = emb (mm_identifier (er_features r ! i))" and "fits = (e \<le> budget \<and> e + S \<le> ec_num_freeable_slots m)"
  shows "\<exists>m' ev. can_allocate r i budget S m = Inr (fits, m') \<and> evicted_for (e + S) m m' ev \<and>
    (fits \<longrightarrow> e + S \<le> ec_num_free_slots m') \<and>
    (\<forall>h s. od_get (ec_cached m) h = Some s \<and> s \<noteq> {} \<longrightarrow> od_get (ec_cached m') h = Some s)"
proof -
  have ok: "enc_ok emb m" using enc_run_ok [OF assms(1-3)] by simp
  obtain m' ev where m': "can_allocate r i budget S m = Inr (fits, m')" "fits \<longrightarrow> e + S \<le> ec_num_free_slots m'"
    "evicted_for (e + S) m m' ev"
    using can_allocate_ok [OF ok assms(4,5,3,6), of budget S] unfolding assms(7) by blast
  then show ?thesis using evicted_keeps(1) [OF ok m'(3)] by blast
qed

theorem can_allocate_decides_witness:
  "can_allocate demo_request 1 5 0 (demo_cache 1 3 [(''a'', {})] [(''a'', 2)] []) = Inr (True, demo_cache 3 3 [] [] [''a''])"
proof -
  have "can_allocate demo_request 1 5 0 (demo_cache 1 3 [(''a'', {})] [(''a'', 2)] []) = Inr (True, demo_cache 3 3 [] [] [''a''])"
    by (simp add: can_allocate_def evict_until.simps od_del_def demo_enc_simps)
  then show ?thesis
    using can_allocate_decides [OF demo_enc_run _ _ demo_request_ok, of 1 2 True 5 0] by (auto simp: demo_enc_simps)
qed

end
