(* ===== verification/Encoder_Sched.thy ===== *)
theory Encoder_Sched
  imports Encoder_Cache
begin

text \<open>
  Scheduling of encoder inputs (\<^verbatim>\<open>Scheduler._try_schedule_encoder_inputs\<close> and its callers in
  \<^verbatim>\<open>vllm/v1/core/sched/scheduler.py\<close>) over the encoder cache, and the gathering of their embeddings by
  the model runner (\<^verbatim>\<open>GPUModelRunner._gather_mm_embeddings\<close> in \<^verbatim>\<open>vllm/v1/worker/gpu_model_runner.py\<close>).
  Whether an external store holds an input is an argument: the connector is a plug-in.
\<close>

section \<open>The cache the scheduler works with\<close>

datatype enc_mgr = MmCache EncoderCacheManager | EncDecCache EncoderDecoderCacheManager

definition make_enc_mgr :: "bool \<Rightarrow> int \<Rightarrow> enc_mgr" where
  "make_enc_mgr is_encoder_decoder cache_size =
     (if is_encoder_decoder then EncDecCache (make_encdec_cache cache_size)
      else MmCache (make_encoder_cache cache_size))"

fun mgr_check :: "EncRequest \<Rightarrow> nat \<Rightarrow> enc_mgr \<Rightarrow> (bool \<times> enc_mgr) res" where
  "mgr_check r i (MmCache m) = res_bind (check_and_update_cache r i m) (\<lambda>(b, m'). Inr (b, MmCache m'))"
| "mgr_check r i (EncDecCache m) = res_bind (ed_check_and_update_cache r i m) (\<lambda>(b, m'). Inr (b, EncDecCache m'))"

fun mgr_can_allocate :: "EncRequest \<Rightarrow> nat \<Rightarrow> int \<Rightarrow> int \<Rightarrow> enc_mgr \<Rightarrow> (bool \<times> enc_mgr) res" where
  "mgr_can_allocate r i b s (MmCache m) = res_bind (can_allocate r i b s m) (\<lambda>(x, m'). Inr (x, MmCache m'))"
| "mgr_can_allocate r i b s (EncDecCache m) = res_bind (ed_can_allocate r i b s m) (\<lambda>(x, m'). Inr (x, EncDecCache m'))"

fun mgr_allocate :: "EncRequest \<Rightarrow> nat \<Rightarrow> enc_mgr \<Rightarrow> enc_mgr res" where
  "mgr_allocate r i (MmCache m) = res_bind (ec_allocate r i m) (\<lambda>m'. Inr (MmCache m'))"
| "mgr_allocate r i (EncDecCache m) = res_bind (ed_allocate r i m) (\<lambda>m'. Inr (EncDecCache m'))"

fun mgr_cached_input_ids :: "EncRequest \<Rightarrow> enc_mgr \<Rightarrow> nat set" where
  "mgr_cached_input_ids r (MmCache m) = get_cached_input_ids r m"
| "mgr_cached_input_ids r (EncDecCache m) = ed_get_cached_input_ids r m"

fun mgr_free_encoder_input :: "EncRequest \<Rightarrow> nat \<Rightarrow> enc_mgr \<Rightarrow> enc_mgr res" where
  "mgr_free_encoder_input r i (MmCache m) = res_bind (free_encoder_input r i m) (\<lambda>m'. Inr (MmCache m'))"
| "mgr_free_encoder_input r i (EncDecCache m) = res_bind (ed_free_encoder_input r i m) (\<lambda>m'. Inr (EncDecCache m'))"

declare mgr_check.simps [simp del] mgr_can_allocate.simps [simp del] mgr_allocate.simps [simp del]

section \<open>Scheduling\<close>

text \<open>The variables of the loop.\<close>

record enc_plan =
  pl_inputs :: "nat list"
  pl_external :: "nat list"
  pl_hashes :: "string list"
  pl_num_embeds :: int
  pl_num_new_tokens :: int
  pl_budget :: int
  pl_mgr :: enc_mgr

record enc_args =
  ea_is_encoder_decoder :: bool
  ea_disable_chunked_mm_input :: bool
  ea_has_cache_item :: "string \<Rightarrow> bool"
  ea_num_computed_tokens :: int
  ea_shift :: int

text \<open>The loop over the inputs from index \<open>i\<close> on.\<close>

primrec plan_loop :: "enc_args \<Rightarrow> EncRequest \<Rightarrow> mm_item list \<Rightarrow> nat \<Rightarrow> enc_plan \<Rightarrow> enc_plan res" where
  "plan_loop a r [] i p = Inr p"
| "plan_loop a r (f # fs) i p =
     (let start_pos = mm_offset f; num_encoder_tokens = mm_length f; h = mm_identifier f;
          nct = ea_num_computed_tokens a; new = pl_num_new_tokens p; shift = ea_shift a in
      if nct + new + shift \<le> start_pos then Inr p
      else if ea_is_encoder_decoder a \<and> 0 < nct then
        (if start_pos \<noteq> 0 then Inl AssertionError else plan_loop a r fs (i + 1) p)
      else if start_pos + num_encoder_tokens \<le> nct then plan_loop a r fs (i + 1) p
      else if \<not> ea_is_encoder_decoder a \<and> h \<in> set (pl_hashes p) then plan_loop a r fs (i + 1) p
      else
        res_bind (if ea_is_encoder_decoder a then Inr (False, pl_mgr p) else mgr_check r i (pl_mgr p)) (\<lambda>(hit, m1).
          let p1 = p\<lparr>pl_mgr := m1\<rparr> in
          if hit then plan_loop a r fs (i + 1) p1
          else if ea_disable_chunked_mm_input a \<and> nct < start_pos \<and> nct + new < start_pos + num_encoder_tokens
          then Inr (p1\<lparr>pl_num_new_tokens := max 0 (start_pos - (nct + shift))\<rparr>)
          else
            res_bind (mgr_can_allocate r i (pl_budget p) (pl_num_embeds p) m1) (\<lambda>(fits, m2).
              let p2 = p1\<lparr>pl_mgr := m2\<rparr> in
              if \<not> fits
              then Inr (p2\<lparr>pl_num_new_tokens := (if nct + shift < start_pos then start_pos - (nct + shift) else 0)\<rparr>)
              else
                res_bind (get_embeds_indices_in_range f (max 0 (nct - start_pos)) (min num_encoder_tokens (nct + new - start_pos)))
                  (\<lambda>(s, e).
                    if e - s = 0 then plan_loop a r fs (i + 1) p2
                    else if ea_has_cache_item a h
                    then plan_loop a r fs (i + 1)
                           (p2\<lparr>pl_hashes := pl_hashes p2 @ [h], pl_external := pl_external p2 @ [i],
                              pl_num_embeds := pl_num_embeds p2 + get_num_embeds f\<rparr>)
                    else plan_loop a r fs (i + 1)
                           (p2\<lparr>pl_hashes := pl_hashes p2 @ [h], pl_inputs := pl_inputs p2 @ [i],
                              pl_num_embeds := pl_num_embeds p2 + get_num_embeds f,
                              pl_budget := pl_budget p2 - get_num_embeds f\<rparr>)))))"

definition try_schedule_encoder_inputs ::
  "enc_args \<Rightarrow> EncRequest \<Rightarrow> int \<Rightarrow> int \<Rightarrow> enc_mgr \<Rightarrow> enc_plan res" where
  "try_schedule_encoder_inputs a r num_new_tokens encoder_compute_budget m =
     (let p = \<lparr>pl_inputs = [], pl_external = [], pl_hashes = [], pl_num_embeds = 0,
               pl_num_new_tokens = num_new_tokens, pl_budget = encoder_compute_budget, pl_mgr = m\<rparr>
      in if num_new_tokens = 0 \<or> er_features r = [] then Inr p else plan_loop a r (er_features r) 0 p)"

text \<open>The allocation that follows once the request is known to run.\<close>

definition allocate_planned :: "EncRequest \<Rightarrow> nat list \<Rightarrow> nat list \<Rightarrow> enc_mgr \<Rightarrow> enc_mgr res" where
  "allocate_planned r inputs external m =
     res_bind (res_fold (mgr_allocate r) inputs m) (res_fold (mgr_allocate r) external)"

definition free_encoder_inputs :: "bool \<Rightarrow> int \<Rightarrow> nat list \<Rightarrow> EncRequest \<Rightarrow> enc_mgr \<Rightarrow> enc_mgr res" where
  "free_encoder_inputs is_encoder_decoder num_computed_tokens input_ids r m =
     res_fold (\<lambda>i m. res_bind (py_nth (er_features r) (int i)) (\<lambda>f.
         if is_encoder_decoder \<and> 0 < num_computed_tokens then mgr_free_encoder_input r i m
         else if mm_offset f + mm_length f \<le> num_computed_tokens then mgr_free_encoder_input r i m
         else Inr m)) input_ids m"

section \<open>Gathering\<close>

text \<open>
  The slices of encoder outputs the model runner reads for one request; \<open>cached\<close> says which outputs its
  cache holds.
\<close>

primrec gather_loop :: "(string \<Rightarrow> bool) \<Rightarrow> int \<Rightarrow> int \<Rightarrow> mm_item list \<Rightarrow> (string \<times> int \<times> int) list res" where
  "gather_loop cached nct n [] = Inr []"
| "gather_loop cached nct n (f # fs) =
     (let start_pos = mm_offset f; num_encoder_tokens = mm_length f in
      if nct + n \<le> start_pos then Inr []
      else if start_pos + num_encoder_tokens \<le> nct then gather_loop cached nct n fs
      else
        let start_idx = max (nct - start_pos) 0; end_idx = min (nct - start_pos + n) num_encoder_tokens in
        if \<not> start_idx < end_idx then Inl AssertionError
        else
          res_bind (get_embeds_indices_in_range f start_idx end_idx) (\<lambda>(s, e).
            if s = e then gather_loop cached nct n fs
            else if \<not> cached (mm_identifier f) then Inl AssertionError
            else res_bind (gather_loop cached nct n fs) (\<lambda>rest.
              Inr ((if mm_is_embed f = None then (mm_identifier f, start_idx, end_idx) else (mm_identifier f, s, e)) # rest))))"

definition gather_mm_embeddings :: "(string \<Rightarrow> bool) \<Rightarrow> EncRequest \<Rightarrow> int \<Rightarrow> int \<Rightarrow> int \<Rightarrow> (string \<times> int \<times> int) list res" where
  "gather_mm_embeddings cached r num_computed_tokens num_scheduled_tokens shift_computed_tokens =
     gather_loop cached (num_computed_tokens + shift_computed_tokens) num_scheduled_tokens (er_features r)"

section \<open>Embeddings in a range of a placeholder\<close>

definition placeholder_ok :: "mm_item \<Rightarrow> bool" where
  "placeholder_ok f \<longleftrightarrow> 0 < mm_length f \<and> (\<forall>bs. mm_is_embed f = Some bs \<longrightarrow> int (length bs) = mm_length f)"

text \<open>The number of embeddings before position \<open>k\<close> of the placeholder.\<close>

definition embeds_before :: "mm_item \<Rightarrow> int \<Rightarrow> int" where
  "embeds_before f k = (case mm_is_embed f of None \<Rightarrow> k | Some bs \<Rightarrow> int (length (filter id (take (nat k) bs))))"

lemma cumsum_nth: "i < length bs \<Longrightarrow> cumsum n bs ! i = n + int (length (filter id (take (Suc i) bs)))"
  by (induction bs arbitrary: n i) (auto simp: Let_def nth_Cons split: nat.splits)

lemma cumsum_length [simp]: "length (cumsum n bs) = length bs"
  by (induction bs arbitrary: n) (auto simp: Let_def)

lemma cumsum_at:
  assumes "0 \<le> k" and "k \<le> int (length bs)"
  shows "(if 0 < k then py_nth (cumsum 0 bs) (k - 1) else Inr 0) = Inr (int (length (filter id (take (nat k) bs))))"
proof (cases "0 < k")
  case True
  then have "nat (k - 1) < length bs" "Suc (nat (k - 1)) = nat k" using assms by auto
  then show ?thesis using True cumsum_nth [of "nat (k - 1)" bs 0] by (simp add: py_nth_def)
qed (use assms in simp)

lemma embeds_in_range:
  assumes "placeholder_ok f" and "0 \<le> s" and "s \<le> e" and "e \<le> mm_length f"
  shows "get_embeds_indices_in_range f s e = Inr (embeds_before f s, embeds_before f e)"
proof (cases "mm_is_embed f")
  case None
  then show ?thesis by (simp add: get_embeds_indices_in_range_def embeds_cumsum_def embeds_before_def)
next
  case (Some bs)
  then have "int (length bs) = mm_length f" using assms(1) by (simp add: placeholder_ok_def)
  then show ?thesis using Some assms cumsum_at [of s bs] cumsum_at [of e bs]
    by (simp add: get_embeds_indices_in_range_def embeds_cumsum_def embeds_before_def)
qed

lemma embeds_before_mono: "s \<le> e \<Longrightarrow> embeds_before f s \<le> embeds_before f e"
proof (cases "mm_is_embed f")
  case (Some bs)
  assume "s \<le> e"
  then obtain d where "nat e = nat s + d" using nat_le_iff_add by (metis nat_mono)
  then show ?thesis by (simp add: embeds_before_def Some take_add)
qed (simp add: embeds_before_def)

text \<open>No embedding of the placeholder falls into the tokens from \<open>c\<close> to \<open>c + n\<close>.\<close>

definition no_embeds :: "mm_item \<Rightarrow> int \<Rightarrow> int \<Rightarrow> bool" where
  "no_embeds f c n \<longleftrightarrow>
     embeds_before f (min (mm_length f) (c + n - mm_offset f)) = embeds_before f (max 0 (c - mm_offset f))"

lemma no_embeds_less:
  assumes "no_embeds f c n" and "n' \<le> n" and "0 \<le> n'" and "mm_offset f < c + n'" and "c < mm_offset f + mm_length f" and "placeholder_ok f"
  shows "no_embeds f c n'"
proof -
  have "max 0 (c - mm_offset f) \<le> min (mm_length f) (c + n' - mm_offset f)"
    using assms(3-6) by (auto simp: placeholder_ok_def)
  then have "embeds_before f (max 0 (c - mm_offset f)) \<le> embeds_before f (min (mm_length f) (c + n' - mm_offset f))"
    by (rule embeds_before_mono)
  moreover have "embeds_before f (min (mm_length f) (c + n' - mm_offset f)) \<le> embeds_before f (min (mm_length f) (c + n - mm_offset f))"
    using assms(2) by (intro embeds_before_mono) auto
  ultimately show ?thesis using assms(1) by (simp add: no_embeds_def)
qed

section \<open>The plan is sound\<close>

abbreviation planned :: "enc_plan \<Rightarrow> nat list" where
  "planned p \<equiv> pl_inputs p @ pl_external p"

abbreviation hash_of :: "EncRequest \<Rightarrow> nat \<Rightarrow> string" where
  "hash_of r i \<equiv> mm_identifier (er_features r ! i)"

text \<open>The planned inputs are distinct, not cached, and fit into the free slots together.\<close>

definition plan_ok :: "(string \<Rightarrow> int) \<Rightarrow> EncRequest \<Rightarrow> enc_plan \<Rightarrow> EncoderCacheManager \<Rightarrow> bool" where
  "plan_ok emb r p m \<longleftrightarrow> pl_mgr p = MmCache m \<and> enc_ok emb m \<and>
     (\<forall>i \<in> set (planned p). i < length (er_features r)) \<and> distinct (map (hash_of r) (planned p)) \<and>
     set (map (hash_of r) (planned p)) = set (pl_hashes p) \<and>
     sum_list (map (emb \<circ> hash_of r) (planned p)) = pl_num_embeds p \<and> pl_num_embeds p \<le> ec_num_free_slots m \<and>
     (\<forall>h \<in> set (pl_hashes p). od_get (ec_cached m) h = None)"

text \<open>The output of an input is planned, cached for this request, or not needed.\<close>

definition covered :: "EncRequest \<Rightarrow> int \<Rightarrow> string list \<Rightarrow> EncoderCacheManager \<Rightarrow> int \<Rightarrow> mm_item \<Rightarrow> bool" where
  "covered r c hs m n f \<longleftrightarrow> (mm_offset f < c + n \<and> c < mm_offset f + mm_length f \<longrightarrow>
     mm_identifier f \<in> set hs \<or> (\<exists>s. od_get (ec_cached m) (mm_identifier f) = Some s \<and> er_id r \<in> s) \<or> no_embeds f c n)"

lemma covered_less: "covered r c hs m n f \<Longrightarrow> n' \<le> n \<Longrightarrow> 0 \<le> n' \<Longrightarrow> placeholder_ok f \<Longrightarrow> covered r c hs m n' f"
  unfolding covered_def using no_embeds_less [of f c n n'] by auto

text \<open>A change of the cache that drops no reference and caches nothing new.\<close>

definition keeps :: "EncoderCacheManager \<Rightarrow> EncoderCacheManager \<Rightarrow> bool" where
  "keeps m m' \<longleftrightarrow>
     (\<forall>h. od_get (ec_cached m) h = None \<longrightarrow> od_get (ec_cached m') h = None) \<and>
     (\<forall>h s x. od_get (ec_cached m) h = Some s \<and> x \<in> s \<longrightarrow> (\<exists>s'. od_get (ec_cached m') h = Some s' \<and> x \<in> s')) \<and>
     ec_num_free_slots m \<le> ec_num_free_slots m'"

lemma keeps_refl: "keeps m m"
  by (auto simp: keeps_def)

lemma covered_keeps: "covered r c hs m n f \<Longrightarrow> keeps m m' \<Longrightarrow> covered r c hs m' n f"
  unfolding covered_def keeps_def by blast

lemma plan_ok_keeps: "plan_ok emb r p m \<Longrightarrow> keeps m m' \<Longrightarrow> enc_ok emb m' \<Longrightarrow> plan_ok emb r (p\<lparr>pl_mgr := MmCache m'\<rparr>) m'"
  by (auto simp: plan_ok_def keeps_def)

lemma check_keeps:
  assumes m: "enc_ok emb m" and i: "i < length (er_features r)"
  shows "(od_get (ec_cached m) (hash_of r i) = None \<and> mgr_check r i (MmCache m) = Inr (False, MmCache m)) \<or>
    (\<exists>m' s. mgr_check r i (MmCache m) = Inr (True, MmCache m') \<and> enc_ok emb m' \<and> keeps m m' \<and>
       od_get (ec_cached m') (hash_of r i) = Some s \<and> er_id r \<in> s)"
  using check_and_update_cases [OF m i refl]
proof (elim disjE exE conjE)
  fix refs m'
  assume hit: "check_and_update_cache r i m = Inr (True, m')" "enc_ok emb m'" "ec_num_free_slots m' = ec_num_free_slots m"
    and c: "od_get (ec_cached m) (hash_of r i) = Some refs"
      "\<forall>h'. od_get (ec_cached m') h' = (if h' = hash_of r i then Some (insert (er_id r) refs) else od_get (ec_cached m) h')"
  have "keeps m m'" using c hit(3) by (simp add: keeps_def)
  then show ?thesis using hit(1,2) c(2) by (simp add: mgr_check.simps)
qed (simp add: mgr_check.simps)

lemma can_allocate_keeps:
  assumes m: "enc_ok emb m" and r: "request_ok emb r" and i: "i < length (er_features r)" and nn: "\<forall>h. 0 \<le> emb h"
  shows "\<exists>fits m'. mgr_can_allocate r i budget S (MmCache m) = Inr (fits, MmCache m') \<and> enc_ok emb m' \<and> keeps m m' \<and>
    (fits \<longrightarrow> emb (hash_of r i) + S \<le> ec_num_free_slots m')"
proof -
  obtain fits m' ev where c: "can_allocate r i budget S m = Inr (fits, m')" "enc_ok emb m'"
    "fits \<longrightarrow> emb (hash_of r i) + S \<le> ec_num_free_slots m'" "ec_num_free_slots m \<le> ec_num_free_slots m'"
    "evicted_for (emb (hash_of r i) + S) m m' ev"
    using can_allocate_ok [OF m r i nn refl, of budget S] by blast
  then have "keeps m m'" using evicted_keeps [OF m c(5)] by (auto simp: keeps_def)
  then show ?thesis using c by (auto simp: mgr_can_allocate.simps)
qed

text \<open>Planning one more input.\<close>

lemma plan_ok_add:
  assumes p: "plan_ok emb r p m" and i: "i < length (er_features r)" and new: "hash_of r i \<notin> set (pl_hashes p)"
    and c: "od_get (ec_cached m) (hash_of r i) = None" and e: "emb (hash_of r i) + pl_num_embeds p \<le> ec_num_free_slots m"
    and q: "pl_mgr q = MmCache m" "pl_hashes q = pl_hashes p @ [hash_of r i]" "pl_num_embeds q = pl_num_embeds p + emb (hash_of r i)"
    and xs: "planned p = xs @ ys" "planned q = xs @ i # ys"
  shows "plan_ok emb r q m"
proof -
  have "distinct (map (hash_of r) (xs @ i # ys))" "set (map (hash_of r) (xs @ i # ys)) = insert (hash_of r i) (set (pl_hashes p))"
    "sum_list (map (emb \<circ> hash_of r) (xs @ i # ys)) = pl_num_embeds p + emb (hash_of r i)"
    "\<forall>j \<in> set (xs @ i # ys). j < length (er_features r)"
    using p i new unfolding plan_ok_def xs(1) by (auto simp: image_iff)
  then show ?thesis using p c e q unfolding plan_ok_def xs(2) by auto
qed

lemma plan_ok_new: "plan_ok emb r (p\<lparr>pl_num_new_tokens := n\<rparr>) m \<longleftrightarrow> plan_ok emb r p m"
  by (simp add: plan_ok_def)

lemma later_offset:
  assumes "sorted (map mm_offset F)" and "i < length F" and "f \<in> set (drop i F)"
  shows "mm_offset (F ! i) \<le> mm_offset f"
proof -
  obtain k where "f = F ! (i + k)" "i + k < length F" using assms(3) by (auto simp: in_set_conv_nth)
  then show ?thesis using sorted_nth_mono [OF assms(1), of i "i + k"] assms(2) by simp
qed

text \<open>Leaving the loop at an input, with the tokens cut back to before it or to none.\<close>

lemma covered_cut:
  assumes "sorted (map mm_offset F)" and "\<forall>f \<in> set F. placeholder_ok f" and "i < length F"
    and prev: "\<forall>f \<in> set (take i F). covered r c hs m n f" and n': "0 \<le> n'" "n' \<le> n" "n' = 0 \<or> c + n' \<le> mm_offset (F ! i)"
  shows "\<forall>f \<in> set F. covered r c hs m n' f"
proof
  fix f assume f: "f \<in> set F"
  then consider "f \<in> set (take i F)" | "f \<in> set (drop i F)" by (metis Un_iff append_take_drop_id set_append)
  then show "covered r c hs m n' f"
  proof cases
    case 1
    then show ?thesis using prev n'(1,2) assms(2) f by (blast intro: covered_less)
  next
    case 2
    have "no_embeds f c 0" if "mm_offset f < c" "c < mm_offset f + mm_length f" using that by (simp add: no_embeds_def min_def max_def)
    then show ?thesis using n'(3) later_offset [OF assms(1,3) 2] by (auto simp: covered_def)
  qed
qed

text \<open>The hypotheses of the loop lemma, and its conclusion.\<close>

definition loop_inv :: "(string \<Rightarrow> int) \<Rightarrow> EncRequest \<Rightarrow> int \<Rightarrow> int \<Rightarrow> nat \<Rightarrow> enc_plan \<Rightarrow> EncoderCacheManager \<Rightarrow> bool" where
  "loop_inv emb r c n i p m \<longleftrightarrow> plan_ok emb r p m \<and> pl_num_new_tokens p = n \<and>
     (\<forall>f \<in> set (take i (er_features r)). covered r c (pl_hashes p) m n f)"

definition loop_done :: "(string \<Rightarrow> int) \<Rightarrow> EncRequest \<Rightarrow> int \<Rightarrow> int \<Rightarrow> enc_plan \<Rightarrow> bool" where
  "loop_done emb r c n p \<longleftrightarrow> (\<exists>m. plan_ok emb r p m \<and> 0 \<le> pl_num_new_tokens p \<and> pl_num_new_tokens p \<le> n \<and>
     (\<forall>f \<in> set (er_features r). covered r c (pl_hashes p) m (pl_num_new_tokens p) f))"

lemma loop_inv_next:
  assumes "loop_inv emb r c n i p m" and "i < length (er_features r)" and "keeps m m'" and "plan_ok emb r q m'"
    and "pl_num_new_tokens q = n" and "set (pl_hashes p) \<subseteq> set (pl_hashes q)" and "covered r c (pl_hashes q) m' n (er_features r ! i)"
  shows "loop_inv emb r c n (i + 1) q m'"
proof -
  have "covered r c (pl_hashes q) m' n f" if f: "f \<in> set (take i (er_features r))" for f
  proof -
    have "covered r c (pl_hashes p) m' n f" using f assms(1,3) covered_keeps by (auto simp: loop_inv_def)
    then show ?thesis using assms(6) by (auto simp: covered_def)
  qed
  then show ?thesis using assms(2,4,5,7) by (simp add: loop_inv_def take_Suc_conv_app_nth)
qed

lemma loop_cut:
  assumes "loop_inv emb r c n i p m" and "i < length (er_features r)" and "sorted (map mm_offset (er_features r))"
    and "\<forall>f \<in> set (er_features r). placeholder_ok f" and "keeps m m'" and "enc_ok emb m'"
    and "0 \<le> n'" "n' \<le> n" "n' = 0 \<or> c + n' \<le> mm_offset (er_features r ! i)"
  shows "loop_done emb r c n (p\<lparr>pl_mgr := MmCache m', pl_num_new_tokens := n'\<rparr>)"
proof -
  have "\<forall>f \<in> set (take i (er_features r)). covered r c (pl_hashes p) m' n f"
    using assms(1,5) covered_keeps by (auto simp: loop_inv_def)
  from covered_cut [OF assms(3,4,2) this assms(7-9)] show ?thesis
    using assms(1,5,6,7,8) plan_ok_keeps [of emb r p m m'] by (auto simp: loop_done_def loop_inv_def plan_ok_new)
qed

text \<open>The part of the loop body for an input that is neither planned nor cached.\<close>

lemma plan_miss:
  assumes a: "\<not> ea_is_encoder_decoder a" "ea_shift a = 0" "c = ea_num_computed_tokens a"
    and r: "request_ok emb r" "\<forall>f \<in> set (er_features r). placeholder_ok f" "sorted (map mm_offset (er_features r))"
    and nn: "\<forall>h. 0 \<le> emb h" and new: "0 < n"
    and inv: "loop_inv emb r c n i p m" and i: "i < length (er_features r)" "er_features r ! i = f"
    and miss: "\<not> c + n \<le> mm_offset f" "\<not> mm_offset f + mm_length f \<le> c" "mm_identifier f \<notin> set (pl_hashes p)"
        "mgr_check r i (MmCache m) = Inr (False, MmCache m)" "od_get (ec_cached m) (mm_identifier f) = None"
    and go: "\<And>m' q. keeps m m' \<Longrightarrow> plan_ok emb r q m' \<Longrightarrow> pl_num_new_tokens q = n \<Longrightarrow> set (pl_hashes p) \<subseteq> set (pl_hashes q) \<Longrightarrow>
      covered r c (pl_hashes q) m' n f \<Longrightarrow> \<exists>p'. plan_loop a r fs (i + 1) q = Inr p' \<and> loop_done emb r c n p'"
  shows "\<exists>p'. plan_loop a r (f # fs) i p = Inr p' \<and> loop_done emb r c n p'"
proof -
  have p: "plan_ok emb r p m" "pl_mgr p = MmCache m" "enc_ok emb m" "pl_num_new_tokens p = n"
    using inv by (auto simp: loop_inv_def plan_ok_def)
  have f: "placeholder_ok f" and emb: "get_num_embeds f = emb (mm_identifier f)"
    using r(1,2) i nth_mem unfolding request_ok_def by blast+
  obtain fits m2 where can: "mgr_can_allocate r i (pl_budget p) (pl_num_embeds p) (MmCache m) = Inr (fits, MmCache m2)"
    "enc_ok emb m2" "keeps m m2" "fits \<longrightarrow> emb (mm_identifier f) + pl_num_embeds p \<le> ec_num_free_slots m2"
    using can_allocate_keeps [OF p(3) r(1) i(1) nn] unfolding i(2) by blast
  note cut = loop_cut [OF inv i(1) r(3,2), unfolded i(2)]
  let ?s = "max 0 (c - mm_offset f)" and ?e = "min (mm_length f) (c + n - mm_offset f)"
  have range: "get_embeds_indices_in_range f ?s ?e = Inr (embeds_before f ?s, embeds_before f ?e)"
    using f miss(1,2) new by (intro embeds_in_range) (auto simp: placeholder_ok_def)
  let ?p2 = "p\<lparr>pl_mgr := MmCache m2\<rparr>"
  have p2: "plan_ok emb r ?p2 m2" by (rule plan_ok_keeps [OF p(1) can(3,2)])
  have c2: "od_get (ec_cached m2) (mm_identifier f) = None" using can(3) miss(5) by (simp add: keeps_def)
  define chunk where "chunk \<longleftrightarrow> ea_disable_chunked_mm_input a \<and> c < mm_offset f \<and> c + n < mm_offset f + mm_length f"
  define q1 where "q1 = ?p2\<lparr>pl_hashes := pl_hashes p @ [mm_identifier f], pl_external := pl_external p @ [i],
      pl_num_embeds := pl_num_embeds p + emb (mm_identifier f)\<rparr>"
  define q2 where "q2 = ?p2\<lparr>pl_hashes := pl_hashes p @ [mm_identifier f], pl_inputs := pl_inputs p @ [i],
      pl_num_embeds := pl_num_embeds p + emb (mm_identifier f), pl_budget := pl_budget p - emb (mm_identifier f)\<rparr>"
  have eq: "plan_loop a r (f # fs) i p =
      (if chunk then Inr (p\<lparr>pl_mgr := MmCache m, pl_num_new_tokens := max 0 (mm_offset f - c)\<rparr>)
       else if \<not> fits then Inr (p\<lparr>pl_mgr := MmCache m2, pl_num_new_tokens := (if c < mm_offset f then mm_offset f - c else 0)\<rparr>)
       else if embeds_before f ?e - embeds_before f ?s = 0 then plan_loop a r fs (i + 1) ?p2
       else if ea_has_cache_item a (mm_identifier f) then plan_loop a r fs (i + 1) q1 else plan_loop a r fs (i + 1) q2)"
    using miss(1-4) a p(2,4) can(1) range emb unfolding chunk_def q1_def q2_def by (simp add: Let_def)
  have new_hash: "set (pl_hashes p) \<subseteq> set (pl_hashes q)" "covered r c (pl_hashes q) m2 n f"
    if "pl_hashes q = pl_hashes p @ [mm_identifier f]" for q :: enc_plan using that by (auto simp: covered_def)
  have "\<exists>p'. plan_loop a r fs (i + 1) ?p2 = Inr p' \<and> loop_done emb r c n p'" if "embeds_before f ?e - embeds_before f ?s = 0"
    using that p(4) by (intro go [OF can(3) p2]) (simp_all add: covered_def no_embeds_def)
  moreover have "\<exists>p'. plan_loop a r fs (i + 1) q1 = Inr p' \<and> loop_done emb r c n p'" if fits
    using that plan_ok_add [OF p2 i(1), unfolded i(2), of q1 "planned p" "[]"] miss(3) c2 can(4) p(4)
    by (intro go [OF can(3)] new_hash) (simp_all add: q1_def)
  moreover have "\<exists>p'. plan_loop a r fs (i + 1) q2 = Inr p' \<and> loop_done emb r c n p'" if fits
    using that plan_ok_add [OF p2 i(1), unfolded i(2), of q2 "pl_inputs p" "pl_external p"] miss(3) c2 can(4) p(4)
    by (intro go [OF can(3)] new_hash) (simp_all add: q2_def)
  moreover have "loop_done emb r c n (p\<lparr>pl_mgr := MmCache m, pl_num_new_tokens := max 0 (mm_offset f - c)\<rparr>)"
    using miss(1) new by (intro cut [OF keeps_refl p(3)]) auto
  moreover have "loop_done emb r c n (p\<lparr>pl_mgr := MmCache m2, pl_num_new_tokens := (if c < mm_offset f then mm_offset f - c else 0)\<rparr>)"
    using miss(1) new by (intro cut [OF can(3,2)]) auto
  ultimately show ?thesis unfolding eq by simp
qed

lemma plan_loop_ok:
  assumes a: "\<not> ea_is_encoder_decoder a" "ea_shift a = 0" "c = ea_num_computed_tokens a"
    and r: "request_ok emb r" "\<forall>f \<in> set (er_features r). placeholder_ok f" "sorted (map mm_offset (er_features r))"
    and nn: "\<forall>h. 0 \<le> emb h" and new: "0 < n"
    and inv: "fs = drop i (er_features r)" "i \<le> length (er_features r)" "loop_inv emb r c n i p m"
  shows "\<exists>p'. plan_loop a r fs i p = Inr p' \<and> loop_done emb r c n p'"
  using inv
proof (induction fs arbitrary: i p m)
  case Nil
  then have "take i (er_features r) = er_features r" by simp
  then show ?case using Nil new by (auto simp: loop_done_def loop_inv_def)
next
  case (Cons f fs)
  let ?F = "er_features r" and ?h = "mm_identifier f"
  have "i < length ?F" using Cons.prems(1) by (metis drop_all leI list.distinct(1))
  moreover from this have "?F ! i = f" "fs = drop (i + 1) ?F" using Cons.prems(1) Cons_nth_drop_Suc [of i ?F] by (metis Suc_eq_plus1 list.inject)+
  ultimately have i: "i < length ?F" "?F ! i = f" "fs = drop (i + 1) ?F" .
  have p: "plan_ok emb r p m" "pl_mgr p = MmCache m" "enc_ok emb m" "pl_num_new_tokens p = n"
    using Cons.prems(3) by (auto simp: loop_inv_def plan_ok_def)
  have f: "placeholder_ok f" using r(2) i(1,2) nth_mem by blast
  have emb: "get_num_embeds f = emb ?h" using r(1) i(1,2) nth_mem unfolding request_ok_def by blast
  note cut = loop_cut [OF Cons.prems(3) i(1) r(3,2)]
  have go: "\<exists>p'. plan_loop a r fs (i + 1) q = Inr p' \<and> loop_done emb r c n p'"
    if "keeps m m'" "plan_ok emb r q m'" "pl_num_new_tokens q = n" "set (pl_hashes p) \<subseteq> set (pl_hashes q)"
      "covered r c (pl_hashes q) m' n f" for q m'
    using Cons.IH [OF i(3) _ loop_inv_next [OF Cons.prems(3) i(1) that(1-4)]] i that(5) by simp
  have same: "p\<lparr>pl_mgr := MmCache m, pl_num_new_tokens := n\<rparr> = p" using p(2,4) by (cases p) simp
  consider (later) "c + n \<le> mm_offset f" | (computed) "\<not> c + n \<le> mm_offset f" "mm_offset f + mm_length f \<le> c"
    | (planned) "\<not> c + n \<le> mm_offset f" "\<not> mm_offset f + mm_length f \<le> c" "?h \<in> set (pl_hashes p)"
    | (hit) m' s where "\<not> c + n \<le> mm_offset f" "\<not> mm_offset f + mm_length f \<le> c" "?h \<notin> set (pl_hashes p)"
        "mgr_check r i (MmCache m) = Inr (True, MmCache m')" "enc_ok emb m'" "keeps m m'" "od_get (ec_cached m') ?h = Some s" "er_id r \<in> s"
    | (miss) "\<not> c + n \<le> mm_offset f" "\<not> mm_offset f + mm_length f \<le> c" "?h \<notin> set (pl_hashes p)"
        "mgr_check r i (MmCache m) = Inr (False, MmCache m)" "od_get (ec_cached m) ?h = None"
    using check_keeps [OF p(3) i(1)] unfolding i(2) by (elim disjE exE conjE) blast+
  then show ?case
  proof cases
    case later
    then have "loop_done emb r c n p" using cut [OF keeps_refl p(3), of n] new unfolding same i(2) by simp
    then show ?thesis using later a p by simp
  next
    case computed
    then show ?thesis using go [OF keeps_refl p(1,4)] a p by (simp add: covered_def)
  next
    case planned
    then show ?thesis using go [OF keeps_refl p(1,4)] a p by (simp add: covered_def)
  next
    case hit
    then show ?thesis using go [OF hit(6) plan_ok_keeps [OF p(1) hit(6,5)]] a p by (auto simp: covered_def)
  next
    case miss
    show ?thesis by (rule plan_miss [OF a r nn new Cons.prems(3) i(1,2) miss go])
  qed
qed

section \<open>Allocation and gathering\<close>

lemma allocate_list_ok:
  assumes m: "enc_ok emb m" and r: "request_ok emb r" and nn: "\<forall>h. 0 \<le> emb h"
    and jl: "\<forall>i \<in> set js. i < length (er_features r) \<and> od_get (ec_cached m) (hash_of r i) = None" "distinct (map (hash_of r) js)"
      "sum_list (map (emb \<circ> hash_of r) js) \<le> ec_num_free_slots m"
  shows "\<exists>m'. res_fold (mgr_allocate r) js (MmCache m) = Inr (MmCache m') \<and> enc_ok emb m' \<and>
    (\<forall>h. od_get (ec_cached m') h = (if h \<in> hash_of r ` set js then Some {er_id r} else od_get (ec_cached m) h))"
  using m jl
proof (induction js arbitrary: m)
  case (Cons i js)
  have nonneg: "0 \<le> sum_list (map (emb \<circ> hash_of r) js)" using nn by (intro sum_list_nonneg) auto
  have i: "i < length (er_features r)" "od_get (ec_cached m) (hash_of r i) = None" "emb (hash_of r i) \<le> ec_num_free_slots m"
    using Cons.prems nonneg by (auto simp: comp_def)
  obtain m1 where m1: "ec_allocate r i m = Inr m1" "enc_ok emb m1" "ec_num_free_slots m1 = ec_num_free_slots m - emb (hash_of r i)"
    "\<forall>h. od_get (ec_cached m1) h = (if h = hash_of r i then Some {er_id r} else od_get (ec_cached m) h)"
    using ec_allocate_ok [OF Cons.prems(1) r i(1) nn refl i(2,3)] by blast
  have "\<forall>j \<in> set js. j < length (er_features r) \<and> od_get (ec_cached m1) (hash_of r j) = None"
    using Cons.prems(2,3) m1(4) by (auto simp: image_iff)
  from Cons.IH [OF m1(2) this] Cons.prems(3,4) m1(3) obtain m' where
    "res_fold (mgr_allocate r) js (MmCache m1) = Inr (MmCache m')" "enc_ok emb m'"
    "\<forall>h. od_get (ec_cached m') h = (if h \<in> hash_of r ` set js then Some {er_id r} else od_get (ec_cached m1) h)" by auto
  then show ?case using m1(1,4) by (auto simp: mgr_allocate.simps)
qed simp

lemma gather_ok:
  assumes "\<forall>f \<in> set fs. placeholder_ok f" and "0 < n"
    and "\<forall>f \<in> set fs. mm_offset f < c + n \<and> c < mm_offset f + mm_length f \<longrightarrow> cached (mm_identifier f) \<or> no_embeds f c n"
  shows "\<exists>xs. gather_loop cached c n fs = Inr xs"
  using assms(1,3)
proof (induction fs)
  case (Cons f fs)
  from Cons.IH Cons.prems obtain xs where xs: "gather_loop cached c n fs = Inr xs" by auto
  show ?case
  proof (cases "mm_offset f < c + n \<and> c < mm_offset f + mm_length f")
    case True
    let ?s = "max (c - mm_offset f) 0" and ?e = "min (c - mm_offset f + n) (mm_length f)"
    have f: "placeholder_ok f" using Cons.prems(1) by simp
    then have lt: "?s < ?e" using True assms(2) by (auto simp: placeholder_ok_def)
    have range: "get_embeds_indices_in_range f ?s ?e = Inr (embeds_before f ?s, embeds_before f ?e)"
      using f lt by (intro embeds_in_range) auto
    have "?s = max 0 (c - mm_offset f)" "?e = min (mm_length f) (c + n - mm_offset f)" by auto
    then have "cached (mm_identifier f) \<or> embeds_before f ?s = embeds_before f ?e"
      using Cons.prems(2) True by (auto simp: no_embeds_def)
    then show ?thesis using True lt range xs by (auto simp: Let_def)
  qed (use xs in \<open>auto simp: Let_def\<close>)
qed simp

text \<open>Requests preempted in between give up their references.\<close>

definition preempt :: "(nat list \<times> EncRequest) list \<Rightarrow> EncoderCacheManager \<Rightarrow> EncoderCacheManager res" where
  "preempt qs m = res_fold (\<lambda>(js, q). ec_free js q) qs m"

lemma preempt_ok:
  assumes "enc_ok emb m" and "\<forall>(js, q) \<in> set qs. request_ok emb q \<and> (\<forall>i \<in> set js. i < length (er_features q))"
  shows "\<exists>m'. preempt qs m = Inr m' \<and> enc_ok emb m' \<and> ec_num_free_slots m' = ec_num_free_slots m \<and>
    (\<forall>h. od_get (ec_cached m') h = None \<longleftrightarrow> od_get (ec_cached m) h = None)"
  using assms
proof (induction qs arbitrary: m)
  case (Cons x qs)
  obtain js q where x: "x = (js, q)" by (cases x)
  obtain m1 where m1: "ec_free js q m = Inr m1" "enc_ok emb m1" "ec_num_free_slots m1 = ec_num_free_slots m"
    "\<forall>h. od_get (ec_cached m1) h = None \<longleftrightarrow> od_get (ec_cached m) h = None"
    using ec_free_ok [OF Cons.prems(1), of q js] Cons.prems(2) x by auto
  from Cons.IH [OF m1(2)] Cons.prems(2) m1 show ?case by (auto simp: preempt_def x)
qed (simp add: preempt_def)


definition demo_args :: "int \<Rightarrow> enc_args" where
  "demo_args shift = \<lparr>ea_is_encoder_decoder = False, ea_disable_chunked_mm_input = False, ea_has_cache_item = (\<lambda>_. False),
     ea_num_computed_tokens = 0, ea_shift = shift\<rparr>"

definition demo_plan :: "nat list \<Rightarrow> string list \<Rightarrow> int \<Rightarrow> int \<Rightarrow> int \<Rightarrow> EncoderCacheManager \<Rightarrow> enc_plan" where
  "demo_plan is hs k n b m = \<lparr>pl_inputs = is, pl_external = [], pl_hashes = hs, pl_num_embeds = k, pl_num_new_tokens = n,
     pl_budget = b, pl_mgr = MmCache m\<rparr>"

lemmas demo_sched_simps = try_schedule_encoder_inputs_def demo_args_def demo_plan_def mgr_check.simps mgr_can_allocate.simps
  mgr_allocate.simps check_and_update_cache_def can_allocate_def ec_allocate_def allocate_planned_def gather_mm_embeddings_def
  get_embeds_indices_in_range_def od_del_def Let_def demo_enc_simps


text \<open>
  C37. With speculative drafting (a shift of one token) the drafter can miss an encoder output. From an
  empty cache with room for everything, a request with inputs at tokens 0 and 4 is scheduled for its
  first four tokens: the second input counts as overlapping the shifted range but has no embedding in
  the unshifted one and is skipped, and gathering for the drafter, which reads token 4, fails.
\<close>

theorem drafter_encoder_cache_miss:
  "\<exists>m p m3. enc_run (\<lambda>_. 2) 10 m \<and> request_ok (\<lambda>_. 2) demo_request \<and>
     try_schedule_encoder_inputs (demo_args 1) demo_request 4 10 (MmCache m) = Inr p \<and> pl_num_new_tokens p = 4 \<and>
     allocate_planned demo_request (pl_inputs p) (pl_external p) (pl_mgr p) = Inr (MmCache m3) \<and>
     gather_mm_embeddings (\<lambda>h. od_get (ec_cached m3) h \<noteq> None) demo_request 0 4 1 = Inl AssertionError"
proof (intro exI conjI)
  let ?m3 = "\<lparr>ec_size = 10, ec_num_free_slots = 8, ec_num_freeable_slots = 8, ec_cached = [(''a'', {''r''})], ec_freeable = [], ec_freed = []\<rparr>"
  show "enc_run (\<lambda>_. 2) 10 (make_encoder_cache 10)" by (rule enc_run.ec_start)
  show "request_ok (\<lambda>_. 2) demo_request" by (rule demo_request_ok)
  show "try_schedule_encoder_inputs (demo_args 1) demo_request 4 10 (MmCache (make_encoder_cache 10)) =
      Inr (demo_plan [0] [''a''] 2 4 8 (make_encoder_cache 10))" by (simp add: demo_sched_simps make_encoder_cache_def)
  show "pl_num_new_tokens (demo_plan [0] [''a''] 2 4 8 (make_encoder_cache 10)) = 4" by (simp add: demo_plan_def)
  show "allocate_planned demo_request (pl_inputs (demo_plan [0] [''a''] 2 4 8 (make_encoder_cache 10)))
      (pl_external (demo_plan [0] [''a''] 2 4 8 (make_encoder_cache 10))) (pl_mgr (demo_plan [0] [''a''] 2 4 8 (make_encoder_cache 10))) =
      Inr (MmCache ?m3)" by (simp add: demo_sched_simps make_encoder_cache_def)
  show "gather_mm_embeddings (\<lambda>h. od_get (ec_cached ?m3) h \<noteq> None) demo_request 0 4 1 = Inl AssertionError"
    by (simp add: demo_sched_simps)
qed

end
