(* ===== verification/Json.thy ===== *)
theory Json
  imports Ordered_Dict
begin

text \<open>
  Values the Python sources get from \<^verbatim>\<open>json.loads\<close>: dynamically typed, with the language's
  truthiness, equality and comparison across numeric types. A finite Python float is an exact
  dyadic number \<open>m * 2 ^ e\<close>; comparison with an integer is exact, as in CPython.
\<close>

datatype pyfloat = Dyadic int int | PosInf | NegInf | NaN

datatype json =
    JNull
  | JBool bool
  | JInt int
  | JFloat pyfloat
  | JStr string
  | JArr "json list"
  | JObj "(string \<times> json) list"

type_synonym obj = "(string, json) odict"

section \<open>Numbers\<close>

fun pf_lt :: "pyfloat \<Rightarrow> pyfloat \<Rightarrow> bool" where
  "pf_lt (Dyadic a e) (Dyadic b f) =
     (if e \<le> f then a < b * 2 ^ nat (f - e) else a * 2 ^ nat (e - f) < b)"
| "pf_lt NaN _ = False"
| "pf_lt _ NaN = False"
| "pf_lt NegInf y = (y \<noteq> NegInf)"
| "pf_lt _ NegInf = False"
| "pf_lt PosInf _ = False"
| "pf_lt _ PosInf = True"

fun pf_eq :: "pyfloat \<Rightarrow> pyfloat \<Rightarrow> bool" where
  "pf_eq (Dyadic a e) (Dyadic b f) =
     (if e \<le> f then a = b * 2 ^ nat (f - e) else a * 2 ^ nat (e - f) = b)"
| "pf_eq PosInf PosInf = True"
| "pf_eq NegInf NegInf = True"
| "pf_eq _ _ = False"

fun num_of :: "json \<Rightarrow> pyfloat option" where
  "num_of (JBool b) = Some (Dyadic (if b then 1 else 0) 0)"
| "num_of (JInt n) = Some (Dyadic n 0)"
| "num_of (JFloat x) = Some x"
| "num_of _ = None"

section \<open>Truth, equality, order\<close>

fun truthy :: "json \<Rightarrow> bool" where
  "truthy JNull = False"
| "truthy (JBool b) = b"
| "truthy (JInt n) = (n \<noteq> 0)"
| "truthy (JFloat x) = (\<not> pf_eq x (Dyadic 0 0))"
| "truthy (JStr s) = (s \<noteq> [])"
| "truthy (JArr xs) = (xs \<noteq> [])"
| "truthy (JObj d) = (d \<noteq> [])"

text \<open>Python's \<^verbatim>\<open>==\<close>: numbers by value across types, lists pointwise, dicts as mappings.\<close>

fun py_eq :: "json \<Rightarrow> json \<Rightarrow> bool" where
  "py_eq (JArr xs) (JArr ys) = list_all2 py_eq xs ys"
| "py_eq (JObj d) (JObj d') =
     (length d = length d' \<and>
      list_all (\<lambda>(k, v). case od_get d' k of None \<Rightarrow> False | Some w \<Rightarrow> py_eq v w) d)"
| "py_eq JNull JNull = True"
| "py_eq (JStr s) (JStr t) = (s = t)"
| "py_eq a b = (case (num_of a, num_of b) of (Some x, Some y) \<Rightarrow> pf_eq x y | _ \<Rightarrow> False)"

text \<open>Python's \<^verbatim>\<open><\<close> where the right operand is a number.\<close>

definition py_lt :: "json \<Rightarrow> json \<Rightarrow> bool res" where
  "py_lt a b = (case (num_of a, num_of b) of (Some x, Some y) \<Rightarrow> Inr (pf_lt x y) | _ \<Rightarrow> Inl TypeError)"

section \<open>Access\<close>

fun as_obj :: "json \<Rightarrow> obj res" where
  "as_obj (JObj d) = Inr d"
| "as_obj _ = Inl AttributeError"

lemma as_obj_Inr [simp]: "as_obj v = Inr d \<longleftrightarrow> v = JObj d"
  by (cases v) auto

text \<open>\<^verbatim>\<open>d.get(key, default)\<close> on a dict.\<close>

definition jget_or :: "json \<Rightarrow> obj \<Rightarrow> string \<Rightarrow> json" where
  "jget_or dflt d k = (case od_get d k of None \<Rightarrow> dflt | Some v \<Rightarrow> v)"

abbreviation jget :: "obj \<Rightarrow> string \<Rightarrow> json" where
  "jget \<equiv> jget_or JNull"

text \<open>\<^verbatim>\<open>d[key]\<close> on a dict.\<close>

definition jitem :: "obj \<Rightarrow> string \<Rightarrow> json res" where
  "jitem d k = (case od_get d k of None \<Rightarrow> Inl KeyError | Some v \<Rightarrow> Inr v)"

fun jlen :: "json \<Rightarrow> nat res" where
  "jlen (JStr s) = Inr (length s)"
| "jlen (JArr xs) = Inr (length xs)"
| "jlen (JObj d) = Inr (length d)"
| "jlen _ = Inl TypeError"

text \<open>\<^verbatim>\<open>v[0]\<close>: a JSON object has string keys only, so the subscript 0 is a missing key there.\<close>

fun jfirst :: "json \<Rightarrow> json res" where
  "jfirst (JArr (x # _)) = Inr x"
| "jfirst (JArr []) = Inl IndexError"
| "jfirst (JStr (c # _)) = Inr (JStr [c])"
| "jfirst (JStr []) = Inl IndexError"
| "jfirst (JObj _) = Inl KeyError"
| "jfirst _ = Inl TypeError"

text \<open>\<^verbatim>\<open>type(v) is int\<close> and \<^verbatim>\<open>isinstance(v, list)\<close>, with the value.\<close>

fun jint :: "json \<Rightarrow> int option" where
  "jint (JInt n) = Some n"
| "jint _ = None"

fun jarr :: "json \<Rightarrow> json list option" where
  "jarr (JArr xs) = Some xs"
| "jarr _ = None"

lemma jint_Some [simp]: "jint v = Some n \<longleftrightarrow> v = JInt n"
  by (cases v) auto

lemma jarr_Some [simp]: "jarr v = Some xs \<longleftrightarrow> v = JArr xs"
  by (cases v) auto

definition is_int :: "json \<Rightarrow> bool" where
  "is_int v = (case v of JInt _ \<Rightarrow> True | _ \<Rightarrow> False)"

definition is_bool :: "json \<Rightarrow> bool" where
  "is_bool v = (case v of JBool _ \<Rightarrow> True | _ \<Rightarrow> False)"

lemma is_int_iff: "is_int v \<longleftrightarrow> (\<exists>n. v = JInt n)"
  by (auto simp: is_int_def split: json.splits)

lemma is_bool_iff: "is_bool v \<longleftrightarrow> (\<exists>b. v = JBool b)"
  by (auto simp: is_bool_def split: json.splits)

lemma py_eq_int [simp]: "py_eq (JInt a) (JInt b) \<longleftrightarrow> a = b"
  by simp

lemma py_eq_ints: "py_eq (JArr (map JInt xs)) (JArr (map JInt ys)) \<longleftrightarrow> xs = ys"
  by (simp add: list_all2_map1 list_all2_map2 list_all2_eq)

text \<open>A value equal to an integer is that integer, a Boolean or a float of the same value.\<close>

lemma py_eq_JInt_right:
  "py_eq v (JInt n) \<longleftrightarrow> (case num_of v of Some x \<Rightarrow> pf_eq x (Dyadic n 0) | None \<Rightarrow> False)"
  by (cases v) auto

end
