(* ===== verification/Base64.thy ===== *)
theory Base64
  imports Json
begin

text \<open>
  The part of Python's \<^verbatim>\<open>base64\<close> module the serving path uses: \<^verbatim>\<open>b64encode\<close> on the prefiller and the
  lenient \<^verbatim>\<open>b64decode\<close> on the proxy, which skips characters outside the alphabet and stops at the
  padding. Decoding an encoded byte string gives it back.
\<close>

definition b64_digit :: "nat \<Rightarrow> char" where
  "b64_digit n = char_of (if n < 26 then n + 65 else if n < 52 then n + 71 else if n < 62 then n - 4
     else if n = 62 then 43 else (47 :: nat))"

definition b64_value :: "char \<Rightarrow> nat option" where
  "b64_value c =
     (let n = (of_char c :: nat) in
      if 65 \<le> n \<and> n \<le> 90 then Some (n - 65)
      else if 97 \<le> n \<and> n \<le> 122 then Some (n - 71)
      else if 48 \<le> n \<and> n \<le> 57 then Some (n + 4)
      else if n = 43 then Some 62
      else if n = 47 then Some 63
      else None)"

fun b64encode :: "bytes \<Rightarrow> string" where
  "b64encode [] = []"
| "b64encode [a] = [b64_digit (unat a div 4), b64_digit (unat a mod 4 * 16), CHR ''='', CHR ''='']"
| "b64encode [a, b] =
     [b64_digit (unat a div 4), b64_digit (unat a mod 4 * 16 + unat b div 16), b64_digit (unat b mod 16 * 4), CHR ''='']"
| "b64encode (a # b # c # bs) =
     [b64_digit (unat a div 4), b64_digit (unat a mod 4 * 16 + unat b div 16),
      b64_digit (unat b mod 16 * 4 + unat c div 64), b64_digit (unat c mod 64)] @ b64encode bs"

text \<open>
  \<^verbatim>\<open>binascii.a2b_base64\<close>: the position in the current group of four, the bits left over from its last
  character, and the padding characters seen in a row.
\<close>

fun a2b_base64 :: "string \<Rightarrow> nat \<Rightarrow> nat \<Rightarrow> nat \<Rightarrow> bytes res" where
  "a2b_base64 [] q left pads = (if q = 0 then Inr [] else Inl (ValueError ''Incorrect padding''))"
| "a2b_base64 (c # cs) q left pads =
     (if c = CHR ''='' then
        (if 2 \<le> q \<and> 4 \<le> q + Suc pads then Inr []
         else a2b_base64 cs q left (if 2 \<le> q then Suc pads else pads))
      else case b64_value c of
        None \<Rightarrow> a2b_base64 cs q left pads
      | Some v \<Rightarrow>
          if q = 0 then a2b_base64 cs 1 v 0
          else if q = 1 then
            res_bind (a2b_base64 cs 2 (v mod 16) 0) (\<lambda>r. Inr (word_of_nat (left * 4 + v div 16) # r))
          else if q = 2 then
            res_bind (a2b_base64 cs 3 (v mod 4) 0) (\<lambda>r. Inr (word_of_nat (left * 16 + v div 4) # r))
          else res_bind (a2b_base64 cs 0 0 0) (\<lambda>r. Inr (word_of_nat (left * 64 + v) # r)))"

definition b64decode :: "json \<Rightarrow> bytes res" where
  "b64decode v =
     (case v of
        JStr s \<Rightarrow>
          if list_ex (\<lambda>c. 128 \<le> (of_char c :: nat)) s
          then Inl (ValueError ''string argument should contain only ASCII characters'')
          else a2b_base64 s 0 0 0
      | _ \<Rightarrow> Inl TypeError)"

section \<open>Round trip\<close>

lemma b64_value_digit [simp]: "n < 64 \<Longrightarrow> b64_value (b64_digit n) = Some n"
  by (auto simp: b64_digit_def b64_value_def Let_def of_char_of)

lemma b64_digit_ascii: "n < 64 \<Longrightarrow> (of_char (b64_digit n) :: nat) < 128 \<and> b64_digit n \<noteq> CHR ''=''"
proof -
  assume n: "n < 64"
  then have "n = 62 \<or> n = 63 \<or> n < 62" by linarith
  then have "(of_char (b64_digit n) :: nat) < 128 \<and> (of_char (b64_digit n) :: nat) \<noteq> 61"
    by (auto simp: b64_digit_def of_char_of)
  then show ?thesis by auto
qed

lemma byte_less: "unat (a :: 8 word) < 256"
  using unsigned_less [of a] by simp

lemma byte_digits [simp]:
  fixes a b :: "8 word"
  shows "unat a div 4 < 64" "unat a mod 4 * 16 + unat b div 16 < 64" "unat a mod 16 * 4 + unat b div 64 < 64"
    "unat a mod 64 < 64" "unat a mod 4 * 16 < 64" "unat a mod 16 * 4 < 64"
  using byte_less [of a] byte_less [of b] by auto

lemma byte_parts [simp]:
  fixes a :: "8 word"
  shows "unat a div 16 div 16 = 0" "unat a div 16 mod 16 = unat a div 16" "unat a div 64 div 4 = 0"
    "unat a div 64 mod 4 = unat a div 64"
  using byte_less [of a] by auto

lemma a2b_encode: "a2b_base64 (b64encode bs) 0 l p = Inr bs"
  by (induction bs arbitrary: l p rule: b64encode.induct)
    (simp_all add: b64_digit_ascii res_simps del: of_nat_add of_nat_mult)

lemma encode_ascii: "c \<in> set (b64encode bs) \<Longrightarrow> (of_char c :: nat) < 128"
  by (induction bs rule: b64encode.induct) (auto simp: b64_digit_ascii)

lemma b64decode_encode: "b64decode (JStr (b64encode bs)) = Inr bs"
  using encode_ascii [of _ bs] by (auto simp: b64decode_def a2b_encode list_ex_iff not_le)

lemma b64encode_Nil [simp]: "b64encode bs = [] \<longleftrightarrow> bs = []"
  by (cases bs rule: b64encode.cases) auto

end
