(* ===== verification/Nixl_Sched.thy ===== *)
theory Nixl_Sched
  imports Base64
begin

unbundle bit_operations_syntax

text \<open>
  The scheduler side of the NIXL key-value transfer connector
  (\<^verbatim>\<open>distributed/kv_transfer/kv_connector/v1/nixl/scheduler.py\<close> and the metadata classes of
  \<^verbatim>\<open>nixl/metadata.py\<close>): how many tokens a request can pull from a remote node, what an allocation
  queues, the metadata of a step, and what the end of a request hands over. The connector's dicts
  hold references to request objects that the scheduler goes on mutating, so requests live in a
  store and the dicts hold their addresses. A clock reading is an argument.
\<close>

section \<open>Requests and configuration\<close>

datatype req_status =
    WAITING
  | WAITING_FOR_STRUCTURED_OUTPUT_GRAMMAR
  | WAITING_FOR_REMOTE_KVS
  | WAITING_FOR_STREAMING_REQ
  | RUNNING
  | PREEMPTED
  | FINISHED_STOPPED
  | FINISHED_LENGTH_CAPPED
  | FINISHED_ABORTED
  | FINISHED_IGNORED
  | FINISHED_ERROR
  | FINISHED_REPETITION

type_synonym block_ids = "int list list"

text \<open>The fields of a request the connector and the end-of-request path use.\<close>

record nreq =
  request_id :: string
  kv_transfer_params :: "obj option"
  prompt_token_ids :: "int list option"
  prompt_embeds :: "nat option"
  all_token_ids :: "int list"
  output_token_ids :: "int list"
  num_prompt_tokens :: int
  max_tokens :: int
  num_computed_tokens :: int
  status :: req_status
  stop_reason :: json
  eldr_signature :: "bytes option"

type_synonym store = "nat \<Rightarrow> nreq"

text \<open>The kinds of cache specification the connector tells apart, a subclass counting as its base class.\<close>

datatype kv_spec =
    FullAttentionSpec int
  | SlidingWindowSpec int int
  | MambaSpec int
  | OtherSpec int

record nixl_args =
  a_block_size :: int
  a_engine_id :: string
  a_host :: string
  a_port :: int
  a_dp_index :: int
  a_transfer_config :: bool
  a_device_type :: string
  a_buffer_device :: string
  a_disable_hybrid :: bool
  a_groups :: "kv_spec list"
  a_recompute_threshold :: int
  a_bidirectional :: bool
  a_tp_size :: int

record 't nixl =
  block_size :: int
  engine_id :: string
  side_channel_host :: string
  side_channel_port :: int
  use_host_buffer :: bool
  is_hma_required :: bool
  has_mamba :: bool
  blocks_per_sw :: "int list"
  kv_recompute_threshold :: int
  bidirectional :: bool
  tp_size :: int
  need_recv :: "(string, nat \<times> block_ids) odict"
  need_save :: "(string, nat) odict"
  need_send :: "(string, 't) odict"
  in_batch :: "string set"
  not_processed :: "string set"

fun is_full_attention :: "kv_spec \<Rightarrow> bool" where
  "is_full_attention (FullAttentionSpec _) = True"
| "is_full_attention _ = False"

fun is_mamba :: "kv_spec \<Rightarrow> bool" where
  "is_mamba (MambaSpec _) = True"
| "is_mamba _ = False"

fun sw_tokens :: "int \<Rightarrow> kv_spec \<Rightarrow> int \<times> int" where
  "sw_tokens bs (SlidingWindowSpec b w) = (w, b)"
| "sw_tokens bs _ = (0, bs)"

text \<open>\<^verbatim>\<open>cdiv\<close> is a negated floor division by the negated divisor.\<close>

definition make_nixl :: "nixl_args \<Rightarrow> 't nixl res" where
  "make_nixl a =
     (if \<not> a_transfer_config a then Inl AssertionError
      else Inr \<lparr>block_size = a_block_size a, engine_id = a_engine_id a, side_channel_host = a_host a,
        side_channel_port = a_port a + a_dp_index a,
        use_host_buffer = (if a_device_type a = ''cpu'' then False else a_buffer_device a = ''cpu''),
        is_hma_required = (\<not> a_disable_hybrid a \<and> list_ex (\<lambda>g. \<not> is_full_attention g) (a_groups a)),
        has_mamba = list_ex is_mamba (a_groups a),
        blocks_per_sw = map (\<lambda>(n, b). if n \<noteq> 0 then - (n div - b) + 1 else 0) (map (sw_tokens (a_block_size a)) (a_groups a)),
        kv_recompute_threshold = a_recompute_threshold a, bidirectional = a_bidirectional a, tp_size = a_tp_size a,
        need_recv = [], need_save = [], need_send = [], in_batch = {}, not_processed = {}\<rparr>)"

definition get_sw_clipped_blocks :: "'t nixl \<Rightarrow> block_ids \<Rightarrow> block_ids res" where
  "get_sw_clipped_blocks n ids =
     (if ids = [] \<or> \<not> is_hma_required n then Inr ids
      else if length ids \<noteq> length (blocks_per_sw n) then Inl AssertionError
      else Inr (map2 (\<lambda>blocks k. if 0 < k then drop (length blocks - nat k) blocks else blocks) ids (blocks_per_sw n)))"

section \<open>Matching remote tokens\<close>

definition mamba_prefill_token_count :: "'t nixl \<Rightarrow> int \<Rightarrow> int" where
  "mamba_prefill_token_count n k = (if has_mamba n \<and> 1 < k then k - 1 else k)"

definition truncate_mamba_request_for_prefill :: "nreq \<Rightarrow> nreq res" where
  "truncate_mamba_request_for_prefill r =
     (case kv_transfer_params r of
        None \<Rightarrow> Inr r
      | Some params \<Rightarrow>
          if truthy (jget params ''_p_side_truncated'') \<or> \<not> 1 < num_prompt_tokens r then Inr r
          else
            let finish = (\<lambda>r'. if all_token_ids r' = [] then Inl IndexError
                  else Inr (r'\<lparr>all_token_ids := butlast (all_token_ids r'), num_prompt_tokens := num_prompt_tokens r' - 1,
                         max_tokens := 1, kv_transfer_params := Some (od_set ''_p_side_truncated'' (JBool True) params)\<rparr>))
            in case prompt_token_ids r of
                 Some ts \<Rightarrow> if ts = [] then Inl IndexError else finish (r\<lparr>prompt_token_ids := Some (butlast ts)\<rparr>)
               | None \<Rightarrow>
                   (case prompt_embeds r of
                      Some k \<Rightarrow> finish (r\<lparr>prompt_embeds := Some (k - 1)\<rparr>)
                    | None \<Rightarrow> Inr r))"

definition remote_keys :: "string list" where
  "remote_keys = [''remote_engine_id'', ''remote_request_id'', ''remote_host'', ''remote_port'']"

definition has_remote :: "obj \<Rightarrow> bool" where
  "has_remote params = list_all (\<lambda>p. p \<in> set (od_keys params)) remote_keys"

text \<open>
  The counts are integers: a peer's \<^verbatim>\<open>remote_num_tokens\<close> of another type is treated as the type error
  Python raises for a non-number.
\<close>

definition get_num_new_matched_tokens :: "'t nixl \<Rightarrow> nreq \<Rightarrow> int \<Rightarrow> ((int \<times> bool) \<times> nreq) res" where
  "get_num_new_matched_tokens n r computed =
     (case kv_transfer_params r of
        None \<Rightarrow> Inr ((0, False), r)
      | Some params \<Rightarrow>
          let toks = (case prompt_token_ids r of None \<Rightarrow> [] | Some ts \<Rightarrow> ts);
              count = mamba_prefill_token_count n (int (length toks)) - computed
          in if truthy (jget params ''do_remote_prefill'') \<and> 0 < count then Inr ((count, True), r)
             else res_bind (if truthy (jget params ''do_remote_decode'') \<and> has_mamba n
                            then truncate_mamba_request_for_prefill r else Inr r) (\<lambda>r'.
               if truthy (jget params ''do_remote_decode'') \<and> truthy (jget params ''remote_block_ids'') \<and> has_remote params
               then
                 let v = jget params ''remote_num_tokens'' in
                 (case (if truthy v then jint v else Some 0) of
                    None \<Rightarrow> Inl TypeError
                  | Some m \<Rightarrow>
                      let count = min m (num_prompt_tokens r') - computed in
                      if 0 < count then
                        (if 0 < kv_recompute_threshold n \<and> count < kv_recompute_threshold n
                         then Inr ((0, False), r') else Inr ((count, True), r'))
                      else Inr ((0, False), r'))
               else Inr ((0, False), r')))"

section \<open>Allocation\<close>

text \<open>\<^verbatim>\<open>blocks.get_unhashed_block_ids_all_groups()\<close> is the argument \<^verbatim>\<open>unhashed\<close>.\<close>

definition set_params :: "nat \<Rightarrow> obj \<Rightarrow> store \<Rightarrow> store" where
  "set_params i params h = h(i := (h i)\<lparr>kv_transfer_params := Some params\<rparr>)"

definition pulls_remote :: "'t nixl \<Rightarrow> obj \<Rightarrow> bool" where
  "pulls_remote n params \<longleftrightarrow>
     \<not> (use_host_buffer n \<and> truthy (jget params ''do_remote_decode'')) \<and>
     (truthy (jget params ''do_remote_prefill'') \<or>
      truthy (jget params ''do_remote_decode'') \<and> bidirectional n \<and> \<not> truthy (jget params ''_remote_blocks_processed''))"

definition update_state_after_alloc ::
  "nat \<Rightarrow> block_ids \<Rightarrow> int \<Rightarrow> store \<Rightarrow> 't nixl \<Rightarrow> (store \<times> 't nixl) res" where
  "update_state_after_alloc i unhashed num_external h n =
     (case kv_transfer_params (h i) of
        None \<Rightarrow> Inr (h, n)
      | Some params \<Rightarrow>
          if params = [] then Inr (h, n)
          else
            let decode = truthy (jget params ''do_remote_decode'');
                prefill = truthy (jget params ''do_remote_prefill'');
                rid = request_id (h i);
                n1 = (if decode \<or> prefill \<and> bidirectional n then n\<lparr>in_batch := insert rid (in_batch n)\<rparr> else n)
            in if use_host_buffer n \<and> decode then Inr (h, n1\<lparr>need_save := od_set rid i (need_save n1)\<rparr>)
               else if pulls_remote n params then
                 res_bind
                   (if truthy (jget params ''remote_block_ids'') then
                      (if has_remote params then
                         res_bind (get_sw_clipped_blocks n (if 0 < num_external then unhashed else [])) (\<lambda>ids.
                           Inr (n1\<lparr>need_recv := od_set rid (i, ids) (need_recv n1)\<rparr>))
                       else Inr n1)
                    else if num_external \<noteq> 0 then Inl AssertionError else Inr n1)
                   (\<lambda>n2. Inr (set_params i (od_set ''_remote_blocks_processed'' (JBool True)
                                (od_set ''do_remote_prefill'' (JBool False) params)) h, n2))
               else Inr (h, n1))"

section \<open>Metadata of a step\<close>

record RemoteMeta =
  rm_block_ids :: json
  rm_host :: json
  rm_port :: json
  rm_engine_id :: json
  rm_request_id :: json

record ReqMeta =
  local_block_ids :: block_ids
  local_physical_block_ids :: block_ids
  meta_tp_size :: json
  remote :: "RemoteMeta option"

record 't NixlConnectorMetadata =
  reqs_to_recv :: "(string, ReqMeta) odict"
  reqs_to_save :: "(string, ReqMeta) odict"
  reqs_to_send :: "(string, 't) odict"
  reqs_in_batch :: "string set"
  reqs_not_processed :: "string set"

definition add_new_req :: "block_ids \<Rightarrow> obj \<Rightarrow> ReqMeta" where
  "add_new_req ids params =
     \<lparr>local_block_ids = ids, local_physical_block_ids = ids, meta_tp_size = jget_or (JInt 1) params ''tp_size'', remote = None\<rparr>"

definition remote_meta :: "obj \<Rightarrow> RemoteMeta res" where
  "remote_meta params =
     res_bind (jitem params ''remote_block_ids'') (\<lambda>b.
     res_bind (jitem params ''remote_engine_id'') (\<lambda>e.
     res_bind (jitem params ''remote_request_id'') (\<lambda>r.
     res_bind (jitem params ''remote_host'') (\<lambda>host.
     res_bind (jitem params ''remote_port'') (\<lambda>port.
       Inr \<lparr>rm_block_ids = b, rm_host = host, rm_port = port, rm_engine_id = e, rm_request_id = r\<rparr>)))))"

definition add_new_req_to_recv :: "string \<Rightarrow> block_ids \<Rightarrow> obj \<Rightarrow> (string, ReqMeta) odict \<Rightarrow> (string, ReqMeta) odict res" where
  "add_new_req_to_recv rid ids params d =
     res_bind (remote_meta params) (\<lambda>m. Inr (od_set rid ((add_new_req ids params)\<lparr>remote := Some m\<rparr>) d))"

definition add_new_req_to_save :: "string \<Rightarrow> block_ids \<Rightarrow> obj \<Rightarrow> (string, ReqMeta) odict \<Rightarrow> (string, ReqMeta) odict" where
  "add_new_req_to_save rid ids params d = od_set rid (add_new_req ids params) d"

record sched_out =
  scheduled_new_reqs :: "(string \<times> block_ids) list"
  cached_req_ids :: "string list"
  cached_new_block_ids :: "block_ids option list"
  num_scheduled_tokens :: "(string, int) odict"

definition yield_req_data :: "sched_out \<Rightarrow> (string \<times> block_ids option) list" where
  "yield_req_data so =
     map (\<lambda>(rid, ids). (rid, Some ids)) (scheduled_new_reqs so) @ zip (cached_req_ids so) (cached_new_block_ids so)"

definition save_one ::
  "store \<Rightarrow> sched_out \<Rightarrow> string \<times> block_ids option \<Rightarrow> (string, ReqMeta) odict \<times> 't nixl \<Rightarrow>
     ((string, ReqMeta) odict \<times> 't nixl) res" where
  "save_one h so item st =
     (let (rid, groups) = item; (d, n) = st in
      case (od_get (need_save n) rid, groups) of
        (Some i, Some ids) \<Rightarrow>
          (case kv_transfer_params (h i) of
             None \<Rightarrow> Inl AssertionError
           | Some params \<Rightarrow>
               res_bind (get_sw_clipped_blocks n ids) (\<lambda>clipped.
               let d' = add_new_req_to_save rid clipped params d in
               case od_get (num_scheduled_tokens so) rid of
                 None \<Rightarrow> Inl KeyError
               | Some k \<Rightarrow>
                   if num_computed_tokens (h i) + k < num_prompt_tokens (h i) then Inr (d', n)
                   else Inr (d', n\<lparr>need_save := od_del rid (need_save n)\<rparr>)))
      | _ \<Rightarrow> Inr (d, n))"

definition build_save_meta ::
  "store \<Rightarrow> sched_out \<Rightarrow> 't nixl \<Rightarrow> ((string, ReqMeta) odict \<times> 't nixl) res" where
  "build_save_meta h so n = res_fold (save_one h so) (yield_req_data so) ([], n)"

definition recv_one ::
  "store \<Rightarrow> string \<times> nat \<times> block_ids \<Rightarrow> (string, ReqMeta) odict \<Rightarrow> (string, ReqMeta) odict res" where
  "recv_one h item d =
     (let (rid, i, ids) = item in
      case kv_transfer_params (h i) of
        None \<Rightarrow> Inl AssertionError
      | Some params \<Rightarrow> add_new_req_to_recv rid ids params d)"

definition build_connector_meta :: "store \<Rightarrow> sched_out \<Rightarrow> 't nixl \<Rightarrow> ('t NixlConnectorMetadata \<times> 't nixl) res" where
  "build_connector_meta h so n =
     res_bind (res_fold (recv_one h) (need_recv n) []) (\<lambda>recv.
     res_bind (if use_host_buffer n then build_save_meta h so n else Inr ([], n)) (\<lambda>(save, n1).
       Inr (\<lparr>reqs_to_recv = recv, reqs_to_save = save, reqs_to_send = need_send n1, reqs_in_batch = in_batch n1,
              reqs_not_processed = not_processed n1\<rparr>,
            n1\<lparr>need_recv := [], in_batch := {}, not_processed := {}, need_send := []\<rparr>)))"

section \<open>End of a request\<close>

definition jblocks :: "block_ids \<Rightarrow> json" where
  "jblocks ids = JArr (map (\<lambda>g. JArr (map JInt g)) ids)"

text \<open>
  \<^verbatim>\<open>expiry\<close> is the clock reading plus the abort timeout and \<^verbatim>\<open>eldr\<close> says whether the environment has
  \<^verbatim>\<open>ELDR=1\<close>. The result is the flag that keeps the blocks, the parameters for the client, and the
  new store and connector.
\<close>

definition handoff_fields :: "obj \<Rightarrow> nreq \<Rightarrow> obj res" where
  "handoff_fields params r =
     (case output_token_ids r of
        [t] \<Rightarrow> Inr [(''prefill_first_token_id'', JInt t), (''prefill_prompt_tokens'', JInt (num_prompt_tokens r)),
                  (''prefill_continues'', jget_or (JBool False) params ''prefill_continues'')]
      | _ \<Rightarrow> Inl AssertionError)"

definition request_finished ::
  "'t \<Rightarrow> bool \<Rightarrow> nat \<Rightarrow> block_ids \<Rightarrow> store \<Rightarrow> 't nixl \<Rightarrow> ((bool \<times> obj option) \<times> store \<times> 't nixl) res" where
  "request_finished expiry eldr i ids h n =
     (case kv_transfer_params (h i) of
        None \<Rightarrow> Inr ((False, None), h, n)
      | Some params \<Rightarrow>
          let r = h i; rid = request_id r; is_p = truthy (jget params ''do_remote_decode'') in
          if params = [] then Inr ((False, None), h, n)
          else if truthy (jget params ''do_remote_prefill'') then
            Inr ((False, None), set_params i (od_set ''do_remote_prefill'' (JBool False) params) h,
                 n\<lparr>need_recv := od_set rid (i, []) (need_recv n)\<rparr>)
          else if \<not> is_p \<and> \<not> bidirectional n then Inr ((False, None), h, n)
          else if status r \<noteq> FINISHED_LENGTH_CAPPED \<and> status r \<noteq> FINISHED_STOPPED then
            Inr ((False, None), h, n\<lparr>not_processed := insert rid (not_processed n), need_save := od_del rid (need_save n)\<rparr>)
          else
            let delay = list_ex (\<lambda>group. group \<noteq> []) ids;
                n1 = (if delay then n\<lparr>need_send := od_set rid expiry (need_send n)\<rparr> else n) in
            res_bind (if delay then get_sw_clipped_blocks n ids else Inr ids) (\<lambda>ids'.
            let kvt = [(''do_remote_prefill'', JBool is_p), (''do_remote_decode'', JBool (\<not> is_p)),
                       (''remote_block_ids'', jblocks ids'), (''remote_engine_id'', JStr (engine_id n)),
                       (''remote_request_id'', JStr rid), (''remote_host'', JStr (side_channel_host n)),
                       (''remote_port'', JInt (side_channel_port n)), (''tp_size'', JInt (tp_size n)),
                       (''remote_num_tokens'', JInt (if delay then num_computed_tokens r else 0))] in
            res_bind (if is_p \<and> truthy (jget params ''prefill_first'')
                      then res_bind (handoff_fields params r) (\<lambda>f. Inr (kvt @ f)) else Inr kvt) (\<lambda>kvt1.
            if is_p \<and> delay \<and> eldr then
              (case eldr_signature r of
                 None \<Rightarrow> Inl (RuntimeError ''Completed prefill has no ELDR signature'')
               | Some sig \<Rightarrow>
                   Inr ((delay, Some (kvt1 @ [(''eldr_sig'', JStr (b64encode sig))])),
                        h(i := r\<lparr>eldr_signature := None\<rparr>), n1))
            else Inr ((delay, Some kvt1), h, n1))))"

section \<open>The handshake listener\<close>

text \<open>
  One message of the listener's socket: the frames to send back, if any, the number of rejected
  messages so far, and whether the rejection is logged. Decoding MessagePack is a parameter; \<^verbatim>\<open>None\<close>
  is the decoding error the loop catches.
\<close>

datatype msgpack = MInt int | MBytes bytes | MArr "msgpack list" | MOther

definition GET_META_MSG :: bytes where
  "GET_META_MSG = map (\<lambda>c. word_of_nat (of_char c)) ''get_meta_msg''"

definition handshake_query :: "(bytes \<Rightarrow> msgpack option) \<Rightarrow> (int, bytes) odict \<Rightarrow> bytes list \<Rightarrow> bytes res" where
  "handshake_query decode encoded frames =
     (let normal = (length frames = 3 \<and> frames ! 1 = []);
          correlated = (length frames = 4 \<and> length (frames ! 1) = 4 \<and> frames ! 2 = []) in
      if \<not> (normal \<or> correlated) then Inl (ValueError ''invalid request envelope'')
      else case decode (last frames) of
        None \<Rightarrow> Inl (ValueError ''decode error'')
      | Some (MArr [MBytes m, rank]) \<Rightarrow>
          if m \<noteq> GET_META_MSG then Inl (ValueError ''invalid metadata request'')
          else (case rank of
                  MInt k \<Rightarrow> (case od_get encoded k of None \<Rightarrow> Inl (ValueError ''unavailable metadata rank'') | Some d \<Rightarrow> Inr d)
                | _ \<Rightarrow> Inl (ValueError ''unavailable metadata rank''))
      | Some _ \<Rightarrow> Inl (ValueError ''invalid metadata request''))"

definition nixl_handshake_listener ::
  "(bytes \<Rightarrow> msgpack option) \<Rightarrow> (int, bytes) odict \<Rightarrow> bytes list \<Rightarrow> nat \<Rightarrow> bytes list option \<times> nat \<times> bool" where
  "nixl_handshake_listener decode encoded frames rejected =
     (if length frames = 2 \<and> frames ! 1 = [] then (None, rejected, False)
      else case handshake_query decode encoded frames of
        Inl _ \<Rightarrow> (None, Suc rejected, (Suc rejected) AND rejected = 0)
      | Inr d \<Rightarrow> (Some (butlast frames @ [d]), rejected, False))"

end
