(* ===== verification/Stop_Check.thy ===== *)
theory Stop_Check
  imports Nixl_Sched
begin

text \<open>
  When a request ends (\<^verbatim>\<open>v1/core/sched/utils.py\<close> and \<^verbatim>\<open>Scheduler._update_request_with_output\<close>): the stop
  conditions, detection of a repeated pattern at the end of the output, and the loop that appends
  sampled tokens and cuts a prefill-first request after its first token. Hashing of the blocks that
  an appended token fills is modelled with the block hashes.
\<close>

section \<open>Repetition\<close>

record RepetitionDetectionParams =
  max_pattern_size :: int
  min_pattern_size :: int
  min_count :: int

text \<open>A negative subscript counts from the end; the caller has checked that the sequence is long enough.\<close>

definition from_end :: "int list \<Rightarrow> nat \<Rightarrow> int" where
  "from_end ts k = ts ! (length ts - k)"

definition has_repeating_pattern :: "int list \<Rightarrow> nat \<Rightarrow> nat \<Rightarrow> bool" where
  "has_repeating_pattern ts L c =
     list_all (\<lambda>n. list_all (\<lambda>m. from_end ts (L * m + n) = from_end ts n) [1..<c]) [1..<L + 1]"

fun repetition_loop :: "int list \<Rightarrow> nat \<Rightarrow> nat list \<Rightarrow> bool" where
  "repetition_loop ts c [] = False"
| "repetition_loop ts c (L # Ls) =
     (if length ts < L * c then False else if has_repeating_pattern ts L c then True else repetition_loop ts c Ls)"

definition check_sequence_repetition :: "int list \<Rightarrow> RepetitionDetectionParams \<Rightarrow> bool" where
  "check_sequence_repetition ts p =
     (let lo = (if min_pattern_size p \<le> 0 then 1 else min_pattern_size p) in
      if max_pattern_size p \<le> 0 \<or> min_count p < 2 \<or> max_pattern_size p < lo then False
      else repetition_loop ts (nat (min_count p)) [nat lo..<nat (max_pattern_size p) + 1])"

section \<open>Stopping\<close>

record stop_params =
  min_tokens :: int
  eos_token_id :: "int option"
  stop_token_ids :: "int list"
  repetition_detection :: "RepetitionDetectionParams option"

definition check_stop :: "stop_params \<Rightarrow> int \<Rightarrow> nreq \<Rightarrow> (bool \<times> nreq) res" where
  "check_stop sp max_model_len r =
     (if int (length (output_token_ids r)) < min_tokens sp then Inr (False, r)
      else if output_token_ids r = [] then Inl IndexError
      else
        let t = last (output_token_ids r) in
        if Some t = eos_token_id sp then Inr (True, r\<lparr>status := FINISHED_STOPPED\<rparr>)
        else if t \<in> set (stop_token_ids sp) then Inr (True, r\<lparr>status := FINISHED_STOPPED, stop_reason := JInt t\<rparr>)
        else if max_model_len \<le> int (length (all_token_ids r)) \<or> max_tokens r \<le> int (length (output_token_ids r))
        then Inr (True, r\<lparr>status := FINISHED_LENGTH_CAPPED\<rparr>)
        else case repetition_detection sp of
          None \<Rightarrow> Inr (False, r)
        | Some p \<Rightarrow>
            if check_sequence_repetition (output_token_ids r) p
            then Inr (True, r\<lparr>status := FINISHED_REPETITION, stop_reason := JStr ''repetition_detected''\<rparr>)
            else Inr (False, r))"

definition append_token :: "int \<Rightarrow> nreq \<Rightarrow> nreq" where
  "append_token t r = r\<lparr>output_token_ids := output_token_ids r @ [t], all_token_ids := all_token_ids r @ [t]\<rparr>"

definition stop_prefill_first :: "bool \<times> nreq \<Rightarrow> bool \<times> nreq" where
  "stop_prefill_first x =
     (let (stopped, r) = x in
      case kv_transfer_params r of
        Some p \<Rightarrow>
          if \<not> stopped \<and> p \<noteq> [] \<and> truthy (jget p ''prefill_first'')
          then (True, r\<lparr>kv_transfer_params := Some (od_set ''prefill_continues'' (JBool True) p), status := FINISHED_LENGTH_CAPPED\<rparr>)
          else x
      | None \<Rightarrow> x)"

text \<open>The tokens kept, whether the request stopped, and the request.\<close>

fun update_request_with_output :: "stop_params \<Rightarrow> int \<Rightarrow> int list \<Rightarrow> nreq \<Rightarrow> (int list \<times> bool \<times> nreq) res" where
  "update_request_with_output sp mml [] r = Inr ([], False, r)"
| "update_request_with_output sp mml (t # ts) r =
     res_bind (check_stop sp mml (append_token t r)) (\<lambda>x.
       let (stopped, r') = stop_prefill_first x in
       if stopped then Inr ([t], True, r')
       else res_bind (update_request_with_output sp mml ts r') (\<lambda>(kept, y). Inr (t # kept, y)))"

section \<open>Repetition is exactly a repeated suffix\<close>

lemma concat_replicate_nth:
  assumes "0 < length p" "j < c * length p"
  shows "concat (replicate c p) ! j = p ! (j mod length p)"
  using assms
proof (induction c arbitrary: j)
  case 0
  then show ?case by simp
next
  case (Suc c)
  show ?case
  proof (cases "j < length p")
    case True
    then show ?thesis by (simp add: nth_append)
  next
    case False
    then have "concat (replicate c p) ! (j - length p) = p ! ((j - length p) mod length p)"
      using Suc by simp
    then show ?thesis using False by (simp add: nth_append le_mod_geq)
  qed
qed

lemma length_concat_replicate [simp]: "length (concat (replicate c p)) = c * length p"
  by (induction c) auto

text \<open>Position \<^verbatim>\<open>L * m + n\<close> from the end lies in the \<^verbatim>\<open>m\<close>-th copy from the end, \<^verbatim>\<open>n\<close> before its end.\<close>

lemma suffix_position:
  fixes L m n c :: nat
  assumes "0 < n" "n \<le> L" "m < c"
  shows "(L * c - (L * m + n)) mod L = L - n" "L * m + n \<le> L * c"
proof -
  have "Suc m \<le> c" using assms by simp
  then have "L * Suc m \<le> L * c" by (rule mult_le_mono2)
  then show le: "L * m + n \<le> L * c" using assms by simp
  have "L * c - (L * m + n) = L * (c - Suc m) + (L - n)"
    using assms \<open>L * Suc m \<le> L * c\<close> by (simp add: diff_mult_distrib2)
  moreover have "L - n < L" using assms by simp
  ultimately show "(L * c - (L * m + n)) mod L = L - n" by (metis mod_less mod_mult_self4)
qed

lemma repeated_from_end:
  assumes "ts = pre @ concat (replicate c p)" "length p = L" "0 < n" "n \<le> L" "m < c"
  shows "from_end ts (L * m + n) = p ! (L - n)"
proof -
  note pos = suffix_position [OF assms(3-5)]
  have "length ts - (L * m + n) = length pre + (L * c - (L * m + n))" using assms pos(2) by (simp add: mult.commute)
  moreover have "L * c - (L * m + n) < c * length p" using assms pos(2) by (simp add: mult.commute)
  ultimately show ?thesis
    using assms pos(1) concat_replicate_nth [of p "L * c - (L * m + n)" c] by (simp add: from_end_def nth_append)
qed

lemma has_repeating_pattern_iff:
  assumes "0 < L" "0 < c" "L * c \<le> length ts"
  shows "has_repeating_pattern ts L c \<longleftrightarrow> (\<exists>pre p. length p = L \<and> ts = pre @ concat (replicate c p))"
proof
  assume "\<exists>pre p. length p = L \<and> ts = pre @ concat (replicate c p)"
  then obtain pre p where p: "length p = L" "ts = pre @ concat (replicate c p)" by blast
  have "from_end ts (L * m + n) = from_end ts n" if "0 < n" "n \<le> L" "m < c" for n m
    using repeated_from_end [OF p(2,1) that] repeated_from_end [OF p(2,1) that(1,2) assms(2)] by simp
  then show "has_repeating_pattern ts L c" by (auto simp: has_repeating_pattern_def list_all_iff)
next
  assume rep: "has_repeating_pattern ts L c"
  define p where "p = drop (length ts - L) ts"
  define pre where "pre = take (length ts - L * c) ts"
  have len: "length p = L" using assms by (simp add: p_def) (metis One_nat_def Suc_leI le_trans mult.right_neutral mult_le_mono2 diff_diff_cancel)
  have per: "from_end ts (L * m + n) = p ! (L - n)" if n: "0 < n" "n \<le> L" "m < c" for n m
  proof -
    have "from_end ts (L * m + n) = from_end ts n"
    proof (cases "m = 0")
      case False
      then have "n \<in> set [1..<L + 1]" "m \<in> set [1..<c]" using n by auto
      then show ?thesis using rep by (simp only: has_repeating_pattern_def list_all_iff)
    qed simp
    moreover have "L \<le> length ts" using len by (simp add: p_def)
    then have "p ! (L - n) = from_end ts n" using n by (simp add: p_def from_end_def)
    ultimately show ?thesis by simp
  qed
  have "ts = pre @ concat (replicate c p)"
  proof (rule nth_equalityI)
    show "length ts = length (pre @ concat (replicate c p))" using assms len by (simp add: pre_def mult.commute)
  next
    fix i assume i: "i < length ts"
    show "ts ! i = (pre @ concat (replicate c p)) ! i"
    proof (cases "i < length ts - L * c")
      case True
      then show ?thesis by (simp add: pre_def nth_append)
    next
      case False
      define k where "k = length ts - i - 1"
      define m n where "m = k div L" and "n = Suc (k mod L)"
      have k: "Suc k = L * m + n" "k < L * c" using i False by (simp_all add: k_def m_def n_def)
      have mn: "0 < n" "n \<le> L" "m < c"
        using assms(1) k(2) by (simp_all add: m_def n_def less_mult_imp_div_less mult.commute Suc_leI)
      have ts: "ts ! i = p ! (L - n)" using per [OF mn] i k(1) [symmetric] by (simp add: from_end_def k_def)
      have "i - (length ts - L * c) = L * c - (L * m + n)" using i False assms(3) k(1) k_def by simp
      then have "(pre @ concat (replicate c p)) ! i = concat (replicate c p) ! (L * c - (L * m + n))"
        using False assms(3) by (simp add: nth_append pre_def)
      also have "\<dots> = p ! (L - n)"
        using concat_replicate_nth [of p "L * c - (L * m + n)" c] suffix_position [OF mn] len assms mn(1) by (simp add: mult.commute)
      finally show ?thesis using ts by simp
    qed
  qed
  with len show "\<exists>pre p. length p = L \<and> ts = pre @ concat (replicate c p)" by blast
qed

lemma repetition_loop_iff:
  assumes "0 < c" "sorted Ls" "0 \<notin> set Ls"
  shows "repetition_loop ts c Ls \<longleftrightarrow> (\<exists>L \<in> set Ls. \<exists>pre p. length p = L \<and> ts = pre @ concat (replicate c p))"
  using assms(2,3)
proof (induction Ls)
  case Nil
  then show ?case by simp
next
  case (Cons L Ls)
  have long: "L * c \<le> length ts" if "L' \<in> set (L # Ls)" "length p = L'" "ts = pre @ concat (replicate c p)" for L' p pre
  proof -
    have "L \<le> L'" using Cons.prems(1) that(1) by auto
    then show ?thesis using that(2,3) by (simp add: mult.commute trans_le_add2)
  qed
  show ?case
  proof (cases "length ts < L * c")
    case True
    then show ?thesis using long by fastforce
  next
    case False
    have "repetition_loop ts c (L # Ls) \<longleftrightarrow> has_repeating_pattern ts L c \<or> repetition_loop ts c Ls" using False by simp
    also have "has_repeating_pattern ts L c \<longleftrightarrow> (\<exists>pre p. length p = L \<and> ts = pre @ concat (replicate c p))"
      using Cons.prems(2) assms(1) False by (intro has_repeating_pattern_iff) auto
    also have "repetition_loop ts c Ls \<longleftrightarrow> (\<exists>L \<in> set Ls. \<exists>pre p. length p = L \<and> ts = pre @ concat (replicate c p))"
      using Cons by simp
    finally show ?thesis unfolding list.set(2) bex_simps(5) .
  qed
qed

text \<open>
  C29. Repetition detection is exact. The scan of the output's end from the smallest to the
  largest pattern length, with its early exit, reports a repetition exactly if the output ends with
  the required number of copies of one pattern whose length lies in the configured range.
\<close>

theorem repetition_detected_exact:
  "check_sequence_repetition ts p \<longleftrightarrow> 2 \<le> min_count p \<and>
     (\<exists>pre pat. 1 \<le> length pat \<and> min_pattern_size p \<le> int (length pat) \<and> int (length pat) \<le> max_pattern_size p \<and>
        ts = pre @ concat (replicate (nat (min_count p)) pat))"
proof -
  define lo where "lo = (if min_pattern_size p \<le> 0 then 1 else min_pattern_size p)"
  have lo: "1 \<le> lo" by (simp add: lo_def)
  have range: "L \<in> set [nat lo..<nat (max_pattern_size p) + 1] \<longleftrightarrow>
      1 \<le> L \<and> min_pattern_size p \<le> int L \<and> int L \<le> max_pattern_size p" for L
    using lo by (auto simp: lo_def split: if_splits)
  have "0 \<notin> set [nat lo..<nat (max_pattern_size p) + 1]" using range by auto
  note loop_iff = repetition_loop_iff [OF _ sorted_upt this, of "nat (min_count p)" ts]
  have loop: "repetition_loop ts (nat (min_count p)) [nat lo..<nat (max_pattern_size p) + 1] \<longleftrightarrow>
      (\<exists>L. (1 \<le> L \<and> min_pattern_size p \<le> int L \<and> int L \<le> max_pattern_size p) \<and>
        (\<exists>pre pat. length pat = L \<and> ts = pre @ concat (replicate (nat (min_count p)) pat)))" if "2 \<le> min_count p"
    unfolding Bex_def range [symmetric] by (rule loop_iff [unfolded Bex_def]) (use that in simp)
  show ?thesis
  proof (cases "max_pattern_size p \<le> 0 \<or> min_count p < 2 \<or> max_pattern_size p < lo")
    case True
    then show ?thesis by (auto simp: check_sequence_repetition_def lo_def split: if_splits)
  next
    case False
    then have "check_sequence_repetition ts p = repetition_loop ts (nat (min_count p)) [nat lo..<nat (max_pattern_size p) + 1]"
      by (simp add: check_sequence_repetition_def lo_def [symmetric] Let_def)
    with False loop show ?thesis by auto
  qed
qed

end
