(* ===== verification/Nixl_Safety.thy ===== *)
theory Nixl_Safety
  imports Nixl_Sched
begin

text \<open>
  Runs of the NIXL connector: requests are admitted, matched, allocated (again after a preemption),
  progress and finish in any order, and the metadata of any number of steps is built. A remote
  prefill is pulled or released exactly once.
\<close>

section \<open>Runs\<close>

datatype life = Absent | Live | Done

text \<open>What the scheduler does to a request between the connector's calls.\<close>

definition progressed :: "nreq \<Rightarrow> nreq \<Rightarrow> bool" where
  "progressed r r' \<longleftrightarrow> request_id r' = request_id r \<and>
     (kv_transfer_params r' = kv_transfer_params r \<or>
      (\<exists>p. kv_transfer_params r = Some p \<and> kv_transfer_params r' = Some (od_set ''prefill_continues'' (JBool True) p)))"

text \<open>
  \<^verbatim>\<open>orig\<close> remembers the transfer parameters a request came with and \<^verbatim>\<open>sent\<close> all entries of the
  receive lists handed to the workers.
\<close>

inductive nixl_run ::
  "store \<Rightarrow> 't nixl \<Rightarrow> (nat \<Rightarrow> life) \<Rightarrow> (nat \<Rightarrow> obj option) \<Rightarrow> (string \<times> ReqMeta) list \<Rightarrow> bool" where
  start: "make_nixl a = Inr n \<Longrightarrow> nixl_run h n (\<lambda>_. Absent) orig []"
| admit: "nixl_run h n life orig sent \<Longrightarrow> life i = Absent \<Longrightarrow>
    \<forall>j. life j \<noteq> Absent \<longrightarrow> request_id (h j) \<noteq> request_id r \<Longrightarrow>
    nixl_run (h(i := r)) n (life(i := Live)) (orig(i := kv_transfer_params r)) sent"
| match: "nixl_run h n life orig sent \<Longrightarrow> life i = Live \<Longrightarrow> get_num_new_matched_tokens n (h i) c = Inr (res, r) \<Longrightarrow>
    nixl_run (h(i := r)) n life orig sent"
| alloc: "nixl_run h n life orig sent \<Longrightarrow> life i = Live \<Longrightarrow> update_state_after_alloc i ids k h n = Inr (h', n') \<Longrightarrow>
    nixl_run h' n' life orig sent"
| progress: "nixl_run h n life orig sent \<Longrightarrow> life i = Live \<Longrightarrow> progressed (h i) r \<Longrightarrow>
    nixl_run (h(i := r)) n life orig sent"
| build: "nixl_run h n life orig sent \<Longrightarrow> build_connector_meta h so n = Inr (m, n') \<Longrightarrow>
    nixl_run h n' life orig (sent @ reqs_to_recv m)"
| finish: "nixl_run h n life orig sent \<Longrightarrow> life i = Live \<Longrightarrow>
    request_finished expiry eldr i ids h n = Inr (out, h', n') \<Longrightarrow>
    nixl_run h' n' (life(i := Done)) orig sent"

section \<open>Invariant\<close>

definition volatile_keys :: "string set" where
  "volatile_keys = {''do_remote_prefill'', ''_remote_blocks_processed'', ''_p_side_truncated'', ''prefill_continues''}"

definition same_remote :: "obj \<Rightarrow> obj \<Rightarrow> bool" where
  "same_remote p q \<longleftrightarrow> (\<forall>k. k \<notin> volatile_keys \<longrightarrow> od_get q k = od_get p k)"

text \<open>Parameters of a consumer that name a complete remote prefill.\<close>

definition remote_pull :: "obj \<Rightarrow> bool" where
  "remote_pull p \<longleftrightarrow>
     truthy (jget p ''do_remote_prefill'') \<and> truthy (jget p ''remote_block_ids'') \<and> has_remote p"

text \<open>Parameters whose request may be queued: a consumer's, or complete ones of a bidirectional producer.\<close>

definition nameable :: "obj \<Rightarrow> bool" where
  "nameable p \<longleftrightarrow> truthy (jget p ''do_remote_prefill'') \<or> truthy (jget p ''remote_block_ids'') \<and> has_remote p"

definition queued :: "'t nixl \<Rightarrow> (string \<times> ReqMeta) list \<Rightarrow> string \<Rightarrow> nat" where
  "queued n sent rid = count_list (map fst sent @ od_keys (need_recv n)) rid"

definition pull_state :: "obj \<Rightarrow> obj \<Rightarrow> life \<Rightarrow> nat \<Rightarrow> bool" where
  "pull_state p q l k \<longleftrightarrow> same_remote p q \<and>
     (truthy (jget q ''do_remote_prefill'') \<longrightarrow> truthy (jget p ''do_remote_prefill'')) \<and> (remote_pull p \<longrightarrow>
     (if truthy (jget q ''do_remote_prefill'') then k = 0 \<and> l = Live
      else k = 1 \<and> (l = Done \<or> truthy (jget q ''_remote_blocks_processed''))))"

definition req_inv :: "obj option \<Rightarrow> nreq \<Rightarrow> life \<Rightarrow> nat \<Rightarrow> bool" where
  "req_inv po r l k \<longleftrightarrow>
     (case po of
        None \<Rightarrow> kv_transfer_params r = None
      | Some p \<Rightarrow> \<exists>q. kv_transfer_params r = Some q \<and> pull_state p q l k)"

definition nixl_inv ::
  "store \<Rightarrow> 't nixl \<Rightarrow> (nat \<Rightarrow> life) \<Rightarrow> (nat \<Rightarrow> obj option) \<Rightarrow> (string \<times> ReqMeta) list \<Rightarrow> bool" where
  "nixl_inv h n life orig sent \<longleftrightarrow>
     inj_on (\<lambda>j. request_id (h j)) {j. life j \<noteq> Absent} \<and> od_ok (need_recv n) \<and>
     (\<forall>rid j ids. (rid, j, ids) \<in> set (need_recv n) \<longrightarrow> life j \<noteq> Absent \<and> rid = request_id (h j) \<and>
        (\<exists>p. orig j = Some p \<and> nameable p)) \<and>
     (\<forall>rid m. (rid, m) \<in> set sent \<longrightarrow>
        (\<exists>j p rm. life j \<noteq> Absent \<and> rid = request_id (h j) \<and> orig j = Some p \<and> remote m = Some rm \<and> remote_meta p = Inr rm)) \<and>
     (\<forall>j. life j \<noteq> Absent \<longrightarrow> req_inv (orig j) (h j) (life j) (queued n sent (request_id (h j))))"

lemma nixl_invD:
  assumes "nixl_inv h n life orig sent"
  shows "inj_on (\<lambda>j. request_id (h j)) {j. life j \<noteq> Absent}" "od_ok (need_recv n)"
    "\<And>rid j ids. (rid, j, ids) \<in> set (need_recv n) \<Longrightarrow> life j \<noteq> Absent \<and> rid = request_id (h j) \<and>
       (\<exists>p. orig j = Some p \<and> nameable p)"
    "\<And>rid m. (rid, m) \<in> set sent \<Longrightarrow> \<exists>j p rm. life j \<noteq> Absent \<and> rid = request_id (h j) \<and> orig j = Some p \<and>
       remote m = Some rm \<and> remote_meta p = Inr rm"
    "\<And>j. life j \<noteq> Absent \<Longrightarrow> req_inv (orig j) (h j) (life j) (queued n sent (request_id (h j)))"
  using assms unfolding nixl_inv_def by blast+

lemma same_remote_refl [simp]: "same_remote p p"
  by (simp add: same_remote_def)

lemma same_remote_set: "same_remote p q \<Longrightarrow> k \<in> volatile_keys \<Longrightarrow> same_remote p (od_set k v q)"
  by (auto simp: same_remote_def od_simps)

lemma same_remote_meta: "same_remote p q \<Longrightarrow> remote_meta q = remote_meta p"
  by (simp add: same_remote_def remote_meta_def jitem_def volatile_keys_def)

lemma jget_set: "jget (od_set k v q) k' = (if k' = k then v else jget q k')"
  by (simp add: jget_or_def od_simps)

lemma same_remote_jget: "same_remote p q \<Longrightarrow> k \<notin> volatile_keys \<Longrightarrow> jget q k = jget p k"
  by (simp add: same_remote_def jget_or_def)

lemma same_remote_has: "same_remote p q \<Longrightarrow> has_remote q = has_remote p"
proof -
  assume s: "same_remote p q"
  have "k \<in> set (od_keys q) \<longleftrightarrow> k \<in> set (od_keys p)" if "k \<notin> volatile_keys" for k
    using s that od_get_None [of q k] od_get_None [of p k] by (simp add: same_remote_def)
  then show ?thesis by (simp add: has_remote_def remote_keys_def volatile_keys_def)
qed

lemma count_keys_set: "r \<noteq> k \<Longrightarrow> count_list (od_keys (od_set k v d)) r = count_list (od_keys d) r"
  by (induction d) auto

lemma od_set_mem: "(k', w) \<in> set (od_set k v d) \<Longrightarrow> k' = k \<and> w = v \<or> (k', w) \<in> set d"
  by (induction d) (auto split: if_splits)

section \<open>Steps\<close>

text \<open>A call for request \<^verbatim>\<open>i\<close> that may queue it keeps the invariant if it keeps the request's own part.\<close>

lemma inv_step:
  assumes inv: "nixl_inv h n life orig sent" and i: "life i \<noteq> Absent" "l \<noteq> Absent" "request_id r = request_id (h i)"
    and q: "need_recv n' = need_recv n \<or> (\<exists>p. orig i = Some p \<and> nameable p) \<and> need_recv n' = od_set (request_id (h i)) (i, ids) (need_recv n)"
    and own: "req_inv (orig i) r l (queued n' sent (request_id (h i)))"
  shows "nixl_inv (h(i := r)) n' (life(i := l)) orig sent"
proof -
  note I = nixl_invD [OF inv]
  have dom: "{j. (life(i := l)) j \<noteq> Absent} = {j. life j \<noteq> Absent}" using i by auto
  have ids: "request_id ((h(i := r)) j) = request_id (h j)" for j using i(3) by simp
  have other: "queued n' sent (request_id (h j)) = queued n sent (request_id (h j))" if "life j \<noteq> Absent" "j \<noteq> i" for j
  proof -
    have "request_id (h j) \<noteq> request_id (h i)" using I(1) that i(1) by (auto dest: inj_onD)
    then show ?thesis using q by (auto simp: queued_def count_keys_set)
  qed
  have m: "life j \<noteq> Absent \<and> rid = request_id (h j) \<and> (\<exists>p. orig j = Some p \<and> nameable p)"
    if "(rid, j, b) \<in> set (need_recv n')" for rid j b
    using q that I(3) [of rid j b] od_set_mem [of rid "(j, b)" "request_id (h i)" "(i, ids)" "need_recv n"] i(1) by auto
  show ?thesis
    unfolding nixl_inv_def
  proof (intro conjI allI impI)
    show "inj_on (\<lambda>j. request_id ((h(i := r)) j)) {j. (life(i := l)) j \<noteq> Absent}" unfolding dom ids by (rule I(1))
    show "od_ok (need_recv n')" using q I(2) by auto
  next
    fix rid j b assume "(rid, j, b) \<in> set (need_recv n')"
    from m [OF this] show "(life(i := l)) j \<noteq> Absent" "rid = request_id ((h(i := r)) j)" "\<exists>p. orig j = Some p \<and> nameable p"
      using i ids by auto
  next
    fix rid mm assume "(rid, mm) \<in> set sent"
    from I(4) [OF this] show "\<exists>j p rm. (life(i := l)) j \<noteq> Absent \<and> rid = request_id ((h(i := r)) j) \<and> orig j = Some p \<and>
        remote mm = Some rm \<and> remote_meta p = Inr rm"
      unfolding ids using i(2) by auto
  next
    fix j assume "(life(i := l)) j \<noteq> Absent"
    then have "life j \<noteq> Absent" using i(1) by (cases "j = i") auto
    then show "req_inv (orig j) ((h(i := r)) j) ((life(i := l)) j) (queued n' sent (request_id ((h(i := r)) j)))"
      unfolding ids using own other [of j] I(5) [of j] by (cases "j = i") auto
  qed
qed

lemma queued_fresh:
  assumes "nixl_inv h n life orig sent" "\<forall>j. life j \<noteq> Absent \<longrightarrow> request_id (h j) \<noteq> rid"
  shows "queued n sent rid = 0"
proof -
  have "rid \<notin> fst ` set sent" using nixl_invD(4) [OF assms(1)] assms(2) by fastforce
  moreover have "rid \<notin> fst ` set (need_recv n)" using nixl_invD(3) [OF assms(1)] assms(2) by fastforce
  ultimately show ?thesis by (simp add: queued_def count_list_0_iff)
qed

lemma inv_admit:
  assumes inv: "nixl_inv h n life orig sent" and i: "life i = Absent"
    and fresh: "\<forall>j. life j \<noteq> Absent \<longrightarrow> request_id (h j) \<noteq> request_id r"
  shows "nixl_inv (h(i := r)) n (life(i := Live)) (orig(i := kv_transfer_params r)) sent"
proof -
  note I = nixl_invD [OF inv]
  have j: "j \<noteq> i" if "life j \<noteq> Absent" for j using that i by auto
  have "req_inv (kv_transfer_params r) r Live 0"
    by (cases "kv_transfer_params r") (auto simp: req_inv_def pull_state_def remote_pull_def)
  then have own: "req_inv (kv_transfer_params r) r Live (queued n sent (request_id r))"
    using queued_fresh [OF inv fresh] by simp
  have dom: "{j. (life(i := Live)) j \<noteq> Absent} = insert i {j. life j \<noteq> Absent}" by auto
  have inj: "inj_on (\<lambda>j. request_id ((h(i := r)) j)) {j. life j \<noteq> Absent}"
    using I(1) j by (auto simp: inj_on_def)
  show ?thesis
    unfolding nixl_inv_def
  proof (intro conjI allI impI)
    show "inj_on (\<lambda>j. request_id ((h(i := r)) j)) {j. (life(i := Live)) j \<noteq> Absent}"
      unfolding dom using inj fresh j i by (auto simp: inj_on_insert)
    show "od_ok (need_recv n)" by (rule I(2))
  next
    fix rid k b assume "(rid, k, b) \<in> set (need_recv n)"
    from I(3) [OF this] j [of k] show "(life(i := Live)) k \<noteq> Absent" "rid = request_id ((h(i := r)) k)"
      "\<exists>p. (orig(i := kv_transfer_params r)) k = Some p \<and> nameable p" by auto
  next
    fix rid m assume "(rid, m) \<in> set sent"
    then obtain k p rm where "life k \<noteq> Absent" "rid = request_id (h k)" "orig k = Some p" "remote m = Some rm"
      "remote_meta p = Inr rm" using I(4) by blast
    with j [of k] show "\<exists>k p rm. (life(i := Live)) k \<noteq> Absent \<and> rid = request_id ((h(i := r)) k) \<and>
        (orig(i := kv_transfer_params r)) k = Some p \<and> remote m = Some rm \<and> remote_meta p = Inr rm"
      by (intro exI [of _ k] exI [of _ p] exI [of _ rm]) auto
  next
    fix k assume "(life(i := Live)) k \<noteq> Absent"
    then show "req_inv ((orig(i := kv_transfer_params r)) k) ((h(i := r)) k) ((life(i := Live)) k)
        (queued n sent (request_id ((h(i := r)) k)))"
      using own I(5) [of k] by (cases "k = i") auto
  qed
qed

text \<open>The request itself: what each call does to its parameters and its place in the queue.\<close>

lemma req_inv_touch:
  assumes "req_inv po r l k" "kv_transfer_params r = Some q" "kv_transfer_params r' = Some (od_set key v q)"
    and "key \<in> {''_p_side_truncated'', ''prefill_continues''}"
  shows "req_inv po r' l k"
proof -
  have "key \<in> volatile_keys" using assms(4) by (auto simp: volatile_keys_def)
  then show ?thesis
    using assms by (auto simp: req_inv_def pull_state_def same_remote_set jget_set split: option.splits)
qed

lemma req_inv_same: "req_inv po r l k \<Longrightarrow> kv_transfer_params r' = kv_transfer_params r \<Longrightarrow> req_inv po r' l k"
  by (cases po) (simp_all add: req_inv_def)

lemma truncate_params:
  assumes "truncate_mamba_request_for_prefill r = Inr r'"
  shows "request_id r' = request_id r \<and> (kv_transfer_params r' = kv_transfer_params r \<or>
     (\<exists>q. kv_transfer_params r = Some q \<and> kv_transfer_params r' = Some (od_set ''_p_side_truncated'' (JBool True) q)))"
  using assms by (auto simp: truncate_mamba_request_for_prefill_def Let_def split: option.splits if_splits)

lemma matched_params:
  assumes "get_num_new_matched_tokens n r c = Inr (x, r')"
  shows "request_id r' = request_id r \<and> (kv_transfer_params r' = kv_transfer_params r \<or>
     (\<exists>q. kv_transfer_params r = Some q \<and> kv_transfer_params r' = Some (od_set ''_p_side_truncated'' (JBool True) q)))"
proof -
  have "r' = r \<or> truncate_mamba_request_for_prefill r = Inr r'"
    using assms by (auto simp: get_num_new_matched_tokens_def Let_def res_simps split: option.splits if_splits)
  then show ?thesis using truncate_params by auto
qed

lemma queued_set: "queued n sent rid = 0 \<Longrightarrow> need_recv n' = od_set rid x (need_recv n) \<Longrightarrow> queued n' sent rid = 1"
  by (simp add: queued_def count_list_0_iff od_get_None od_set_fresh)

text \<open>A call that queues the request and clears its flag.\<close>

lemma pull_state_queue:
  assumes "pull_state p q Live (queued n sent rid)" "truthy (jget q ''do_remote_prefill'')"
    and "need_recv n' = od_set rid x (need_recv n)" "l = Done \<or> truthy (jget q' ''_remote_blocks_processed'')"
    and "same_remote p q'" "\<not> truthy (jget q' ''do_remote_prefill'')"
  shows "pull_state p q' l (queued n' sent rid)"
  using assms queued_set [of n sent rid n' x] by (auto simp: pull_state_def)

lemma alloc_cases:
  assumes "update_state_after_alloc i ids k h n = Inr (h', n')"
  obtains (keep) "h' = h" "need_recv n' = need_recv n"
  | (clear) q b where "kv_transfer_params (h i) = Some q" "pulls_remote n q"
      "h' = set_params i (od_set ''_remote_blocks_processed'' (JBool True) (od_set ''do_remote_prefill'' (JBool False) q)) h"
      "if truthy (jget q ''remote_block_ids'') \<and> has_remote q
       then need_recv n' = od_set (request_id (h i)) (i, b) (need_recv n) else need_recv n' = need_recv n"
  using assms
  by (auto simp: update_state_after_alloc_def Let_def res_simps split: option.splits if_splits)

lemma alloc_own:
  assumes inv: "pull_state p q Live (queued n sent rid)" and pulls: "pulls_remote n q"
    and q': "q' = od_set ''_remote_blocks_processed'' (JBool True) (od_set ''do_remote_prefill'' (JBool False) q)"
    and n': "if truthy (jget q ''remote_block_ids'') \<and> has_remote q
       then need_recv n' = od_set rid (i, b) (need_recv n) else need_recv n' = need_recv n"
  shows "pull_state p q' Live (queued n' sent rid)"
proof -
  have s: "same_remote p q" using inv by (simp add: pull_state_def)
  then have s': "same_remote p q'" unfolding q' by (intro same_remote_set) (simp_all add: volatile_keys_def)
  have f: "\<not> truthy (jget q' ''do_remote_prefill'')" "truthy (jget q' ''_remote_blocks_processed'')" by (simp_all add: q' jget_set)
  show ?thesis
  proof (cases "remote_pull p")
    case False
    then show ?thesis using s' f(1) by (simp add: pull_state_def)
  next
    case True
    then have full: "truthy (jget q ''remote_block_ids'') \<and> has_remote q"
      using same_remote_has [OF s] same_remote_jget [OF s, of "''remote_block_ids''"] by (simp add: remote_pull_def volatile_keys_def)
    have "truthy (jget q ''do_remote_prefill'')" using inv pulls True by (auto simp: pull_state_def pulls_remote_def split: if_splits)
    with full n' inv s' f show ?thesis by (auto intro: pull_state_queue)
  qed
qed

lemma alloc_nameable:
  "pull_state p q l k \<Longrightarrow> truthy (jget q ''do_remote_prefill'') \<or> truthy (jget q ''remote_block_ids'') \<and> has_remote q \<Longrightarrow>
     nameable p"
  using same_remote_has [of p q] same_remote_jget [of p q "''remote_block_ids''"]
  by (auto simp: nameable_def pull_state_def volatile_keys_def)

lemma inv_alloc:
  assumes inv: "nixl_inv h n life orig sent" and i: "life i = Live" and step: "update_state_after_alloc i ids k h n = Inr (h', n')"
  shows "nixl_inv h' n' life orig sent"
  using step
proof (cases rule: alloc_cases)
  case keep
  then show ?thesis using inv by (simp add: nixl_inv_def queued_def)
next
  case (clear q b)
  define q' where "q' = od_set ''_remote_blocks_processed'' (JBool True) (od_set ''do_remote_prefill'' (JBool False) q)"
  obtain p where p: "orig i = Some p" "pull_state p q Live (queued n sent (request_id (h i)))"
    using nixl_invD(5) [OF inv, of i] i clear(1) by (auto simp: req_inv_def split: option.splits)
  have "pull_state p q' Live (queued n' sent (request_id (h i)))"
    using alloc_own [OF p(2) clear(2) q'_def clear(4)] .
  then have own: "req_inv (orig i) ((h i)\<lparr>kv_transfer_params := Some q'\<rparr>) Live (queued n' sent (request_id (h i)))"
    using p(1) by (simp add: req_inv_def)
  have q: "need_recv n' = need_recv n \<or> (\<exists>p. orig i = Some p \<and> nameable p) \<and> need_recv n' = od_set (request_id (h i)) (i, b) (need_recv n)"
    using clear(4) p alloc_nameable [OF p(2)] by (auto split: if_splits)
  have "nixl_inv (h(i := (h i)\<lparr>kv_transfer_params := Some q'\<rparr>)) n' (life(i := Live)) orig sent"
    by (rule inv_step [OF inv _ _ _ q own]) (simp_all add: i)
  moreover have "life(i := Live) = life" using i by (simp add: fun_upd_idem_iff)
  ultimately show ?thesis using clear(3) by (simp add: set_params_def q'_def)
qed

lemma inv_touch:
  assumes inv: "nixl_inv h n life orig sent" and i: "life i = Live" "request_id r = request_id (h i)"
    and kv: "kv_transfer_params r = kv_transfer_params (h i) \<or>
      (\<exists>q v key. kv_transfer_params (h i) = Some q \<and> kv_transfer_params r = Some (od_set key v q) \<and>
         key \<in> {''_p_side_truncated'', ''prefill_continues''})"
  shows "nixl_inv (h(i := r)) n life orig sent"
proof -
  have "req_inv (orig i) (h i) Live (queued n sent (request_id (h i)))" using nixl_invD(5) [OF inv, of i] i(1) by simp
  with kv have own: "req_inv (orig i) r Live (queued n sent (request_id (h i)))"
    using req_inv_touch req_inv_same by blast
  have "nixl_inv (h(i := r)) n (life(i := Live)) orig sent" by (rule inv_step [OF inv _ _ i(2) _ own]) (simp_all add: i)
  moreover have "life(i := Live) = life" using i by (simp add: fun_upd_idem_iff)
  ultimately show ?thesis by simp
qed

lemma finish_quiet:
  assumes step: "request_finished expiry eldr i ids h n = Inr (out, h', n')"
    and off: "\<forall>q. kv_transfer_params (h i) = Some q \<longrightarrow> \<not> truthy (jget q ''do_remote_prefill'')"
  shows "(h' = h \<or> h' = h(i := (h i)\<lparr>eldr_signature := None\<rparr>)) \<and> need_recv n' = need_recv n"
proof (cases "kv_transfer_params (h i)")
  case None
  then show ?thesis using step by (simp add: request_finished_def)
next
  case (Some q)
  define delay where "delay = list_ex (\<lambda>group. group \<noteq> []) ids"
  define n1 where "n1 = (if delay then n\<lparr>need_send := od_set (request_id (h i)) expiry (need_send n)\<rparr> else n)"
  have n1: "need_recv n1 = need_recv n" by (simp add: n1_def)
  have off': "\<not> truthy (jget q ''do_remote_prefill'')" using off Some by simp
  show ?thesis
  proof (cases "q = [] \<or> \<not> truthy (jget q ''do_remote_decode'') \<and> \<not> bidirectional n \<or>
      status (h i) \<noteq> FINISHED_LENGTH_CAPPED \<and> status (h i) \<noteq> FINISHED_STOPPED")
    case True
    then show ?thesis using step Some off' by (auto simp: request_finished_def Let_def split: if_splits)
  next
    case False
    then show ?thesis
      using step Some off' n1 unfolding request_finished_def Let_def delay_def [symmetric] n1_def [symmetric]
      by (auto simp: res_bind_eq_Inr split: if_splits option.splits)
  qed
qed

lemma finish_release:
  assumes "request_finished expiry eldr i ids h n = Inr (out, h', n')"
    and "kv_transfer_params (h i) = Some q" "truthy (jget q ''do_remote_prefill'')"
  shows "h' = set_params i (od_set ''do_remote_prefill'' (JBool False) q) h \<and>
     need_recv n' = od_set (request_id (h i)) (i, []) (need_recv n)"
  using assms by (auto simp: request_finished_def Let_def jget_or_def split: if_splits)

lemma inv_finish:
  assumes inv: "nixl_inv h n life orig sent" and i: "life i = Live"
    and step: "request_finished expiry eldr i ids h n = Inr (out, h', n')"
  shows "nixl_inv h' n' (life(i := Done)) orig sent"
proof (cases "\<exists>q. kv_transfer_params (h i) = Some q \<and> truthy (jget q ''do_remote_prefill'')")
  case True
  then obtain q where q: "kv_transfer_params (h i) = Some q" "truthy (jget q ''do_remote_prefill'')" by auto
  define q' where "q' = od_set ''do_remote_prefill'' (JBool False) q"
  note fin = finish_release [OF step q]
  obtain p where p: "orig i = Some p" "pull_state p q Live (queued n sent (request_id (h i)))"
    using nixl_invD(5) [OF inv, of i] i q(1) by (auto simp: req_inv_def split: option.splits)
  have "same_remote p q'" using p(2) by (auto simp: q'_def pull_state_def volatile_keys_def intro!: same_remote_set)
  then have "pull_state p q' Done (queued n' sent (request_id (h i)))"
    using fin by (intro pull_state_queue [OF p(2) q(2)]) (simp_all add: q'_def jget_set)
  then have own: "req_inv (orig i) ((h i)\<lparr>kv_transfer_params := Some q'\<rparr>) Done (queued n' sent (request_id (h i)))"
    using p(1) by (simp add: req_inv_def)
  have "nixl_inv (h(i := (h i)\<lparr>kv_transfer_params := Some q'\<rparr>)) n' (life(i := Done)) orig sent"
    by (rule inv_step [OF inv _ _ _ _ own, of "[]"]) (use fin p(1) i alloc_nameable [OF p(2)] q(2) in simp_all)
  then show ?thesis using fin by (simp add: set_params_def q'_def)
next
  case False
  then have "\<forall>q. kv_transfer_params (h i) = Some q \<longrightarrow> \<not> truthy (jget q ''do_remote_prefill'')" by auto
  note fin = finish_quiet [OF step this]
  define r where "r = (if h' = h then h i else (h i)\<lparr>eldr_signature := None\<rparr>)"
  have r: "h' = h(i := r)" "request_id r = request_id (h i)" "kv_transfer_params r = kv_transfer_params (h i)"
    using fin by (auto simp: r_def)
  have "req_inv (orig i) (h i) Live (queued n sent (request_id (h i)))" using nixl_invD(5) [OF inv, of i] i by simp
  then have "req_inv (orig i) (h i) Done (queued n' sent (request_id (h i)))"
    using False fin by (auto simp: req_inv_def pull_state_def queued_def split: option.splits)
  from req_inv_same [OF this r(3)] show ?thesis
    unfolding r(1) by - (rule inv_step [OF inv], use i r(2) fin in simp_all)
qed

text \<open>Building the metadata moves the queue into the list sent.\<close>

lemma recv_fold:
  assumes "res_fold (recv_one h) xs d = Inr out" "distinct (od_keys d @ map fst xs)"
  shows "od_keys out = od_keys d @ map fst xs \<and> (\<forall>rid m. (rid, m) \<in> set out \<longrightarrow> (rid, m) \<in> set d \<or>
     (\<exists>j ids p rm. (rid, j, ids) \<in> set xs \<and> kv_transfer_params (h j) = Some p \<and> remote_meta p = Inr rm \<and> remote m = Some rm))"
  using assms
proof (induction xs arbitrary: d)
  case Nil
  then show ?case by simp
next
  case (Cons x xs)
  obtain rid j ids where x: "x = (rid, j, ids)" by (cases x)
  from Cons.prems(1) obtain p rm where p: "kv_transfer_params (h j) = Some p" "remote_meta p = Inr rm"
    and rest: "res_fold (recv_one h) xs (od_set rid ((add_new_req ids p)\<lparr>remote := Some rm\<rparr>) d) = Inr out"
    by (auto simp: x recv_one_def [of h "(rid, j, ids)"] add_new_req_to_recv_def res_simps split: option.splits)
  have d: "od_set rid v d = d @ [(rid, v)]" for v
    using Cons.prems(2) x by (intro od_set_fresh) (auto simp: od_get_None)
  have "distinct (od_keys (d @ [(rid, (add_new_req ids p)\<lparr>remote := Some rm\<rparr>)]) @ map fst xs)"
    using Cons.prems(2) by (simp add: x)
  note IH = Cons.IH [OF rest, unfolded d, OF this]
  show ?case
  proof (intro conjI allI impI)
    show "od_keys out = od_keys d @ map fst (x # xs)" using IH x by simp
    fix r m assume "(r, m) \<in> set out"
    with IH have "(r, m) \<in> set (d @ [(rid, (add_new_req ids p)\<lparr>remote := Some rm\<rparr>)]) \<or>
      (\<exists>j ids p rm. (r, j, ids) \<in> set xs \<and> kv_transfer_params (h j) = Some p \<and> remote_meta p = Inr rm \<and> remote m = Some rm)"
      by blast
    then show "(r, m) \<in> set d \<or> (\<exists>j ids p rm. (r, j, ids) \<in> set (x # xs) \<and> kv_transfer_params (h j) = Some p \<and>
        remote_meta p = Inr rm \<and> remote m = Some rm)"
    proof (elim disjE exE conjE)
      assume "(r, m) \<in> set (d @ [(rid, (add_new_req ids p)\<lparr>remote := Some rm\<rparr>)])"
      then have "(r, m) \<in> set d \<or> r = rid \<and> m = (add_new_req ids p)\<lparr>remote := Some rm\<rparr>" by auto
      then show ?thesis using p by (auto simp: x)
    qed (auto simp: x)
  qed
qed

lemma build_recv:
  assumes "build_connector_meta h so n = Inr (m, n')"
  shows "res_fold (recv_one h) (need_recv n) [] = Inr (reqs_to_recv m) \<and> need_recv n' = []"
  using assms by (auto simp: build_connector_meta_def res_simps split: if_splits)

lemma inv_build:
  assumes inv: "nixl_inv h n life orig sent" and step: "build_connector_meta h so n = Inr (m, n')"
  shows "nixl_inv h n' life orig (sent @ reqs_to_recv m)"
proof -
  note I = nixl_invD [OF inv]
  have b: "res_fold (recv_one h) (need_recv n) [] = Inr (reqs_to_recv m)" "need_recv n' = []"
    using build_recv [OF step] by auto
  have keys: "od_keys (reqs_to_recv m) = od_keys (need_recv n)"
    and mem: "\<And>rid x. (rid, x) \<in> set (reqs_to_recv m) \<Longrightarrow> \<exists>j ids p rm. (rid, j, ids) \<in> set (need_recv n) \<and>
       kv_transfer_params (h j) = Some p \<and> remote_meta p = Inr rm \<and> remote x = Some rm"
    using recv_fold [OF b(1)] I(2) by (auto simp: od_ok_def)
  have q: "queued n' (sent @ reqs_to_recv m) rid = queued n sent rid" for rid
    by (simp add: queued_def b(2) keys)
  have s: "\<exists>j p rm. life j \<noteq> Absent \<and> rid = request_id (h j) \<and> orig j = Some p \<and> remote x = Some rm \<and> remote_meta p = Inr rm"
    if elem: "(rid, x) \<in> set (reqs_to_recv m)" for rid x
  proof -
    obtain j ids q rm where j: "(rid, j, ids) \<in> set (need_recv n)" "kv_transfer_params (h j) = Some q"
      "remote_meta q = Inr rm" "remote x = Some rm" using mem [OF elem] by blast
    from I(3) [OF j(1)] have a: "life j \<noteq> Absent" "rid = request_id (h j)" by auto
    then obtain p where "orig j = Some p" "same_remote p q"
      using I(5) [OF a(1)] j(2) by (auto simp: req_inv_def pull_state_def split: option.splits)
    then show ?thesis using a j same_remote_meta [of p q] by auto
  qed
  show ?thesis unfolding nixl_inv_def b(2) q using I(1,5) I(4) s by auto
qed

lemma run_inv: "nixl_run h n life orig sent \<Longrightarrow> nixl_inv h n life orig sent"
proof (induction rule: nixl_run.induct)
  case (start a n h orig)
  then have "need_recv n = []" by (auto simp: make_nixl_def split: if_splits)
  then show ?case by (simp add: nixl_inv_def)
next
  case (admit h n life orig sent i r)
  show ?case by (rule inv_admit [OF admit(4,2,3)])
next
  case (match h n life orig sent i c x r)
  from matched_params [OF match(3)] show ?case by - (rule inv_touch [OF match(4,2)], auto)
next
  case (alloc h n life orig sent i ids k h' n')
  show ?case by (rule inv_alloc [OF alloc(4,2,3)])
next
  case (progress h n life orig sent i r)
  from progress(3) show ?case by - (rule inv_touch [OF progress(4,2)], auto simp: progressed_def)
next
  case (build h n life orig sent so m n')
  show ?case by (rule inv_build [OF build(3,2)])
next
  case (finish h n life orig sent i expiry eldr ids out h' n')
  show ?case by (rule inv_finish [OF finish(4,2,3)])
qed

section \<open>Properties\<close>

text \<open>The metadata can be built as long as every consumer's parameters are complete.\<close>

lemma remote_meta_total: "truthy (jget p ''remote_block_ids'') \<Longrightarrow> has_remote p \<Longrightarrow> \<exists>rm. remote_meta p = Inr rm"
proof -
  assume a: "truthy (jget p ''remote_block_ids'')" "has_remote p"
  have "\<exists>v. od_get p k = Some v" if "k \<in> set remote_keys" for k
    using a(2) that od_get_None [of p k] by (auto simp: has_remote_def list_all_iff)
  moreover have "\<exists>v. od_get p ''remote_block_ids'' = Some v" using a(1) by (auto simp: jget_or_def split: option.splits)
  ultimately obtain b e r host port where "od_get p ''remote_block_ids'' = Some b" "od_get p ''remote_engine_id'' = Some e"
    "od_get p ''remote_request_id'' = Some r" "od_get p ''remote_host'' = Some host" "od_get p ''remote_port'' = Some port"
    unfolding remote_keys_def by (metis list.set_intros)
  then show ?thesis by (simp add: remote_meta_def jitem_def)
qed

lemma recv_total:
  assumes "\<forall>(rid, j, ids) \<in> set xs. \<exists>p rm. kv_transfer_params (h j) = Some p \<and> remote_meta p = Inr rm"
  shows "\<exists>out. res_fold (recv_one h) xs d = Inr out"
  using assms
proof (induction xs arbitrary: d)
  case Nil
  then show ?case by simp
next
  case (Cons x xs)
  then show ?case
    by (auto simp: recv_one_def [of h x] add_new_req_to_recv_def res_simps split: prod.splits)
qed

lemma run_recv_total:
  assumes inv: "nixl_inv h n life orig sent"
    and full: "\<forall>j p. life j \<noteq> Absent \<and> orig j = Some p \<and> truthy (jget p ''do_remote_prefill'') \<longrightarrow> remote_pull p"
  shows "\<exists>d. res_fold (recv_one h) (need_recv n) [] = Inr d"
proof (rule recv_total, clarify)
  fix rid j ids assume "(rid, j, ids) \<in> set (need_recv n)"
  from nixl_invD(3) [OF inv this] obtain p where j: "life j \<noteq> Absent" "orig j = Some p" "nameable p" by auto
  then have c: "truthy (jget p ''remote_block_ids'')" "has_remote p" using full by (auto simp: nameable_def remote_pull_def)
  obtain q where q: "kv_transfer_params (h j) = Some q" "same_remote p q"
    using nixl_invD(5) [OF inv j(1)] j(2) by (auto simp: req_inv_def pull_state_def)
  with remote_meta_total [OF c] same_remote_meta [of p q] show "\<exists>p rm. kv_transfer_params (h j) = Some p \<and> remote_meta p = Inr rm"
    by auto
qed


text \<open>An entry whose parameters lack a field makes the metadata of the step fail.\<close>

lemma recv_fold_fails:
  assumes "(rid, j, ids) \<in> set xs" "kv_transfer_params (h j) = Some p" "remote_meta p = Inl e"
  shows "\<exists>e. res_fold (recv_one h) xs d = Inl e"
  using assms(1)
proof (induction xs arbitrary: d)
  case Nil
  then show ?case by simp
next
  case (Cons x xs)
  show ?case
  proof (cases "recv_one h x d")
    case (Inl e)
    then show ?thesis by (simp add: res_simps)
  next
    case (Inr d')
    then have "x \<noteq> (rid, j, ids)" using assms(2,3) by (auto simp: recv_one_def add_new_req_to_recv_def res_simps)
    then show ?thesis using Cons Inr by (simp add: res_simps)
  qed
qed

lemma remote_meta_missing: "k \<in> set (''remote_block_ids'' # remote_keys) \<Longrightarrow> od_get p k = None \<Longrightarrow> remote_meta p = Inl KeyError"
  by (auto simp: remote_meta_def remote_keys_def jitem_def res_bind_def split: option.splits)

lemma incomplete_release_fails:
  assumes "kv_transfer_params (h i) = Some p" "truthy (jget p ''do_remote_prefill'')"
    and "k \<in> set (''remote_block_ids'' # remote_keys)" "od_get p k = None"
  shows "\<exists>h' n'. request_finished expiry eldr i ids h n = Inr ((False, None), h', n') \<and>
     (\<forall>so. \<exists>e. build_connector_meta h' so n' = Inl e)"
proof -
  define p' where "p' = od_set ''do_remote_prefill'' (JBool False) p"
  define h' where "h' = set_params i p' h"
  define n' where "n' = n\<lparr>need_recv := od_set (request_id (h i)) (i, []) (need_recv n)\<rparr>"
  have fin: "request_finished expiry eldr i ids h n = Inr ((False, None), h', n')"
    using assms(1,2) by (auto simp: request_finished_def Let_def h'_def n'_def p'_def jget_or_def)
  have "k \<noteq> ''do_remote_prefill''" using assms(3) by (auto simp: remote_keys_def)
  then have "od_get p' k = None" unfolding p'_def od_get_set using assms(4) by metis
  with assms(3) have "remote_meta p' = Inl KeyError" by (rule remote_meta_missing)
  moreover have "(request_id (h i), i, []) \<in> set (need_recv n')"
    using od_get_set [of "request_id (h i)" "(i, [])" "need_recv n" "request_id (h i)"] map_of_SomeD by (fastforce simp: n'_def)
  moreover have "kv_transfer_params (h' i) = Some p'" by (simp add: h'_def set_params_def)
  ultimately obtain e where "res_fold (recv_one h') (need_recv n') [] = Inl e" using recv_fold_fails by metis
  then have "build_connector_meta h' so n' = Inl e" for so by (simp add: build_connector_meta_def res_simps)
  with fin show ?thesis by blast
qed

definition demo_args :: nixl_args where
  "demo_args = \<lparr>a_block_size = 16, a_engine_id = ''d'', a_host = ''h'', a_port = 5600, a_dp_index = 0, a_transfer_config = True,
     a_device_type = ''cuda'', a_buffer_device = ''cuda'', a_disable_hybrid = True, a_groups = [FullAttentionSpec 16],
     a_recompute_threshold = 64, a_bidirectional = False, a_tp_size = 1\<rparr>"

definition demo_params :: obj where
  "demo_params = [(''do_remote_prefill'', JBool True), (''remote_block_ids'', JArr [JArr [JInt 7]]), (''remote_engine_id'', JStr ''p''),
     (''remote_request_id'', JStr ''r''), (''remote_host'', JStr ''h''), (''remote_port'', JInt 5601)]"

definition demo_nreq :: "string \<Rightarrow> obj \<Rightarrow> nreq" where
  "demo_nreq rid p = \<lparr>request_id = rid, kv_transfer_params = Some p, prompt_token_ids = Some [1, 2], prompt_embeds = None,
     all_token_ids = [1, 2], output_token_ids = [], num_prompt_tokens = 2, max_tokens = 8, num_computed_tokens = 0,
     status = WAITING, stop_reason = JNull, eldr_signature = None\<rparr>"

text \<open>One request is allocated, its pull is sent and it finishes; another is aborted before it is scheduled.\<close>

lemma demo_nixl_run:
  "\<exists>h n life orig sent. nixl_run h (n :: nat nixl) life orig sent \<and> life = (\<lambda>_. Absent)(0 := Done, 1 := Done) \<and>
     orig = (\<lambda>_. None)(0 := Some demo_params, 1 := Some demo_params) \<and> request_id (h 0) = ''a'' \<and> od_keys sent = [''a'']"
proof -
  note defs = demo_params_def demo_nreq_def set_params_def jget_or_def has_remote_def remote_keys_def pulls_remote_def
    get_sw_clipped_blocks_def
  define n0 :: "nat nixl" where "n0 = (case make_nixl demo_args of Inr n \<Rightarrow> n | Inl _ \<Rightarrow> undefined)"
  have n0: "make_nixl demo_args = Inr n0" by (simp add: n0_def make_nixl_def demo_args_def)
  have f: "need_recv n0 = []" "use_host_buffer n0 = False" "is_hma_required n0 = False" "bidirectional n0 = False"
    by (simp_all add: n0_def make_nixl_def demo_args_def)
  let ?h1 = "(\<lambda>_. demo_nreq [] [])(0 := demo_nreq ''a'' demo_params)"
  let ?q = "od_set ''_remote_blocks_processed'' (JBool True) (od_set ''do_remote_prefill'' (JBool False) demo_params)"
  let ?h2 = "set_params 0 ?q ?h1"
  let ?n2 = "n0\<lparr>need_recv := [(''a'', 0, [[3]])]\<rparr>"
  have r1: "nixl_run ?h1 n0 ((\<lambda>_. Absent)(0 := Live)) ((\<lambda>_. None)(0 := Some demo_params)) []"
    using nixl_run.admit [OF nixl_run.start [OF n0, of "\<lambda>_. demo_nreq [] []" "\<lambda>_. None"], where i = 0 and r = "demo_nreq ''a'' demo_params"]
    by (simp add: demo_nreq_def)
  have a2: "update_state_after_alloc 0 [[3]] 1 ?h1 n0 = Inr (?h2, ?n2)"
    by (simp add: update_state_after_alloc_def Let_def f defs)
  have r2: "nixl_run ?h2 ?n2 ((\<lambda>_. Absent)(0 := Live)) ((\<lambda>_. None)(0 := Some demo_params)) []"
    by (rule nixl_run.alloc [OF r1 _ a2]) simp
  define so where "so = \<lparr>scheduled_new_reqs = [], cached_req_ids = [], cached_new_block_ids = [], num_scheduled_tokens = []\<rparr>"
  have "\<exists>m n3. build_connector_meta ?h2 so ?n2 = Inr (m, n3) \<and> od_keys (reqs_to_recv m) = [''a''] \<and> need_recv n3 = []"
    by (simp add: build_connector_meta_def recv_one_def add_new_req_to_recv_def remote_meta_def jitem_def f defs)
  then obtain m n3 where m: "build_connector_meta ?h2 so ?n2 = Inr (m, n3)" "od_keys (reqs_to_recv m) = [''a'']" "need_recv n3 = []"
    by (elim exE conjE)
  have r3: "nixl_run ?h2 n3 ((\<lambda>_. Absent)(0 := Live)) ((\<lambda>_. None)(0 := Some demo_params)) (reqs_to_recv m)"
    using nixl_run.build [OF r2 m(1)] by simp
  let ?h4 = "?h2(1 := demo_nreq ''b'' demo_params)"
  have r4: "nixl_run ?h4 n3 ((\<lambda>_. Absent)(0 := Live, 1 := Live)) ((\<lambda>_. None)(0 := Some demo_params, 1 := Some demo_params)) (reqs_to_recv m)"
    using nixl_run.admit [OF r3, where i = 1 and r = "demo_nreq ''b'' demo_params"] by (simp add: demo_nreq_def set_params_def split: if_splits)
  have "\<exists>h5 n5. request_finished 0 False 1 [] ?h4 n3 = Inr ((False, None), h5, n5) \<and> h5 0 = ?h4 0"
    by (simp add: request_finished_def Let_def defs)
  then obtain h5 n5 where fin1: "request_finished 0 False 1 [] ?h4 n3 = Inr ((False, None), h5, n5)" "h5 0 = ?h4 0" by (elim exE conjE)
  have r5: "nixl_run h5 n5 ((\<lambda>_. Absent)(0 := Live, 1 := Done)) ((\<lambda>_. None)(0 := Some demo_params, 1 := Some demo_params)) (reqs_to_recv m)"
    using nixl_run.finish [OF r4 _ fin1(1)] by simp
  have "\<exists>out h6 n6. request_finished 0 False 0 [] h5 n5 = Inr (out, h6, n6) \<and> h6 = h5"
    by (auto simp: request_finished_def Let_def fin1(2) defs)
  then obtain out n6 where fin0: "request_finished 0 False 0 [] h5 n5 = Inr (out, h5, n6)" by (elim exE conjE) simp
  have "nixl_run h5 n6 ((\<lambda>_. Absent)(0 := Done, 1 := Done)) ((\<lambda>_. None)(0 := Some demo_params, 1 := Some demo_params)) (reqs_to_recv m)"
    using nixl_run.finish [OF r5 _ fin0] by (simp add: fun_upd_twist)
  moreover have "request_id (h5 0) = ''a''" using fin1(2) by (simp add: set_params_def demo_nreq_def)
  ultimately show ?thesis using m(2)
    by (intro exI [of _ h5] exI [of _ n6] exI [of _ "(\<lambda>_. Absent)(0 := Done, 1 := Done)"] exI [of _ "reqs_to_recv m"]
        exI [of _ "(\<lambda>_. None)(0 := Some demo_params, 1 := Some demo_params)"]) simp
qed


end
