(* ===== verification/Numpy.thy ===== *)
theory Numpy
  imports Json
begin

text \<open>
  What the ELDR sources use of NumPy, SciPy and the random-number generators. Floating-point
  numbers are a type parameter; every numerical routine is a field of the record \<^verbatim>\<open>numpy\<close>,
  which the definitions of the components take as an argument, so that nothing is assumed about
  rounding. The behaviour the code relies on is stated by named predicates on the record
  (\<^verbatim>\<open>np_order\<close>, \<^verbatim>\<open>np_amax_ok\<close>, ...), which are hypotheses of the properties that need them; an
  integer instance shows that they can hold together. Arrays are lists of rows, or a shape with
  its row-major data where the code inspects the shape.
\<close>

section \<open>Numerical routines\<close>

record 'f numpy =
  np_le :: "'f \<Rightarrow> 'f \<Rightarrow> bool"
  np_isnan :: "'f \<Rightarrow> bool"
  np_isfinite :: "'f \<Rightarrow> bool"
  np_zero :: 'f
  np_one :: 'f
  np_eps :: 'f
  np_add :: "'f \<Rightarrow> 'f \<Rightarrow> 'f"
  np_sub :: "'f \<Rightarrow> 'f \<Rightarrow> 'f"
  np_mul :: "'f \<Rightarrow> 'f \<Rightarrow> 'f"
  np_div :: "'f \<Rightarrow> 'f \<Rightarrow> 'f"
  np_neg :: "'f \<Rightarrow> 'f"
  np_of_int :: "int \<Rightarrow> 'f"
  np_maximum :: "'f \<Rightarrow> 'f \<Rightarrow> 'f"
  np_amax :: "'f list \<Rightarrow> 'f"
  np_argmin :: "'f list \<Rightarrow> nat"
  np_argmax :: "'f list \<Rightarrow> nat"
  np_sum :: "'f list \<Rightarrow> 'f"
  np_norm :: "'f list \<Rightarrow> 'f"
  np_dot :: "'f list \<Rightarrow> 'f list \<Rightarrow> 'f"
  np_sqdist :: "'f list \<Rightarrow> 'f list \<Rightarrow> 'f"
  np_amin :: "'f list \<Rightarrow> 'f"
  np_mean0 :: "'f list list \<Rightarrow> 'f list"
  np_allclose :: "'f list list \<Rightarrow> 'f list list \<Rightarrow> bool"
  np_unit_norms :: "'f list \<Rightarrow> bool"
  np_assignment :: "'f list list \<Rightarrow> nat list \<times> nat list"
  np_empty_like :: "'f list list \<Rightarrow> 'f list list"

definition np_order :: "'f numpy \<Rightarrow> bool" where
  "np_order np \<longleftrightarrow>
     (\<forall>x. \<not> np_isnan np x \<longrightarrow> np_le np x x) \<and>
     (\<forall>x y. \<not> np_isnan np x \<longrightarrow> \<not> np_isnan np y \<longrightarrow> np_le np x y \<or> np_le np y x) \<and>
     (\<forall>x y z. np_le np x y \<longrightarrow> np_le np y z \<longrightarrow> np_le np x z)"

text \<open>\<^verbatim>\<open>max\<close>, \<^verbatim>\<open>argmin\<close> and \<^verbatim>\<open>argmax\<close> of a non-empty array without NaN.\<close>

definition np_amax_ok :: "'f numpy \<Rightarrow> bool" where
  "np_amax_ok np \<longleftrightarrow> (\<forall>xs. xs \<noteq> [] \<longrightarrow> (\<forall>x \<in> set xs. \<not> np_isnan np x) \<longrightarrow>
     np_amax np xs \<in> set xs \<and> (\<forall>x \<in> set xs. np_le np x (np_amax np xs)))"

definition np_argmin_ok :: "'f numpy \<Rightarrow> bool" where
  "np_argmin_ok np \<longleftrightarrow> (\<forall>xs. xs \<noteq> [] \<longrightarrow> (\<forall>x \<in> set xs. \<not> np_isnan np x) \<longrightarrow>
     np_argmin np xs < length xs \<and> (\<forall>x \<in> set xs. np_le np (xs ! np_argmin np xs) x) \<and>
     (\<forall>j < np_argmin np xs. \<not> np_le np (xs ! j) (xs ! np_argmin np xs)))"

lemma np_argmin_okD:
  assumes "np_argmin_ok np" "xs \<noteq> []" "\<forall>x \<in> set xs. \<not> np_isnan np x"
  shows "np_argmin np xs < length xs" "\<forall>x \<in> set xs. np_le np (xs ! np_argmin np xs) x"
    "\<forall>j < np_argmin np xs. \<not> np_le np (xs ! j) (xs ! np_argmin np xs)"
  using assms(1) [unfolded np_argmin_ok_def, rule_format, OF assms(2)] assms(3) by blast+

definition np_argmax_ok :: "'f numpy \<Rightarrow> bool" where
  "np_argmax_ok np \<longleftrightarrow> (\<forall>xs. xs \<noteq> [] \<longrightarrow> np_argmax np xs < length xs)"

text \<open>Subtracting a finite non-negative number rounds to a number that is not above the minuend.\<close>

definition np_sub_ok :: "'f numpy \<Rightarrow> bool" where
  "np_sub_ok np \<longleftrightarrow> (\<forall>x t. \<not> np_isnan np x \<longrightarrow> np_isfinite np t \<longrightarrow> np_le np (np_zero np) t \<longrightarrow>
     \<not> np_isnan np (np_sub np x t) \<and> np_le np (np_sub np x t) x)"

text \<open>Conversion of an integer to a double is never NaN and is exact up to \<open>2 ^ 53\<close>.\<close>

definition np_of_int_ok :: "'f numpy \<Rightarrow> bool" where
  "np_of_int_ok np \<longleftrightarrow> (\<forall>n. \<not> np_isnan np (np_of_int np n)) \<and>
     (\<forall>a b. \<bar>a\<bar> \<le> 2 ^ 53 \<longrightarrow> \<bar>b\<bar> \<le> 2 ^ 53 \<longrightarrow> (np_le np (np_of_int np a) (np_of_int np b) \<longleftrightarrow> a \<le> b))"

text \<open>
  Division of integers that doubles represent never rounds below an integer lower bound of the
  quotient, and scaling a non-negative number by a finite factor of at least one never reduces it:
  rounding is monotone and both bounds are representable.
\<close>

definition np_div_ok :: "'f numpy \<Rightarrow> bool" where
  "np_div_ok np \<longleftrightarrow> (\<forall>m n total. 0 \<le> m \<longrightarrow> 0 < n \<longrightarrow> m * n \<le> total \<longrightarrow> total \<le> 2 ^ 53 \<longrightarrow>
     np_le np (np_of_int np m) (np_div np (np_of_int np total) (np_of_int np n)))"

definition np_scale_ok :: "'f numpy \<Rightarrow> bool" where
  "np_scale_ok np \<longleftrightarrow> (\<forall>x c. np_le np (np_of_int np 0) x \<longrightarrow> np_isfinite np c \<longrightarrow> np_le np (np_one np) c \<longrightarrow>
     np_le np x (np_mul np x c))"

text \<open>
  \<^verbatim>\<open>scipy.optimize.linear_sum_assignment\<close> on an \<open>n \<times> m\<close> cost with \<open>n \<le> m\<close>: every row is matched, in
  row order, to a column of its own.
\<close>

definition np_assignment_ok :: "'f numpy \<Rightarrow> bool" where
  "np_assignment_ok np \<longleftrightarrow> (\<forall>cost m. (\<forall>row \<in> set cost. length row = m) \<longrightarrow> length cost \<le> m \<longrightarrow>
     (case np_assignment np cost of (rows, cols) \<Rightarrow>
        rows = [0..<length cost] \<and> length cols = length cost \<and> distinct cols \<and> (\<forall>j \<in> set cols. j < m)))"

lemma np_assignment_okD:
  assumes "np_assignment_ok np" "\<forall>row \<in> set cost. length row = m" "length cost \<le> m"
    "np_assignment np cost = (rows, cols)"
  shows "rows = [0..<length cost]" "length cols = length cost" "distinct cols" "\<forall>j \<in> set cols. j < m"
  using assms(1) [unfolded np_assignment_ok_def, rule_format, OF assms(2) [rule_format] assms(3)] assms(4) by auto

text \<open>The mean over the rows of a non-empty matrix has the width of the matrix.\<close>

definition np_mean_ok :: "'f numpy \<Rightarrow> bool" where
  "np_mean_ok np \<longleftrightarrow> (\<forall>xs d. xs \<noteq> [] \<longrightarrow> (\<forall>x \<in> set xs. length x = d) \<longrightarrow> length (np_mean0 np xs) = d)"

text \<open>\<^verbatim>\<open>empty_like\<close> keeps the number of rows; the contents are unspecified.\<close>

definition np_empty_ok :: "'f numpy \<Rightarrow> bool" where
  "np_empty_ok np \<longleftrightarrow> (\<forall>xs. length (np_empty_like np xs) = length xs)"

text \<open>Subtracting the same number from two numbers keeps their order.\<close>

definition np_sub_mono :: "'f numpy \<Rightarrow> bool" where
  "np_sub_mono np \<longleftrightarrow> (\<forall>x y w. np_le np x y \<longrightarrow> np_isfinite np w \<longrightarrow> np_le np (np_sub np x w) (np_sub np y w))"

text \<open>A finite number is not NaN, and zero is finite.\<close>

definition np_finite_ok :: "'f numpy \<Rightarrow> bool" where
  "np_finite_ok np \<longleftrightarrow> (\<forall>x. np_isfinite np x \<longrightarrow> \<not> np_isnan np x) \<and> np_isfinite np (np_zero np)"

text \<open>The strict order of floating-point numbers; a NaN is below nothing.\<close>

definition np_lt :: "'f numpy \<Rightarrow> 'f \<Rightarrow> 'f \<Rightarrow> bool" where
  "np_lt np x y \<longleftrightarrow> np_le np x y \<and> \<not> np_le np y x"

section \<open>Arrays\<close>

text \<open>\<^verbatim>\<open>flatnonzero\<close> of a condition on an array: the indices where it holds, increasing.\<close>

definition flatnonzero :: "('a \<Rightarrow> bool) \<Rightarrow> 'a list \<Rightarrow> nat list" where
  "flatnonzero P xs = filter (\<lambda>i. P (xs ! i)) [0..<length xs]"

lemma flatnonzero_set: "set (flatnonzero P xs) = {i. i < length xs \<and> P (xs ! i)}"
  by (auto simp: flatnonzero_def)

datatype 'f nd = Nd (nd_shape: "nat list") (nd_data: "'f list")

definition nd_ok :: "'f nd \<Rightarrow> bool" where
  "nd_ok a \<longleftrightarrow> length (nd_data a) = prod_list (nd_shape a)"

text \<open>The rows of row-major data: \<open>n\<close> rows of \<open>w\<close> numbers.\<close>

primrec nd_rows :: "nat \<Rightarrow> nat \<Rightarrow> 'f list \<Rightarrow> 'f list list" where
  "nd_rows 0 w xs = []"
| "nd_rows (Suc n) w xs = take w xs # nd_rows n w (drop w xs)"

lemma nd_rows_length [simp]: "length (nd_rows n w xs) = n"
  by (induction n arbitrary: xs) simp_all

lemma nd_rows_width: "length xs = n * w \<Longrightarrow> r \<in> set (nd_rows n w xs) \<Longrightarrow> length r = w"
proof (induction n arbitrary: xs)
  case 0
  then show ?case by simp
next
  case (Suc n)
  then have "length (drop w xs) = n * w" "w \<le> length xs" by simp_all
  then show ?case using Suc.IH [of "drop w xs"] Suc.prems(2) by auto
qed

text \<open>Dividing a row by its norm clipped from below.\<close>

definition unit_row :: "'f numpy \<Rightarrow> 'f list \<Rightarrow> 'f list" where
  "unit_row np v = (let s = np_maximum np (np_norm np v) (np_eps np) in map (\<lambda>x. np_div np x s) v)"

lemma unit_row_length [simp]: "length (unit_row np v) = length v"
  by (simp add: unit_row_def Let_def)

section \<open>Random choice\<close>

text \<open>
  A generator of the standard library or of NumPy: a state and the index it draws below a bound,
  and two distinct indices for \<^verbatim>\<open>sample(population, 2)\<close>.
\<close>

record 's rng =
  randbelow :: "'s \<Rightarrow> nat \<Rightarrow> nat \<times> 's"
  sample2 :: "'s \<Rightarrow> nat \<Rightarrow> nat \<times> nat \<times> 's"

definition rng_ok :: "'s rng \<Rightarrow> bool" where
  "rng_ok g \<longleftrightarrow> (\<forall>s n. 0 < n \<longrightarrow> fst (randbelow g s n) < n) \<and>
     (\<forall>s n. 2 \<le> n \<longrightarrow> (case sample2 g s n of (a, b, _) \<Rightarrow> a < n \<and> b < n \<and> a \<noteq> b))"

section \<open>An instance over the integers\<close>

text \<open>
  Exact integer arithmetic, with which the predicates above can be satisfied and the definitions
  can be evaluated. The assignment matches row \<open>i\<close> to column \<open>i\<close>.
\<close>

definition least_index :: "(int \<Rightarrow> int \<Rightarrow> bool) \<Rightarrow> int list \<Rightarrow> nat" where
  "least_index better xs =
     fold (\<lambda>i b. if better (xs ! i) (xs ! b) then i else b) [0..<length xs] 0"

definition int_np :: "int numpy" where
  "int_np = \<lparr>np_le = (\<le>), np_isnan = (\<lambda>_. False), np_isfinite = (\<lambda>_. True), np_zero = 0, np_one = 1,
     np_eps = 1, np_add = (+), np_sub = (-), np_mul = (*), np_div = (\<lambda>x y. x div y), np_neg = uminus,
     np_of_int = (\<lambda>n. n), np_maximum = max, np_amax = (\<lambda>xs. foldr max xs (hd xs)),
     np_argmin = least_index (<), np_argmax = least_index (>), np_sum = sum_list,
     np_norm = (\<lambda>v. sum_list (map abs v)), np_dot = (\<lambda>v w. sum_list (map2 (*) v w)),
     np_sqdist = (\<lambda>v w. sum_list (map2 (\<lambda>a b. (a - b) * (a - b)) v w)),
     np_amin = (\<lambda>xs. foldr min xs (hd xs)), np_mean0 = hd, np_allclose = (=),
     np_unit_norms = (\<lambda>ns. list_all (\<lambda>n. n = 1) ns),
     np_assignment = (\<lambda>cost. ([0..<length cost], [0..<length cost])),
     np_empty_like = map (map (\<lambda>_. 7))\<rparr>"

lemma least_index_spec:
  assumes lin: "\<And>x y. better x y \<longleftrightarrow> f x < (f y :: int)" and "xs \<noteq> []"
  shows "least_index better xs < length xs \<and> (\<forall>x \<in> set xs. f (xs ! least_index better xs) \<le> f x) \<and>
     (\<forall>j < least_index better xs. f (xs ! least_index better xs) < f (xs ! j))"
proof -
  have "n \<le> length xs \<Longrightarrow>
     (let m = fold (\<lambda>i b. if better (xs ! i) (xs ! b) then i else b) [0..<n] 0
      in m < length xs \<and> (\<forall>j < n. f (xs ! m) \<le> f (xs ! j)) \<and> (\<forall>j < m. f (xs ! m) < f (xs ! j)) \<and> (m < n \<or> m = 0))" for n
  proof (induction n)
    case 0
    then show ?case using assms(2) by simp
  next
    case (Suc n)
    then show ?case by (auto simp: Let_def lin less_Suc_eq split: if_splits)
  qed
  from this [of "length xs"] show ?thesis by (auto simp: least_index_def Let_def in_set_conv_nth)
qed

lemma int_np_ok:
  "np_order int_np" "np_amax_ok int_np" "np_argmin_ok int_np" "np_argmax_ok int_np" "np_sub_ok int_np"
  "np_of_int_ok int_np" "np_assignment_ok int_np" "np_mean_ok int_np" "np_div_ok int_np" "np_scale_ok int_np"
  "np_empty_ok int_np" "np_sub_mono int_np" "np_finite_ok int_np"
proof -
  have m: "foldr max xs (d :: int) \<in> insert d (set xs) \<and> (\<forall>x \<in> insert d (set xs). x \<le> foldr max xs d)" for xs d
    by (induction xs) (auto simp: max_def)
  show "np_amax_ok int_np"
    unfolding np_amax_ok_def using m by (auto simp: int_np_def) (metis hd_in_set insert_absorb m)
  show "np_argmin_ok int_np"
    using least_index_spec [of "(<)" "\<lambda>x. x"] by (auto simp: np_argmin_ok_def int_np_def) force
  show "np_argmax_ok int_np"
    using least_index_spec [of "(>)" uminus] by (auto simp: np_argmax_ok_def int_np_def)
  show "np_assignment_ok int_np" by (auto simp: np_assignment_ok_def int_np_def)
  show "np_mean_ok int_np" by (auto simp: np_mean_ok_def int_np_def)
  show "np_div_ok int_np"
    by (auto simp: np_div_ok_def int_np_def) (metis nonzero_mult_div_cancel_right not_less_iff_gr_or_eq zdiv_mono1)
  show "np_scale_ok int_np" by (auto simp: np_scale_ok_def int_np_def mult_le_cancel_left1)
qed (auto simp: np_order_def np_sub_ok_def np_of_int_ok_def np_empty_ok_def np_sub_mono_def np_finite_ok_def int_np_def)

definition count_rng :: "nat rng" where
  "count_rng = \<lparr>randbelow = (\<lambda>s n. (s mod n, Suc s)), sample2 = (\<lambda>s n. (s mod n, Suc s mod n, Suc s))\<rparr>"

lemma count_rng_ok: "rng_ok count_rng"
  by (auto simp: rng_ok_def count_rng_def mod_Suc intro!: Suc_lessI mod_less_divisor)

end
