(* ===== verification/Clustering.thy ===== *)
theory Clustering
  imports Numpy
begin

text \<open>
  Signature geometry, clustering and centroid validation (\<^verbatim>\<open>eldr/serving/clustering.py\<close>).
  The parsed JSON file is an object of \<^verbatim>\<open>Json\<close>; the arrays the loader adds to it are fields of the
  record \<^verbatim>\<open>centroid_data\<close>. Conversion of a JSON value to a float32 array is a parameter \<open>asarray\<close>.
\<close>

section \<open>Normalisation\<close>

definition normalize_counts :: "'f numpy \<Rightarrow> 'f nd \<Rightarrow> 'f nd res" where
  "normalize_counts np counts =
     (case nd_shape counts of
        [l, e] \<Rightarrow> Inr (Nd [l * e] (unit_row np (nd_data counts)))
      | [n, l, e] \<Rightarrow>
          if n = 0 then Inl (ValueError ''cannot reshape array of size 0'')
          else Inr (Nd [n, l * e] (concat (map (unit_row np) (nd_rows n (l * e) (nd_data counts)))))
      | _ \<Rightarrow> Inl (ValueError ''Counts must have shape [L,E] or [N,L,E]''))"

section \<open>Balanced spherical k-means\<close>

text \<open>The cluster of each slot: \<^verbatim>\<open>np.repeat(np.arange(k), cap)\<close>.\<close>

definition cluster_of_slot :: "nat \<Rightarrow> nat \<Rightarrow> nat list" where
  "cluster_of_slot k cap = concat (map (replicate cap) [0..<k])"

definition balanced_assign :: "'f numpy \<Rightarrow> 'f list list \<Rightarrow> 'f list list \<Rightarrow> nat list \<Rightarrow> nat list" where
  "balanced_assign np X C slots =
     (let D = map (\<lambda>x. map (\<lambda>c. np_sub np (np_one np) (np_dot np x c)) C) X;
          cost = map (\<lambda>row. map (\<lambda>c. row ! c) slots) D;
          col = snd (np_assignment np cost)
      in map (\<lambda>j. slots ! j) col)"

text \<open>\<^verbatim>\<open>X[labels == c]\<close>, and the centroid of each cluster, an empty cluster keeping its own.\<close>

definition members :: "'f list list \<Rightarrow> nat list \<Rightarrow> nat \<Rightarrow> 'f list list" where
  "members X labels c = map fst (filter (\<lambda>(_, a). a = c) (zip X labels))"

definition recentre :: "'f numpy \<Rightarrow> 'f list list \<Rightarrow> nat list \<Rightarrow> 'f list list \<Rightarrow> 'f list list" where
  "recentre np X labels C =
     map (\<lambda>c. unit_row np (if c \<in> set labels then np_mean0 np (members X labels c) else C ! c)) [0..<length C]"

primrec balanced_loop ::
  "'f numpy \<Rightarrow> 'f list list \<Rightarrow> nat list \<Rightarrow> nat \<Rightarrow> 'f list list \<Rightarrow> 'f list list" where
  "balanced_loop np X slots 0 C = C"
| "balanced_loop np X slots (Suc n) C =
     (let newC = recentre np X (balanced_assign np X C slots) C
      in if np_allclose np newC C then newC else balanced_loop np X slots n newC)"

definition balanced_spherical_kmeans ::
  "'f numpy \<Rightarrow> 'f list list \<Rightarrow> 'f list list \<Rightarrow> nat \<Rightarrow> 'f list list res" where
  "balanced_spherical_kmeans np X C iters =
     (let n = length X; k = length C in
      if k = 0 then Inl ZeroDivisionError
      else
        let cap = nat (- (- int n div int k))
        in Inr (balanced_loop np X (cluster_of_slot k cap) iters (map (unit_row np) C)))"

section \<open>Seeding and the unconstrained variant\<close>

text \<open>\<open>draw g s ps\<close> is \<^verbatim>\<open>rng.choice(len(X), p=ps)\<close>.\<close>

primrec seed_indices ::
  "'f numpy \<Rightarrow> 's rng \<Rightarrow> ('s \<Rightarrow> 'f list \<Rightarrow> nat \<times> 's) \<Rightarrow> 'f list list \<Rightarrow> nat \<Rightarrow> nat list \<Rightarrow> 's \<Rightarrow> nat list" where
  "seed_indices np g draw X 0 indices s = indices"
| "seed_indices np g draw X (Suc n) indices s =
     (let distances = map (\<lambda>x. np_amin np (map (\<lambda>i. np_sqdist np x (X ! i)) indices)) X;
          total = np_sum np distances;
          (i, s') = (if \<not> np_le np total (np_zero np)
                     then draw s (map (\<lambda>d. np_div np d total) distances)
                     else randbelow g s (length X))
      in seed_indices np g draw X n (indices @ [i]) s')"

definition initialize_centroids ::
  "'f numpy \<Rightarrow> 's rng \<Rightarrow> ('s \<Rightarrow> 'f list \<Rightarrow> nat \<times> 's) \<Rightarrow> 's \<Rightarrow> 'f list list \<Rightarrow> int \<Rightarrow> 'f list list res" where
  "initialize_centroids np g draw seed X K =
     (if \<not> (1 \<le> K \<and> K \<le> int (length X)) then Inl (ValueError ''Require 1 <= clusters <= training requests'')
      else
        let (i, s) = randbelow g seed (length X)
        in Inr (map (\<lambda>j. X ! j) (seed_indices np g draw X (nat K - 1) [i] s)))"

primrec vanilla_loop :: "'f numpy \<Rightarrow> 'f list list \<Rightarrow> nat \<Rightarrow> 'f list list \<Rightarrow> 'f list list" where
  "vanilla_loop np X 0 C = C"
| "vanilla_loop np X (Suc n) C =
     (let labels = map (\<lambda>x. np_argmax np (map (np_dot np x) C)) X;
          updated = recentre np X labels C
      in if np_allclose np updated C then updated else vanilla_loop np X n updated)"

definition vanilla_spherical_kmeans :: "'f numpy \<Rightarrow> 'f list list \<Rightarrow> 'f list list \<Rightarrow> nat \<Rightarrow> 'f list list" where
  "vanilla_spherical_kmeans np X C iters = vanilla_loop np X iters C"

section \<open>Metadata\<close>

record 'f centroid_data =
  cd_json :: obj
  centroid_matrix :: "'f list list option"
  cd_mask :: "int list option"
  cd_idf :: "'f list option"

definition mask_entry :: "'f centroid_data \<Rightarrow> json option" where
  "mask_entry cd = (case cd_mask cd of Some m \<Rightarrow> Some (JArr (map JInt m)) | None \<Rightarrow> od_get (cd_json cd) ''_mask'')"

definition has_idf :: "'f centroid_data \<Rightarrow> bool" where
  "has_idf cd \<longleftrightarrow> jget (cd_json cd) ''sig_idf'' \<noteq> JNull \<or> cd_idf cd \<noteq> None \<or> jget (cd_json cd) ''_idf'' \<noteq> JNull"

fun jlist :: "json \<Rightarrow> json list res" where
  "jlist (JArr xs) = Inr xs"
| "jlist (JObj d) = Inr (map (\<lambda>(k, _). JStr k) d)"
| "jlist (JStr s) = Inr (map (\<lambda>c. JStr [c]) s)"
| "jlist _ = Inl TypeError"

primrec json_ints :: "json list \<Rightarrow> int list option" where
  "json_ints [] = Some []"
| "json_ints (x # xs) =
     (case jint x of None \<Rightarrow> None | Some n \<Rightarrow> (case json_ints xs of None \<Rightarrow> None | Some ns \<Rightarrow> Some (n # ns)))"

definition check_geometry :: "obj \<Rightarrow> (int \<times> int) res" where
  "check_geometry d =
     (let bad = Inl (ValueError ''Positive integer model geometry required'') in
      res_bind (jitem d ''L'') (\<lambda>layers.
        case jint layers of
          None \<Rightarrow> bad
        | Some l \<Rightarrow>
            if l < 1 then bad
            else res_bind (jitem d ''e'') (\<lambda>e.
              case jint e of None \<Rightarrow> bad | Some n \<Rightarrow> if n < 1 then bad else Inr (l, n))))"

definition check_transform :: "obj \<Rightarrow> bool" where
  "check_transform d \<longleftrightarrow>
     \<not> (jget d ''sig_mean'' \<noteq> JNull \<or> jget d ''_mean'' \<noteq> JNull
        \<or> truthy (jget_or (JBool False) d ''sig_per_layer_norm'')
        \<or> truthy (jget_or (JBool False) d ''_per_layer_norm'')
        \<or> jget_or (JStr ''count'') d ''variant'' \<notin> {JStr ''count'', JStr ''count_idf'', JStr ''gate_prob_all''}
        \<or> jget_or (JStr ''<i2'') d ''sig_dtype'' \<noteq>
            (if jget d ''variant'' = JStr ''gate_prob_all'' then JStr ''<f4'' else JStr ''<i2''))"

definition check_mask :: "'f centroid_data \<Rightarrow> int \<Rightarrow> int list res" where
  "check_mask cd layers =
     (let bad = Inl (ValueError ''Layer mask must contain sorted, distinct model layers'') in
      case jarr (jget_or (JArr (map JInt [0..layers - 1])) (cd_json cd) ''layer_mask'') of
        None \<Rightarrow> bad
      | Some xs \<Rightarrow>
          (case json_ints xs of
             None \<Rightarrow> bad
           | Some lm \<Rightarrow>
               if lm = [] \<or> \<not> list_all (\<lambda>i. 0 \<le> i \<and> i < layers) lm \<or> lm \<noteq> sorted_list_of_set (set lm)
               then bad
               else case mask_entry cd of
                 None \<Rightarrow> Inr lm
               | Some v \<Rightarrow> res_bind (jlist v) (\<lambda>l. if py_eq (JArr l) (JArr xs) then Inr lm else bad)))"

definition check_idf ::
  "'f numpy \<Rightarrow> (json \<Rightarrow> 'f nd res) \<Rightarrow> (json \<Rightarrow> 'f list \<Rightarrow> bool) \<Rightarrow> 'f centroid_data \<Rightarrow> nat \<Rightarrow> 'f list res" where
  "check_idf np asarray array_equal cd dim =
     res_bind (asarray (jget (cd_json cd) ''sig_idf'')) (\<lambda>idf.
       if nd_shape idf \<noteq> [dim]
         \<or> \<not> list_all (np_isfinite np) (nd_data idf)
         \<or> list_ex (\<lambda>x. \<not> np_le np (np_zero np) x) (nd_data idf)
         \<or> list_all (\<lambda>x. np_le np x (np_zero np) \<and> np_le np (np_zero np) x) (nd_data idf)
         \<or> (case cd_idf cd of
              Some v \<Rightarrow> \<not> list_all2 (\<lambda>x y. np_le np x y \<and> np_le np y x) v (nd_data idf)
            | None \<Rightarrow> (case od_get (cd_json cd) ''_idf'' of None \<Rightarrow> False | Some v \<Rightarrow> \<not> array_equal v (nd_data idf)))
       then Inl (ValueError ''Full signatures require finite nonnegative packed IDF weights'')
       else Inr (nd_data idf))"

definition validate_signature_metadata ::
  "'f numpy \<Rightarrow> (json \<Rightarrow> 'f nd res) \<Rightarrow> (json \<Rightarrow> 'f list \<Rightarrow> bool) \<Rightarrow> 'f centroid_data \<Rightarrow> nat res" where
  "validate_signature_metadata np asarray array_equal cd =
     (let d = cd_json cd in
      res_bind (check_geometry d) (\<lambda>(layers, e).
        if \<not> check_transform d then Inl (ValueError ''Unsupported signature transform or wire dtype'')
        else res_bind (check_mask cd layers) (\<lambda>lm.
          let dim = length lm * nat e; variant = jget_or (JStr ''count'') d ''variant'' in
          if variant = JStr ''count'' then
            (if lm \<noteq> [0..layers - 1] \<or> has_idf cd
             then Inl (ValueError ''Counts requires all layers and no IDF weights'') else Inr dim)
          else if variant = JStr ''gate_prob_all'' then
            (if od_get d ''layer_mask'' = None \<or> has_idf cd
             then Inl (ValueError ''Gate-probability signatures require a mask and no IDF'') else Inr dim)
          else if od_get d ''layer_mask'' = None
            then Inl (ValueError ''Full signatures require an explicit layer mask'')
          else res_bind (check_idf np asarray array_equal cd dim) (\<lambda>_. Inr dim))))"

section \<open>Loading and applying a centroid file\<close>

definition read_centroids ::
  "'f numpy \<Rightarrow> (json \<Rightarrow> 'f nd res) \<Rightarrow> obj \<Rightarrow> nat \<Rightarrow> 'f list list res" where
  "read_centroids np asarray d dim =
     res_bind (asarray (jget_or (jget d ''micro_centroids'') d ''centroids'')) (\<lambda>centroids.
       let sh = nd_shape centroids; k = sh ! 0 in
       if length sh \<noteq> 2 \<or> k = 0 \<or> sh ! 1 \<noteq> dim \<or> \<not> list_all (np_isfinite np) (nd_data centroids)
       then Inl (ValueError ''Centroids must have finite shape [K, signature dimension]'')
       else if \<not> py_eq (jget_or (JInt (int k)) d ''k'') (JInt (int k))
       then Inl (ValueError ''metadata k differs from centroid rows'')
       else
         let rows = nd_rows k dim (nd_data centroids)
         in if \<not> np_unit_norms np (map (np_norm np) rows)
            then Inl (ValueError ''Centroids must be unit-normed'') else Inr rows)"

definition attach_mask :: "obj \<Rightarrow> 'f centroid_data \<Rightarrow> 'f centroid_data res" where
  "attach_mask d cd =
     (if jget_or (JStr ''count'') d ''variant'' = JStr ''count'' then Inr cd
      else res_bind (jitem d ''layer_mask'') (\<lambda>v. res_bind (jlist v) (\<lambda>l.
        case json_ints l of None \<Rightarrow> Inl TypeError | Some m \<Rightarrow> Inr (cd\<lparr>cd_mask := Some m\<rparr>))))"

definition attach_idf :: "(json \<Rightarrow> 'f nd res) \<Rightarrow> obj \<Rightarrow> 'f centroid_data \<Rightarrow> 'f centroid_data res" where
  "attach_idf asarray d cd =
     (if jget_or (JStr ''count'') d ''variant'' \<noteq> JStr ''count_idf'' then Inr cd
      else res_bind (jitem d ''sig_idf'') (\<lambda>v. res_bind (asarray v)
             (\<lambda>idf. Inr (cd\<lparr>cd_idf := Some (nd_data idf)\<rparr>))))"

fun as_dict :: "json \<Rightarrow> obj res" where
  "as_dict (JObj d) = Inr d"
| "as_dict _ = Inl TypeError"

definition load_centroid_file ::
  "'f numpy \<Rightarrow> (json \<Rightarrow> 'f nd res) \<Rightarrow> (json \<Rightarrow> 'f list \<Rightarrow> bool) \<Rightarrow> json \<Rightarrow> 'f centroid_data res" where
  "load_centroid_file np asarray array_equal content =
     res_bind (as_dict content) (\<lambda>d.
       let cd = \<lparr>cd_json = d, centroid_matrix = None, cd_mask = None, cd_idf = None\<rparr> in
       res_bind (validate_signature_metadata np asarray array_equal cd) (\<lambda>dim.
         if jget_or (JStr ''kmbal'') d ''algo'' \<notin> {JStr ''kmbal'', JStr ''km''}
         then Inl (ValueError ''Unsupported clustering algorithm'')
         else res_bind (read_centroids np asarray d dim) (\<lambda>rows.
                res_bind (attach_mask d (cd\<lparr>centroid_matrix := Some rows\<rparr>)) (attach_idf asarray d))))"

text \<open>The layers of the mask of an \<open>[L, e]\<close> array, as one row; a layer out of range raises.\<close>

definition select_layers :: "int list \<Rightarrow> nat \<Rightarrow> nat \<Rightarrow> 'f list \<Rightarrow> 'f list res" where
  "select_layers lm l e xs = res_bind (res_map (py_nth (nd_rows l e xs)) lm) (\<lambda>rows. Inr (concat rows))"

definition scale_row :: "'f numpy \<Rightarrow> 'f list \<Rightarrow> 'f list \<Rightarrow> 'f list res" where
  "scale_row np idf v =
     (if length idf = length v then Inr (map2 (np_mul np) v idf)
      else Inl (ValueError ''operands could not be broadcast together''))"

definition build_signature :: "'f numpy \<Rightarrow> 'f centroid_data \<Rightarrow> 'f nd \<Rightarrow> 'f nd res" where
  "build_signature np cd counts =
     (let d = cd_json cd; variant = jget_or (JStr ''count'') d ''variant''; sh = nd_shape counts in
      if length sh \<noteq> 2 \<and> length sh \<noteq> 3 then Inl (ValueError ''Counts do not match fitted model geometry'')
      else res_bind (jitem d ''L'') (\<lambda>jl. res_bind (jitem d ''e'') (\<lambda>je.
      if \<not> py_eq (JArr (map (\<lambda>n. JInt (int n)) (drop (length sh - 2) sh))) (JArr [jl, je])
      then Inl (ValueError ''Counts do not match fitted model geometry'')
      else if variant = JStr ''count'' then normalize_counts np counts
      else case cd_mask cd of
        None \<Rightarrow> Inl KeyError
      | Some lm \<Rightarrow>
          let single = length sh = 2;
              n = (if single then 1 else sh ! 0); l = sh ! (length sh - 2); e = sh ! (length sh - 1)
          in if n = 0 then Inl (ValueError ''cannot reshape array of size 0'')
             else res_bind (res_map (select_layers lm l e) (nd_rows n (l * e) (nd_data counts))) (\<lambda>vs.
             res_bind (if variant = JStr ''count_idf''
                       then (case cd_idf cd of None \<Rightarrow> Inl KeyError | Some idf \<Rightarrow> res_map (scale_row np idf) vs)
                       else Inr vs) (\<lambda>ws.
               let us = map (unit_row np) ws in
               if single then Inr (Nd [length lm * e] (us ! 0))
               else Inr (Nd [n, length lm * e] (concat us)))))))"

section \<open>Lemmas on clustering\<close>

lemma cluster_of_slot_length [simp]: "length (cluster_of_slot k cap) = k * cap"
  by (simp add: cluster_of_slot_def length_concat comp_def sum_list_triv)

lemma count_list_concat: "count_list (concat xss) x = sum_list (map (\<lambda>xs. count_list xs x) xss)"
  by (induction xss) simp_all

lemma count_list_replicate: "count_list (replicate n y) x = (if y = x then n else 0)"
  by (induction n) auto

lemma cluster_of_slot_count: "count_list (cluster_of_slot k cap) c = (if c < k then cap else 0)"
proof (induction k)
  case 0
  then show ?case by (simp add: cluster_of_slot_def)
next
  case (Suc k)
  have "cluster_of_slot (Suc k) cap = cluster_of_slot k cap @ replicate cap k"
    by (simp add: cluster_of_slot_def)
  then show ?case using Suc by (simp add: count_list_replicate)
qed

lemma count_list_subscripts:
  assumes "distinct js" "\<forall>j \<in> set js. j < length xs"
  shows "count_list (map (\<lambda>j. xs ! j) js) c \<le> count_list xs c"
proof -
  have "count_list (map (\<lambda>j. xs ! j) js) c = card (set (filter (\<lambda>j. xs ! j = c) js))"
    using distinct_card [OF distinct_filter [OF assms(1), of "\<lambda>j. xs ! j = c"]]
    by (simp add: count_list_eq_length_filter filter_map comp_def eq_commute [of c])
  also have "\<dots> \<le> card {j. j < length xs \<and> xs ! j = c}"
    using assms(2) by (intro card_mono) auto
  also have "\<dots> = count_list xs c"
    by (simp add: count_list_eq_length_filter length_filter_conv_card eq_commute [of c])
  finally show ?thesis .
qed

lemma balanced_assign_spec:
  assumes ok: "np_assignment_ok np" and n: "length X \<le> length slots"
  shows "length (balanced_assign np X C slots) = length X"
    and "set (balanced_assign np X C slots) \<subseteq> set slots"
    and "count_list (balanced_assign np X C slots) c \<le> count_list slots c"
proof -
  let ?cost = "map (\<lambda>row. map (\<lambda>c. row ! c) slots) (map (\<lambda>x. map (\<lambda>c. np_sub np (np_one np) (np_dot np x c)) C) X)"
  obtain rows cols where rc: "np_assignment np ?cost = (rows, cols)" by force
  have "\<forall>row \<in> set ?cost. length row = length slots" by simp
  then have c: "length cols = length X" "distinct cols" "\<forall>j \<in> set cols. j < length slots"
    using np_assignment_okD [OF ok _ _ rc, of "length slots"] n by (simp_all del: map_map)
  have l: "balanced_assign np X C slots = map (\<lambda>j. slots ! j) cols"
    using rc by (simp add: balanced_assign_def Let_def)
  show "length (balanced_assign np X C slots) = length X" using c l by simp
  show "set (balanced_assign np X C slots) \<subseteq> set slots" using c l by auto
  show "count_list (balanced_assign np X C slots) c \<le> count_list slots c"
    unfolding l by (rule count_list_subscripts [OF c(2,3)])
qed

lemma ceil_cap:
  assumes "0 < (k::nat)"
  shows "n \<le> k * nat (- (- int n div int k))" "k * nat (- (- int n div int k)) < n + k"
proof -
  let ?c = "- (- int n div int k)"
  have c: "0 \<le> ?c" using assms by (simp add: div_nonpos_pos_le0)
  have "- int n = int k * (- int n div int k) + (- int n mod int k)" by simp
  moreover have "0 \<le> - int n mod int k" "- int n mod int k < int k" using assms by simp_all
  ultimately have "int n \<le> int k * ?c" "int k * ?c < int n + int k" unfolding mult_minus_right by linarith+
  moreover have "int (k * nat ?c) = int k * ?c" using c by simp
  ultimately show "n \<le> k * nat ?c" "k * nat ?c < n + k" by linarith+
qed

lemma recentre_length [simp]: "length (recentre np X labels C) = length C"
  by (simp add: recentre_def)

lemma members_width: "\<forall>x \<in> set X. length x = d \<Longrightarrow> v \<in> set (members X labels c) \<Longrightarrow> length v = d"
  by (auto simp: members_def dest: set_zip_leftD)

lemma members_nonempty: "length X = length labels \<Longrightarrow> c \<in> set labels \<Longrightarrow> members X labels c \<noteq> []"
  by (induction X labels rule: list_induct2) (auto simp: members_def)

lemma recentre_width:
  assumes "np_mean_ok np" "length labels = length X" "\<forall>x \<in> set X. length x = d" "\<forall>x \<in> set C. length x = d"
  shows "\<forall>x \<in> set (recentre np X labels C). length x = d"
proof
  fix x
  assume "x \<in> set (recentre np X labels C)"
  then obtain c where c: "c < length C"
    "x = unit_row np (if c \<in> set labels then np_mean0 np (members X labels c) else C ! c)"
    by (auto simp: recentre_def)
  show "length x = d"
  proof (cases "c \<in> set labels")
    case True
    with assms(2) have "members X labels c \<noteq> []" by (intro members_nonempty) simp_all
    then have "length (np_mean0 np (members X labels c)) = d"
      using assms(1) members_width [OF assms(3), of _ labels c] by (simp add: np_mean_ok_def)
    with True c show ?thesis by simp
  next
    case False
    with c assms(4) show ?thesis by simp
  qed
qed

lemma balanced_loop_shape:
  assumes "np_mean_ok np" "np_assignment_ok np" "length X \<le> length slots" "\<forall>x \<in> set X. length x = d"
  shows "\<forall>x \<in> set C. length x = d \<Longrightarrow>
    length (balanced_loop np X slots n C) = length C \<and> (\<forall>x \<in> set (balanced_loop np X slots n C). length x = d)"
proof (induction n arbitrary: C)
  case 0
  then show ?case by simp
next
  case (Suc n)
  let ?C = "recentre np X (balanced_assign np X C slots) C"
  have "\<forall>x \<in> set ?C. length x = d"
    by (rule recentre_width) (use assms Suc.prems balanced_assign_spec in auto)
  then show ?case using Suc.IH [of ?C] by (simp add: Let_def)
qed

lemma vanilla_loop_shape:
  assumes "np_mean_ok np" "\<forall>x \<in> set X. length x = d"
  shows "\<forall>x \<in> set C. length x = d \<Longrightarrow>
    length (vanilla_loop np X n C) = length C \<and> (\<forall>x \<in> set (vanilla_loop np X n C). length x = d)"
proof (induction n arbitrary: C)
  case 0
  then show ?case by simp
next
  case (Suc n)
  let ?C = "recentre np X (map (\<lambda>x. np_argmax np (map (np_dot np x) C)) X) C"
  have "\<forall>x \<in> set ?C. length x = d" by (rule recentre_width) (use assms Suc.prems in auto)
  then show ?case using Suc.IH [of ?C] by (simp add: Let_def)
qed

lemma seed_indices_spec:
  assumes g: "rng_ok g" and d: "\<forall>s ps. ps \<noteq> [] \<longrightarrow> fst (draw s ps) < length ps" and x: "X \<noteq> []"
  shows "\<forall>i \<in> set is. i < length X \<Longrightarrow>
    length (seed_indices np g draw X n is s) = length is + n \<and> (\<forall>i \<in> set (seed_indices np g draw X n is s). i < length X)"
proof (induction n arbitrary: "is" s)
  case 0
  then show ?case by simp
next
  case (Suc n)
  let ?ds = "map (\<lambda>x. np_amin np (map (\<lambda>i. np_sqdist np x (X ! i)) is)) X"
  let ?r = "if \<not> np_le np (np_sum np ?ds) (np_zero np)
            then draw s (map (\<lambda>d. np_div np d (np_sum np ?ds)) ?ds) else randbelow g s (length X)"
  have "fst (draw s (map f ?ds)) < length X" for f using d [rule_format, of "map f ?ds" s] x by simp
  moreover have "fst (randbelow g s (length X)) < length X" using g x by (simp add: rng_ok_def)
  ultimately have "fst ?r < length X" by (simp del: map_map)
  then have "\<forall>i \<in> set (is @ [fst ?r]). i < length X" using Suc.prems by simp
  from Suc.IH [OF this, of "snd ?r"] show ?case by (simp add: Let_def case_prod_beta del: map_map)
qed

section \<open>Lemmas on metadata\<close>

lemma jitem_Inr: "jitem d k = Inr v \<longleftrightarrow> od_get d k = Some v"
  by (simp add: jitem_def split: option.splits)

lemma check_geometry_Inr:
  "check_geometry d = Inr (l, e) \<Longrightarrow>
     od_get d ''L'' = Some (JInt l) \<and> 1 \<le> l \<and> od_get d ''e'' = Some (JInt e) \<and> 1 \<le> e"
  by (auto simp: check_geometry_def res_simps jitem_Inr Let_def)

lemma json_ints_map [simp]: "json_ints (map JInt m) = Some m"
  by (induction m) simp_all

lemma json_ints_Some: "json_ints xs = Some m \<longleftrightarrow> xs = map JInt m"
proof
  show "json_ints xs = Some m \<Longrightarrow> xs = map JInt m"
    by (induction xs arbitrary: m) (auto split: option.splits)
qed simp

lemma check_mask_Inr:
  assumes "check_mask cd layers = Inr m"
  shows "jget_or (JArr (map JInt [0..layers - 1])) (cd_json cd) ''layer_mask'' = JArr (map JInt m)"
    and "m \<noteq> []" "\<forall>i \<in> set m. 0 \<le> i \<and> i < layers" "sorted_wrt (<) m"
proof -
  obtain xs where x: "jget_or (JArr (map JInt [0..layers - 1])) (cd_json cd) ''layer_mask'' = JArr xs"
    using assms by (auto simp: check_mask_def Let_def split: option.splits)
  obtain m' where m': "json_ints xs = Some m'"
    using assms by (auto simp: check_mask_def Let_def x split: option.splits)
  have "m' = m" and c: "m \<noteq> []" "list_all (\<lambda>i. 0 \<le> i \<and> i < layers) m" "m = sorted_list_of_set (set m)"
    using assms by (auto simp: check_mask_def Let_def x m' res_simps split: option.splits if_splits)
  then show "jget_or (JArr (map JInt [0..layers - 1])) (cd_json cd) ''layer_mask'' = JArr (map JInt m)"
    using x m' by (simp add: json_ints_Some)
  show "m \<noteq> []" "\<forall>i \<in> set m. 0 \<le> i \<and> i < layers" using c by (simp_all add: list_all_iff)
  show "sorted_wrt (<) m" using c(3) strict_sorted_list_of_set by metis
qed

lemma validate_Inr:
  assumes "validate_signature_metadata np asarray array_equal cd = Inr dim"
  shows "\<exists>l e m. od_get (cd_json cd) ''L'' = Some (JInt l) \<and> 1 \<le> l \<and>
    od_get (cd_json cd) ''e'' = Some (JInt e) \<and> 1 \<le> e \<and> check_transform (cd_json cd) \<and>
    check_mask cd l = Inr m \<and> dim = length m * nat e \<and>
    (jget_or (JStr ''count'') (cd_json cd) ''variant'' = JStr ''count'' \<longrightarrow> m = [0..l - 1]) \<and>
    (jget_or (JStr ''count'') (cd_json cd) ''variant'' \<noteq> JStr ''count'' \<longrightarrow>
       od_get (cd_json cd) ''layer_mask'' = Some (JArr (map JInt m))) \<and>
    (jget_or (JStr ''count'') (cd_json cd) ''variant'' = JStr ''count_idf'' \<longrightarrow>
       (\<exists>idf. check_idf np asarray array_equal cd dim = Inr idf))"
proof -
  obtain l e where g: "check_geometry (cd_json cd) = Inr (l, e)"
    using assms by (auto simp: validate_signature_metadata_def res_simps Let_def)
  obtain m where m: "check_mask cd l = Inr m" and t: "check_transform (cd_json cd)"
    using assms by (auto simp: validate_signature_metadata_def g res_simps Let_def split: if_splits)
  have mask: "od_get (cd_json cd) ''layer_mask'' \<noteq> None \<Longrightarrow> od_get (cd_json cd) ''layer_mask'' = Some (JArr (map JInt m))"
    using check_mask_Inr(1) [OF m] by (auto simp: jget_or_def split: option.splits)
  note c = check_geometry_Inr [OF g]
  show ?thesis
    by (rule exI [of _ l], rule exI [of _ e], rule exI [of _ m])
      (use assms c m t mask in
        \<open>auto simp: validate_signature_metadata_def g m res_simps Let_def split: if_splits\<close>)
qed

lemma as_dict_Inr [simp]: "as_dict v = Inr d \<longleftrightarrow> v = JObj d"
  by (cases v) auto

lemma attach_mask_Inr:
  assumes "attach_mask d cd = Inr cd'"
  shows "cd_json cd' = cd_json cd" "centroid_matrix cd' = centroid_matrix cd"
    and "jget_or (JStr ''count'') d ''variant'' \<noteq> JStr ''count'' \<Longrightarrow> od_get d ''layer_mask'' = Some (JArr (map JInt m)) \<Longrightarrow>
       cd_mask cd' = Some m"
  using assms by (auto simp: attach_mask_def res_simps jitem_Inr split: if_splits)

lemma attach_idf_Inr:
  assumes "attach_idf asarray d cd = Inr cd'"
  shows "cd_json cd' = cd_json cd" "centroid_matrix cd' = centroid_matrix cd" "cd_mask cd' = cd_mask cd"
    and "jget_or (JStr ''count'') d ''variant'' = JStr ''count_idf'' \<Longrightarrow>
      \<exists>v idf. od_get d ''sig_idf'' = Some v \<and> asarray v = Inr idf \<and> cd_idf cd' = Some (nd_data idf)"
  using assms by (auto simp: attach_idf_def res_simps jitem_Inr split: if_splits)

lemma read_centroids_Inr:
  assumes "read_centroids np asarray d dim = Inr rows" and "\<forall>v a. asarray v = Inr a \<longrightarrow> nd_ok a"
  shows "rows \<noteq> []" "\<forall>r \<in> set rows. length r = dim"
proof -
  obtain a where a: "asarray (jget_or (jget d ''micro_centroids'') d ''centroids'') = Inr a"
    "length (nd_shape a) = 2" "nd_shape a ! 0 \<noteq> 0" "nd_shape a ! 1 = dim"
    "rows = nd_rows (nd_shape a ! 0) dim (nd_data a)"
    using assms(1) by (auto simp: read_centroids_def res_simps Let_def)
  then obtain k where k: "nd_shape a = [k, dim]" "k \<noteq> 0"
    by (auto simp: length_Suc_conv numeral_2_eq_2)
  with assms(2) a(1) have "length (nd_data a) = k * dim" by (simp add: nd_ok_def)
  moreover have "rows = nd_rows k dim (nd_data a)" using a(5) k by simp
  moreover from this have "length rows = k" by simp
  ultimately show "rows \<noteq> []" "\<forall>r \<in> set rows. length r = dim"
    using k(2) nd_rows_width [of "nd_data a" k dim] by (metis length_0_conv, blast)
qed

lemma idf_length:
  assumes "check_idf np asarray array_equal cd dim = Inr idf" "\<forall>v a. asarray v = Inr a \<longrightarrow> nd_ok a"
  shows "\<exists>a. asarray (jget (cd_json cd) ''sig_idf'') = Inr a \<and> length (nd_data a) = dim"
  using assms by (auto simp: check_idf_def res_simps nd_ok_def)

lemma select_layers_ok:
  assumes "length xs = l * e" "\<forall>i \<in> set lm. 0 \<le> i \<and> i < int l"
  shows "\<exists>v. select_layers lm l e xs = Inr v \<and> length v = length lm * e"
proof -
  have "py_nth (nd_rows l e xs) i = Inr (nd_rows l e xs ! nat i)" if "i \<in> set lm" for i
    using that assms(2) by (force simp: py_nth_def)
  then have "res_map (py_nth (nd_rows l e xs)) lm = Inr (map (\<lambda>i. nd_rows l e xs ! nat i) lm)"
    by (rule res_map_total)
  moreover have "length (nd_rows l e xs ! nat i) = e" if "i \<in> set lm" for i
    using that assms(2) by (intro nd_rows_width [OF assms(1)] nth_mem) auto
  then have "length (concat (map (\<lambda>i. nd_rows l e xs ! nat i) lm)) = length lm * e"
    by (induction lm) simp_all
  ultimately show ?thesis by (simp add: select_layers_def)
qed

lemma build_signature_ok:
  assumes geom: "od_get (cd_json cd) ''L'' = Some (JInt l)" "od_get (cd_json cd) ''e'' = Some (JInt e)" "1 \<le> l" "1 \<le> e"
    and counts: "nd_shape counts = [nat l, nat e]" "nd_ok counts"
    and m: "jget_or (JStr ''count'') (cd_json cd) ''variant'' \<noteq> JStr ''count'' \<Longrightarrow>
      cd_mask cd = Some m \<and> (\<forall>i \<in> set m. 0 \<le> i \<and> i < l)"
    and c: "jget_or (JStr ''count'') (cd_json cd) ''variant'' = JStr ''count'' \<Longrightarrow> length m = nat l"
    and idf: "jget_or (JStr ''count'') (cd_json cd) ''variant'' = JStr ''count_idf'' \<Longrightarrow>
      \<exists>w. cd_idf cd = Some w \<and> length w = length m * nat e"
  shows "\<exists>v. build_signature np cd counts = Inr (Nd [length m * nat e] v) \<and> length v = length m * nat e"
proof -
  have len: "length (nd_data counts) = nat l * nat e" using counts by (simp add: nd_ok_def)
  have j: "jitem (cd_json cd) ''L'' = Inr (JInt l)" "jitem (cd_json cd) ''e'' = Inr (JInt e)"
    using geom by (simp_all add: jitem_Inr)
  show ?thesis
  proof (cases "jget_or (JStr ''count'') (cd_json cd) ''variant'' = JStr ''count''")
    case True
    then show ?thesis
      using c geom(3,4) len counts(1) by (simp add: build_signature_def j normalize_counts_def Let_def)
  next
    case False
    have "\<forall>i \<in> set m. 0 \<le> i \<and> i < int (nat l)" using m [OF False] geom(3) by auto
    from select_layers_ok [OF len this] obtain v
      where v: "select_layers m (nat l) (nat e) (nd_data counts) = Inr v" "length v = length m * nat e" by blast
    obtain w where w: "(if jget_or (JStr ''count'') (cd_json cd) ''variant'' = JStr ''count_idf''
        then (case cd_idf cd of None \<Rightarrow> Inl KeyError | Some idf \<Rightarrow> res_map (scale_row np idf) [v])
        else Inr [v]) = Inr [w]" "length w = length m * nat e"
      using idf v(2) by (cases "jget_or (JStr ''count'') (cd_json cd) ''variant'' = JStr ''count_idf''")
        (auto simp: scale_row_def)
    have "nd_rows 1 (nat l * nat e) (nd_data counts) = [nd_data counts]" using len by simp
    then show ?thesis
      using m [OF False] False geom(3,4) counts(1) v w
      by (simp add: build_signature_def j Let_def)
  qed
qed

section \<open>Properties\<close>

text \<open>
  C35. Balanced clustering respects its capacity. For any points and centroids, if the assignment
  solver matches every row to a column of its own, the assignment each iteration computes labels
  every point with a valid cluster, puts at most \<open>ceil(N/K)\<close> points into each cluster, and that
  bound is the smallest that lets all points fit.
\<close>

theorem balanced_assignment_capacity:
  assumes "np_assignment_ok np" "length C = k" "0 < k" "length X = n"
  shows "let cap = nat (- (- int n div int k));
             labels = balanced_assign np X C (cluster_of_slot k cap)
         in length labels = n \<and> (\<forall>c \<in> set labels. c < k) \<and> (\<forall>c. count_list labels c \<le> cap) \<and>
            n \<le> k * cap \<and> (\<forall>cap'. n \<le> k * cap' \<longrightarrow> cap \<le> cap')"
proof -
  define cap where "cap = nat (- (- int n div int k))"
  note cc = ceil_cap [OF assms(3), of n, folded cap_def]
  have len: "length X \<le> length (cluster_of_slot k cap)" using cc(1) assms(4) by simp
  note S = balanced_assign_spec [OF assms(1) len]
  have "c < k" if "c \<in> set (cluster_of_slot k cap)" for c
    using that by (auto simp: cluster_of_slot_def)
  moreover have "count_list (balanced_assign np X C (cluster_of_slot k cap)) c \<le> cap" for c
    using S(3) [of C c] by (simp add: cluster_of_slot_count split: if_splits)
  moreover have "cap \<le> cap'" if "n \<le> k * cap'" for cap'
  proof (rule ccontr)
    assume "\<not> cap \<le> cap'"
    then have "k * Suc cap' \<le> k * cap" by (intro mult_le_mono) simp_all
    then show False using cc(2) that by simp
  qed
  moreover have "c < k" if "c \<in> set (balanced_assign np X C (cluster_of_slot k cap))" for c
    using calculation(1) S(2) [of C] that by blast
  ultimately show ?thesis using S(1) assms(4) cc(1) by (auto simp: Let_def cap_def [symmetric])
qed

theorem balanced_assignment_capacity_witness:
  "let labels = balanced_assign int_np [[1], [2], [3]] [[1], [5]] (cluster_of_slot 2 2)
   in length labels = 3 \<and> count_list labels 0 \<le> 2 \<and> count_list labels 1 \<le> 2"
  using balanced_assignment_capacity [OF int_np_ok(7), of "[[1], [5]]" 2 "[[1], [2], [3]]" 3]
  by (simp add: Let_def)

lemma kmeans_shapes:
  assumes "np_mean_ok np" "np_assignment_ok np" "\<forall>x \<in> set X. length x = d" "\<forall>c \<in> set C. length c = d" "C \<noteq> []"
  shows "\<exists>R. balanced_spherical_kmeans np X C iters = Inr R \<and> length R = length C \<and> (\<forall>c \<in> set R. length c = d)"
    "length (vanilla_spherical_kmeans np X C iters) = length C"
    "\<forall>c \<in> set (vanilla_spherical_kmeans np X C iters). length c = d"
proof -
  let ?cap = "nat (- (- int (length X) div int (length C)))"
  have "length X \<le> length (cluster_of_slot (length C) ?cap)"
    using ceil_cap(1) [of "length C" "length X"] assms(5) by simp
  from balanced_loop_shape [OF assms(1,2) this assms(3), of "map (unit_row np) C" iters]
  show "\<exists>R. balanced_spherical_kmeans np X C iters = Inr R \<and> length R = length C \<and> (\<forall>c \<in> set R. length c = d)"
    "length (vanilla_spherical_kmeans np X C iters) = length C"
    "\<forall>c \<in> set (vanilla_spherical_kmeans np X C iters). length c = d"
    using vanilla_loop_shape [OF assms(1,3,4), of iters] assms(4,5)
    by (simp_all add: balanced_spherical_kmeans_def vanilla_spherical_kmeans_def Let_def)
qed

text \<open>
  Both clustering loops end after at most the given number of iterations with one centroid
  per seed, each of the width of the points; an empty seed set is an error of the balanced one.
\<close>

lemma kmeans_shape:
  assumes "np_mean_ok np" "np_assignment_ok np" "\<forall>x \<in> set X. length x = d" "\<forall>c \<in> set C. length c = d" "C \<noteq> []"
  shows "\<exists>R. balanced_spherical_kmeans np X C iters = Inr R \<and> length R = length C \<and> (\<forall>c \<in> set R. length c = d) \<and>
     length (vanilla_spherical_kmeans np X C iters) = length C \<and>
     (\<forall>c \<in> set (vanilla_spherical_kmeans np X C iters). length c = d) \<and>
     balanced_spherical_kmeans np X [] iters = Inl ZeroDivisionError"
  using kmeans_shapes [OF assms, of iters] by (auto simp: balanced_spherical_kmeans_def)

text \<open>
  Seeding draws existing points. With a generator and a weighted draw that stay in range,
  k-means++ seeding of \<open>K\<close> clusters raises exactly if \<open>K\<close> is not between one and the number of
  points, and otherwise returns \<open>K\<close> rows of the data.
\<close>

lemma initialize_centroids_rows:
  assumes "rng_ok g" "\<forall>s ps. ps \<noteq> [] \<longrightarrow> fst (draw s ps) < length ps"
  shows "case initialize_centroids np g draw seed X K of
     Inl e \<Rightarrow> e = ValueError ''Require 1 <= clusters <= training requests'' \<and> \<not> (1 \<le> K \<and> K \<le> int (length X))
   | Inr C \<Rightarrow> 1 \<le> K \<and> int (length C) = K \<and> set C \<subseteq> set X"
proof (cases "1 \<le> K \<and> K \<le> int (length X)")
  case False
  then show ?thesis by (simp add: initialize_centroids_def)
next
  case True
  then have x: "X \<noteq> []" by auto
  obtain i s where r: "randbelow g seed (length X) = (i, s)" by force
  have "i < length X" using assms(1) x r unfolding rng_ok_def by (metis fst_conv length_greater_0_conv)
  then have "\<forall>j \<in> set [i]. j < length X" by simp
  from seed_indices_spec [OF assms x this, of np "nat K - 1" s] show ?thesis
    using True r by (auto simp: initialize_centroids_def Let_def)
qed

text \<open>
  C34. A centroid file that loads can be used. For every file the loader accepts (arrays having as
  many numbers as their shape says), the centroid matrix is not empty, and the signature of any
  count array of the model's geometry is computed without an error and is a vector whose length is
  the width of every centroid, for each of the three signature variants.
\<close>

theorem loaded_file_builds_signatures:
  fixes np :: "'f numpy"
  assumes load: "load_centroid_file np asarray array_equal content = Inr cd"
    and asarray: "\<forall>v a. asarray v = Inr a \<longrightarrow> nd_ok a"
    and geom: "od_get (cd_json cd) ''L'' = Some (JInt l)" "od_get (cd_json cd) ''e'' = Some (JInt e)"
    and counts: "nd_shape counts = [nat l, nat e]" "nd_ok counts"
  shows "\<exists>C v. centroid_matrix cd = Some C \<and> C \<noteq> [] \<and>
     build_signature np cd counts = Inr (Nd [length v] v) \<and> (\<forall>c \<in> set C. length c = length v)"
proof -
  define cd0 :: "obj \<Rightarrow> 'f centroid_data"
    where "cd0 d = \<lparr>cd_json = d, centroid_matrix = None, cd_mask = None, cd_idf = None\<rparr>" for d
  obtain d dim rows cd1 where ld: "content = JObj d"
    "validate_signature_metadata np asarray array_equal (cd0 d) = Inr dim"
    "read_centroids np asarray d dim = Inr rows"
    "attach_mask d \<lparr>cd_json = d, centroid_matrix = Some rows, cd_mask = None, cd_idf = None\<rparr> = Inr cd1"
    "attach_idf asarray d cd1 = Inr cd"
    using load by (auto simp: load_centroid_file_def res_simps Let_def cd0_def)
  have cd0_json: "cd_json (cd0 d) = d" by (simp add: cd0_def)
  note am = attach_mask_Inr [OF ld(4)] and ai = attach_idf_Inr [OF ld(5)] and rc = read_centroids_Inr [OF ld(3) asarray]
  have j: "cd_json cd = d" "centroid_matrix cd = Some rows" using am ai by simp_all
  from validate_Inr [OF ld(2)] obtain l' e' m where
    v: "od_get d ''L'' = Some (JInt l')" "1 \<le> l'" "od_get d ''e'' = Some (JInt e')" "1 \<le> e'"
    "check_mask (cd0 d) l' = Inr m"
    "dim = length m * nat e'"
    "jget_or (JStr ''count'') d ''variant'' = JStr ''count'' \<longrightarrow> m = [0..l' - 1]"
    "jget_or (JStr ''count'') d ''variant'' \<noteq> JStr ''count'' \<longrightarrow> od_get d ''layer_mask'' = Some (JArr (map JInt m))"
    "jget_or (JStr ''count'') d ''variant'' = JStr ''count_idf'' \<longrightarrow>
       (\<exists>idf. check_idf np asarray array_equal (cd0 d) dim = Inr idf)"
    unfolding cd0_json by blast
  have le: "l' = l" "e' = e" using v(1,3) geom j(1) by simp_all
  have "\<exists>v. build_signature np cd counts = Inr (Nd [length m * nat e] v) \<and> length v = length m * nat e"
  proof (rule build_signature_ok [OF geom _ _ counts])
    show "cd_mask cd = Some m \<and> (\<forall>i \<in> set m. 0 \<le> i \<and> i < l)"
      if "jget_or (JStr ''count'') (cd_json cd) ''variant'' \<noteq> JStr ''count''"
      using that v(8) am(3) ai(3) check_mask_Inr(3) [OF v(5)] le j(1) by simp
    show "length m = nat l" if "jget_or (JStr ''count'') (cd_json cd) ''variant'' = JStr ''count''"
      using that v(7) le j(1) by simp
    show "\<exists>w. cd_idf cd = Some w \<and> length w = length m * nat e"
      if "jget_or (JStr ''count'') (cd_json cd) ''variant'' = JStr ''count_idf''"
    proof -
      from that v(9) j(1) obtain idf where
        "check_idf np asarray array_equal (cd0 d) dim = Inr idf"
        by auto
      from idf_length [OF this asarray] ai(4) that j(1) v(6) le show ?thesis by (auto simp: jget_or_def cd0_json)
    qed
  qed (use v le in simp_all)
  then show ?thesis using j(2) rc v(6) le by auto
qed

definition example_array :: "json \<Rightarrow> int nd res" where
  "example_array v = Inr (case v of JObj _ \<Rightarrow> Nd [2] [1, 3] | _ \<Rightarrow> Nd [1, 2] [1, 0])"

lemma example_file_loads:
  "load_centroid_file int_np example_array (\<lambda>_ _. True) (JObj [(''L'', JInt 1), (''e'', JInt 2)]) =
     Inr \<lparr>cd_json = [(''L'', JInt 1), (''e'', JInt 2)], centroid_matrix = Some [[1, 0]], cd_mask = None, cd_idf = None\<rparr>"
proof -
  have "json_ints [JInt 0] = Some [0]" by simp
  moreover have "[0..0::int] = [0]" by (simp add: upto_rec1)
  ultimately show ?thesis
    by (simp add: load_centroid_file_def validate_signature_metadata_def check_geometry_def jitem_def Let_def
        check_transform_def check_mask_def mask_entry_def has_idf_def read_centroids_def attach_mask_def
        attach_idf_def jget_or_def example_array_def int_np_def)
qed

theorem loaded_file_builds_signatures_witness:
  "\<exists>v. build_signature int_np
      \<lparr>cd_json = [(''L'', JInt 1), (''e'', JInt 2)], centroid_matrix = Some [[1, 0]], cd_mask = None, cd_idf = None\<rparr>
      (Nd [1, 2] [4, 6]) = Inr (Nd [2] v) \<and> length v = 2"
proof -
  have a: "\<forall>v a. example_array v = Inr a \<longrightarrow> nd_ok a" by (auto simp: example_array_def nd_ok_def split: json.splits)
  show ?thesis
    using loaded_file_builds_signatures [OF example_file_loads a, of 1 2 "Nd [1, 2] [4, 6]"]
    by (auto simp: nd_ok_def)
qed

end
