(* ===== verification/Routing.thy ===== *)
theory Routing
  imports Clustering "HOL-Library.Product_Lexorder"
begin

text \<open>
  Worker selection: the locality band of \<^verbatim>\<open>eldr/serving/routing.py\<close>, the four load baselines of
  \<^verbatim>\<open>eldr/serving/baselines.py\<close>, and the consistent-hash router of \<^verbatim>\<open>eldr/serving/prefix_hash.py\<close>.
\<close>

section \<open>Locality band\<close>

definition locality_candidates :: "'f numpy \<Rightarrow> 'f list \<Rightarrow> 'f \<Rightarrow> nat list" where
  "locality_candidates np scores tau =
     flatnonzero (\<lambda>s. np_le np (np_sub np (np_amax np scores) tau) s) scores"

text \<open>
  The least loaded candidate, the lowest index among equals; \<^verbatim>\<open>argmin\<close> of an empty array raises.
\<close>

definition band_min :: "'f numpy \<Rightarrow> 'f list \<Rightarrow> int list \<Rightarrow> 'f \<Rightarrow> nat res" where
  "band_min np scores loads tau =
     (let work = map (np_of_int np) loads;
          eligible = locality_candidates np scores tau
      in if eligible = [] then Inl (ValueError ''attempt to get argmin of an empty sequence'')
         else Inr (eligible ! np_argmin np (map (\<lambda>i. work ! i) eligible)))"

text \<open>
  The routing entry point with fixed centroids. The two reused scratch buffers of the source have
  no observable effect and are left out.
\<close>

definition route_jsq :: "'f numpy \<Rightarrow> 'f centroid_data \<Rightarrow> 'f nd \<Rightarrow> int list \<Rightarrow> 'f \<Rightarrow> nat res" where
  "route_jsq np cd counts loads tau =
     (if \<not> np_isfinite np tau \<or> \<not> np_le np (np_zero np) tau
      then Inl (ValueError ''A finite nonnegative locality threshold is required'')
      else res_bind (build_signature np cd counts) (\<lambda>vector.
        case centroid_matrix cd of
          None \<Rightarrow> Inl KeyError
        | Some C \<Rightarrow>
            let k = length loads in
            if k = 0 \<or> length C \<noteq> k
            then Inl (ValueError ''static ELDR requires exactly one centroid per decoder'')
            else if nd_shape vector \<noteq> [length (nd_data vector)] \<or> \<not> list_all (\<lambda>c. length c = length (nd_data vector)) C
            then Inl (ValueError ''matmul: mismatch in core dimension'')
            else band_min np (map (\<lambda>c. np_dot np c (nd_data vector)) C) loads tau))"

section \<open>Load baselines\<close>

datatype policy = RR | JSQ | Rand | P2C

record 's BaselineRouter =
  b_policy :: policy
  b_workers :: nat
  b_rng :: 's
  b_next :: nat

definition policy_of :: "string \<Rightarrow> policy option" where
  "policy_of s = (if s = ''rr'' then Some RR else if s = ''jsq'' then Some JSQ
     else if s = ''random'' then Some Rand else if s = ''p2c'' then Some P2C else None)"

definition make_baseline :: "string \<Rightarrow> 'w list \<Rightarrow> 's \<Rightarrow> 's BaselineRouter res" where
  "make_baseline name workers seed =
     (case policy_of name of
        None \<Rightarrow> Inl (ValueError ''Known baseline and nonempty worker group required'')
      | Some p \<Rightarrow>
          if workers = [] then Inl (ValueError ''Known baseline and nonempty worker group required'')
          else Inr \<lparr>b_policy = p, b_workers = length workers, b_rng = seed, b_next = 0\<rparr>)"

definition baseline_select :: "'s rng \<Rightarrow> int list \<Rightarrow> 's BaselineRouter \<Rightarrow> (nat \<times> 's BaselineRouter) res" where
  "baseline_select g loads r =
     (let n = b_workers r in
      if length loads \<noteq> n then Inl (ValueError ''Worker count and load count differ'')
      else case b_policy r of
        RR \<Rightarrow> Inr (b_next r, r\<lparr>b_next := Suc (b_next r) mod n\<rparr>)
      | Rand \<Rightarrow> (let (i, s) = randbelow g (b_rng r) n in Inr (i, r\<lparr>b_rng := s\<rparr>))
      | P2C \<Rightarrow>
          if n = 1 then Inr (0, r)
          else (let (a, b, s) = sample2 g (b_rng r) n
                in Inr (if loads ! a \<le> loads ! b then a else b, r\<lparr>b_rng := s\<rparr>))
      | JSQ \<Rightarrow>
          (let minimum = Min (set loads);
               tied = filter (\<lambda>i. loads ! i = minimum) [0..<n]
           in if length tied = 1 then Inr (tied ! 0, r)
              else let (j, s) = randbelow g (b_rng r) (length tied) in Inr (tied ! j, r\<lparr>b_rng := s\<rparr>)))"

section \<open>Prefix-hash router\<close>

text \<open>
  The 64-bit hash (\<^verbatim>\<open>blake2b\<close>) is a parameter. The load gate is computed in double precision by the
  operations of \<^verbatim>\<open>numpy\<close>, as the source computes it with Python floats.
\<close>

record 'f PrefixHashRouter =
  worker_urls :: "string list"
  prefix_byte_count :: int
  load_factor :: 'f
  ring_pos :: "nat list"
  ring_idx :: "nat list"

fun str_nat :: "nat \<Rightarrow> string" where
  "str_nat n = (if n < 10 then [char_of (48 + n)] else str_nat (n div 10) @ [char_of (48 + n mod 10)])"

declare str_nat.simps [simp del]

definition encode :: "string \<Rightarrow> bytes" where
  "encode s = map of_char s"

definition ring_entries :: "(bytes \<Rightarrow> nat) \<Rightarrow> string list \<Rightarrow> nat \<Rightarrow> (nat \<times> nat) list" where
  "ring_entries hash64 urls vnodes =
     concat (map (\<lambda>(w, url). map (\<lambda>v. (hash64 (encode (url @ ''#'' @ str_nat v)), w)) [0..<vnodes])
       (enumerate 0 urls))"

definition make_prefix_hash ::
  "'f numpy \<Rightarrow> (bytes \<Rightarrow> nat) \<Rightarrow> string list \<Rightarrow> int \<Rightarrow> 'f \<Rightarrow> nat \<Rightarrow> 'f PrefixHashRouter res" where
  "make_prefix_hash np hash64 urls nbytes factor vnodes =
     (if urls = [] then Inl (ValueError ''worker_urls must be non-empty'')
      else if nbytes \<le> 0 then Inl (ValueError ''prefix_byte_count must be positive'')
      else if \<not> np_isfinite np factor \<or> \<not> np_le np (np_one np) factor
      then Inl (ValueError ''load_factor must be finite and >= 1.0'')
      else
        let entries = sort (ring_entries hash64 urls vnodes)
        in Inr \<lparr>worker_urls = urls, prefix_byte_count = nbytes, load_factor = factor,
                ring_pos = map fst entries, ring_idx = map snd entries\<rparr>)"

text \<open>\<^verbatim>\<open>bisect.bisect_left\<close>: the halving loop on the half-open range \<open>[lo, hi)\<close>.\<close>

function bisect_left :: "nat list \<Rightarrow> nat \<Rightarrow> nat \<Rightarrow> nat \<Rightarrow> nat" where
  "bisect_left a x lo hi =
     (if lo < hi
      then let mid = (lo + hi) div 2
           in if a ! mid < x then bisect_left a x (mid + 1) hi else bisect_left a x lo mid
      else lo)"
  by auto

termination bisect_left
  by (relation "measure (\<lambda>(_, _, lo, hi). hi - lo)") auto

declare bisect_left.simps [simp del]

definition ring_lookup :: "'f PrefixHashRouter \<Rightarrow> nat \<Rightarrow> nat res" where
  "ring_lookup r h =
     (let i = bisect_left (ring_pos r) h 0 (length (ring_pos r));
          j = (if length (ring_pos r) \<le> i then 0 else i)
      in py_nth (ring_idx r) (int j))"

text \<open>\<^verbatim>\<open>min(workers, key=lambda i: (loads[i], i))\<close>\<close>

definition least_loaded :: "int list \<Rightarrow> nat" where
  "least_loaded loads = snd (Min (set (map (\<lambda>i. (loads ! i, i)) [0..<length loads])))"

definition within_gate :: "'f numpy \<Rightarrow> 'f \<Rightarrow> int list \<Rightarrow> int \<Rightarrow> bool" where
  "within_gate np factor loads l =
     np_le np (np_of_int np l)
       (np_mul np (np_div np (np_of_int np (sum_list loads + 1)) (np_of_int np (int (length loads)))) factor)"

definition prefix_select ::
  "'f numpy \<Rightarrow> (bytes \<Rightarrow> nat) \<Rightarrow> bytes \<Rightarrow> int list \<Rightarrow> 'f PrefixHashRouter \<Rightarrow> nat res" where
  "prefix_select np hash64 key loads r =
     (if length loads \<noteq> length (worker_urls r) then Inl (ValueError ''loads length must equal number of workers'')
      else if key = [] then Inr (least_loaded loads)
      else res_bind (ring_lookup r (hash64 (take (nat (prefix_byte_count r)) key))) (\<lambda>initial.
        if within_gate np (load_factor r) loads (loads ! initial) then Inr initial
        else Inr (least_loaded loads)))"

section \<open>Lemmas\<close>

lemma band_min_spec:
  assumes np: "np_order np" "np_amax_ok np" "np_argmin_ok np" "np_sub_ok np" "np_of_int_ok np"
    and s: "scores \<noteq> []" "\<forall>x \<in> set scores. \<not> np_isnan np x" "length loads = length scores"
    and t: "np_isfinite np tau" "np_le np (np_zero np) tau" and l: "\<forall>x \<in> set loads. \<bar>x\<bar> \<le> 2 ^ 53"
  shows "\<exists>i. band_min np scores loads tau = Inr i \<and> i \<in> set (locality_candidates np scores tau) \<and>
     (\<forall>j \<in> set (locality_candidates np scores tau). loads ! i < loads ! j \<or> loads ! i = loads ! j \<and> i \<le> j)"
    and "\<forall>i < length scores. scores ! i = np_amax np scores \<longrightarrow> i \<in> set (locality_candidates np scores tau)"
proof -
  let ?m = "np_amax np scores" and ?E = "locality_candidates np scores tau"
  have m: "?m \<in> set scores" using np(2) s by (simp add: np_amax_ok_def)
  then have nn: "\<not> np_isnan np ?m" using s(2) by blast
  then have "np_le np (np_sub np ?m tau) ?m" using np(4) t by (simp add: np_sub_ok_def)
  then show best: "\<forall>i < length scores. scores ! i = ?m \<longrightarrow> i \<in> set ?E"
    by (auto simp: locality_candidates_def flatnonzero_set)
  have "?E \<noteq> []" using best m by (metis in_set_conv_nth length_greater_0_conv length_pos_if_in_set)
  let ?w = "map (\<lambda>i. map (np_of_int np) loads ! i) ?E"
  have E: "i < length loads" if "i \<in> set ?E" for i
    using that s(3) by (simp add: locality_candidates_def flatnonzero_set)
  have w: "?w = map (\<lambda>i. np_of_int np (loads ! i)) ?E" using E by simp
  define p where "p = np_argmin np ?w"
  have "\<forall>x \<in> set ?w. \<not> np_isnan np x" unfolding w using np(5) by (auto simp: np_of_int_ok_def)
  moreover have "?w \<noteq> []" using \<open>?E \<noteq> []\<close> by simp
  ultimately have A: "p < length ?w" "\<forall>x \<in> set ?w. np_le np (?w ! p) x" "\<forall>j < p. \<not> np_le np (?w ! j) (?w ! p)"
    unfolding p_def using np_argmin_okD [OF np(3)] by blast+
  have "p < length ?E" using A(1) by simp
  note a = this A(2,3)
  have le: "np_le np (np_of_int np (loads ! i)) (np_of_int np (loads ! j)) \<longleftrightarrow> loads ! i \<le> loads ! j"
    if "i \<in> set ?E" "j \<in> set ?E" for i j
    using np(5) l E [OF that(1)] E [OF that(2)] by (simp add: np_of_int_ok_def)
  have "loads ! (?E ! p) < loads ! j \<or> loads ! (?E ! p) = loads ! j \<and> ?E ! p \<le> j" if j: "j \<in> set ?E" for j
  proof -
    obtain q where q: "q < length ?E" "j = ?E ! q" using j by (metis in_set_conv_nth)
    have 1: "loads ! (?E ! p) \<le> loads ! j"
      using a(1,2) j le [of "?E ! p" j] unfolding w by simp
    show ?thesis
    proof (cases "p \<le> q")
      case True
      have "sorted ?E" by (simp add: locality_candidates_def flatnonzero_def sorted_wrt_filter)
      then have "?E ! p \<le> j" using True q by (simp add: sorted_nth_mono)
      with 1 show ?thesis by linarith
    next
      case False
      then have "\<not> np_le np (?w ! q) (?w ! p)" using a(3) by simp
      then have "\<not> loads ! j \<le> loads ! (?E ! p)"
        using le [of j "?E ! p"] q a(1) unfolding w by simp
      then show ?thesis by linarith
    qed
  qed
  moreover have "band_min np scores loads tau = Inr (?E ! p)"
    using \<open>?E \<noteq> []\<close> by (simp add: band_min_def Let_def p_def)
  ultimately show "\<exists>i. band_min np scores loads tau = Inr i \<and> i \<in> set ?E \<and>
     (\<forall>j \<in> set ?E. loads ! i < loads ! j \<or> loads ! i = loads ! j \<and> i \<le> j)"
    using a(1) by (intro exI [of _ "?E ! p"]) simp
qed

lemma bisect_left_spec:
  "sorted a \<Longrightarrow> lo \<le> hi \<Longrightarrow> hi \<le> length a \<Longrightarrow>
   lo \<le> bisect_left a x lo hi \<and> bisect_left a x lo hi \<le> hi \<and>
   (\<forall>i < bisect_left a x lo hi. lo \<le> i \<longrightarrow> a ! i < x) \<and> (\<forall>i. bisect_left a x lo hi \<le> i \<and> i < hi \<longrightarrow> x \<le> a ! i)"
proof (induction a x lo hi rule: bisect_left.induct)
  case (1 a x lo hi)
  show ?case
  proof (cases "lo < hi")
    case False
    then show ?thesis using 1(4) by (subst (1 2 3 4) bisect_left.simps) auto
  next
    case True
    define mid where "mid = (lo + hi) div 2"
    have mid: "lo \<le> mid" "mid < hi" "mid < length a" using True 1(5) by (auto simp: mid_def)
    show ?thesis
    proof (cases "a ! mid < x")
      case True
      have "a ! i < x" if "i \<le> mid" for i
        using sorted_nth_mono [OF 1(3) that mid(3)] True by simp
      moreover have "bisect_left a x lo hi = bisect_left a x (mid + 1) hi"
        using \<open>lo < hi\<close> True by (subst bisect_left.simps) (simp add: mid_def Let_def)
      ultimately show ?thesis
        using 1(1) [OF \<open>lo < hi\<close> mid_def True 1(3)] mid 1(5) by (auto simp: not_less_eq_eq)
    next
      case False
      have "x \<le> a ! i" if "mid \<le> i" "i < hi" for i
        using sorted_nth_mono [OF 1(3) that(1)] that(2) 1(5) False by simp
      moreover have "bisect_left a x lo hi = bisect_left a x lo mid"
        using \<open>lo < hi\<close> False by (subst bisect_left.simps) (simp add: mid_def Let_def)
      ultimately show ?thesis
        using 1(2) [OF \<open>lo < hi\<close> mid_def False 1(3)] mid 1(5) by auto (metis leI)
    qed
  qed
qed

lemma least_loaded_spec:
  assumes "loads \<noteq> []"
  shows "least_loaded loads < length loads"
    and "j < length loads \<Longrightarrow> loads ! least_loaded loads < loads ! j \<or>
      loads ! least_loaded loads = loads ! j \<and> least_loaded loads \<le> j"
proof -
  let ?S = "set (map (\<lambda>i. (loads ! i, i)) [0..<length loads])"
  have "Min ?S \<in> ?S" using assms by (intro Min_in) simp_all
  then obtain i where i: "i < length loads" "Min ?S = (loads ! i, i)" by auto
  then show "least_loaded loads < length loads" by (simp add: least_loaded_def)
  show "loads ! least_loaded loads < loads ! j \<or> loads ! least_loaded loads = loads ! j \<and> least_loaded loads \<le> j"
    if "j < length loads"
  proof -
    have "Min ?S \<le> (loads ! j, j)" using that by (intro Min_le) auto
    then show ?thesis using i by (auto simp: least_loaded_def)
  qed
qed

section \<open>Properties\<close>

text \<open>
  C33. Locality-band routing picks the least loaded worker that is close enough. With finite
  non-negative tolerance, a signature of the centroids' width, one centroid per decoder, scores
  that are not NaN and loads below \<open>2 ^ 53\<close>, the router returns a decoder whose score is within the
  tolerance of the best score; no decoder in that band has a smaller load, nor the same load and a
  smaller index; and the best-scoring decoder is in the band.
\<close>

theorem route_jsq_least_loaded_in_band:
  fixes np :: "'f numpy"
  defines "scores \<equiv> \<lambda>C v. map (\<lambda>c. np_dot np c v) C"
  assumes np: "np_order np" "np_amax_ok np" "np_argmin_ok np" "np_sub_ok np" "np_of_int_ok np"
    and t: "np_isfinite np tau" "np_le np (np_zero np) tau"
    and v: "build_signature np cd counts = Inr (Nd [length v] v)"
    and C: "centroid_matrix cd = Some C" "C \<noteq> []" "length loads = length C" "\<forall>c \<in> set C. length c = length v"
    and nan: "\<forall>x \<in> set (scores C v). \<not> np_isnan np x" and l: "\<forall>x \<in> set loads. \<bar>x\<bar> \<le> 2 ^ 53"
  shows "\<exists>i. route_jsq np cd counts loads tau = Inr i \<and> i < length loads \<and>
     np_le np (np_sub np (np_amax np (scores C v)) tau) (scores C v ! i) \<and>
     (\<forall>j < length loads. np_le np (np_sub np (np_amax np (scores C v)) tau) (scores C v ! j) \<longrightarrow>
        loads ! i < loads ! j \<or> loads ! i = loads ! j \<and> i \<le> j) \<and>
     (\<forall>j < length loads. scores C v ! j = np_amax np (scores C v) \<longrightarrow>
        np_le np (np_sub np (np_amax np (scores C v)) tau) (scores C v ! j))"
proof -
  have len: "scores C v \<noteq> []" "length loads = length (scores C v)" using C by (simp_all add: scores_def)
  have mem: "i \<in> set (locality_candidates np (scores C v) tau) \<longleftrightarrow> i < length loads \<and>
      np_le np (np_sub np (np_amax np (scores C v)) tau) (scores C v ! i)" for i
    using len(2) by (auto simp: locality_candidates_def flatnonzero_set)
  have r: "route_jsq np cd counts loads tau = band_min np (scores C v) loads tau"
    using t C v by (auto simp: route_jsq_def Let_def scores_def list_all_iff)
  note B = band_min_spec [OF np len(1) nan len(2) t l]
  obtain i where i: "band_min np (scores C v) loads tau = Inr i" "i \<in> set (locality_candidates np (scores C v) tau)"
    "\<forall>j \<in> set (locality_candidates np (scores C v) tau). loads ! i < loads ! j \<or> loads ! i = loads ! j \<and> i \<le> j"
    using B(1) by blast
  show ?thesis
    by (rule exI [of _ i]) (use r i B(2) in \<open>simp add: mem len(2)\<close>)
qed

theorem route_jsq_least_loaded_in_band_witness:
  "\<exists>i. route_jsq int_np
      \<lparr>cd_json = [(''L'', JInt 1), (''e'', JInt 2)], centroid_matrix = Some [[1, 0], [0, 1], [1, 0]],
       cd_mask = None, cd_idf = None\<rparr> (Nd [1, 2] [9, 0]) [4, 0, 3] 0 = Inr i \<and> i < 3"
proof -
  let ?cd = "\<lparr>cd_json = [(''L'', JInt 1), (''e'', JInt 2)], centroid_matrix = Some [[1, 0], [0, 1], [1, 0]],
       cd_mask = None, cd_idf = None\<rparr>"
  have b: "build_signature int_np ?cd (Nd [1, 2] [9, 0]) = Inr (Nd [length [1::int, 0]] [1, 0])"
    by (simp add: build_signature_def jget_or_def jitem_def Let_def normalize_counts_def unit_row_def int_np_def)
  show ?thesis
    using route_jsq_least_loaded_in_band [OF int_np_ok(1,2,3,5,6) _ _ b, of 0 "[[1, 0], [0, 1], [1, 0]]" "[4, 0, 3]"]
    by (auto simp: int_np_def)
qed

lemma make_prefix_hash_Inr:
  assumes "make_prefix_hash np hash64 urls nbytes factor vnodes = Inr r"
  shows "worker_urls r = urls" "urls \<noteq> []" "load_factor r = factor" "np_isfinite np factor" "np_le np (np_one np) factor"
    "sorted (ring_pos r)" "length (ring_idx r) = length urls * vnodes" "length (ring_pos r) = length (ring_idx r)"
    "zip (ring_pos r) (ring_idx r) = sort (ring_entries hash64 urls vnodes)"
    "\<forall>i \<in> set (ring_idx r). i < length urls"
proof -
  let ?es = "sort (ring_entries hash64 urls vnodes)"
  have r: "r = \<lparr>worker_urls = urls, prefix_byte_count = nbytes, load_factor = factor,
      ring_pos = map fst ?es, ring_idx = map snd ?es\<rparr>"
    and c: "urls \<noteq> []" "np_isfinite np factor" "np_le np (np_one np) factor"
    using assms by (auto simp: make_prefix_hash_def Let_def split: if_splits)
  then show "worker_urls r = urls" "urls \<noteq> []" "load_factor r = factor" "np_isfinite np factor" "np_le np (np_one np) factor"
    by simp_all
  have "sorted ?es" by simp
  then have "sorted_wrt (\<lambda>x y. fst x \<le> fst y) ?es"
    by (rule sorted_wrt_mono_rel [rotated]) (auto simp: less_eq_prod_def)
  then have "sorted (map fst ?es)" by (simp add: sorted_wrt_map)
  then show "sorted (ring_pos r)" by (simp add: r)
  have "length (ring_entries hash64 urls vnodes) = length urls * vnodes"
    by (simp add: ring_entries_def length_concat comp_def case_prod_beta sum_list_triv)
  then show "length (ring_idx r) = length urls * vnodes" by (simp add: r)
  show "length (ring_pos r) = length (ring_idx r)" by (simp add: r)
  show "zip (ring_pos r) (ring_idx r) = ?es" by (simp add: r zip_map_fst_snd)
  show "\<forall>i \<in> set (ring_idx r). i < length urls"
    by (auto simp: r ring_entries_def in_set_enumerate_eq)
qed

lemma ring_lookup_spec:
  assumes r: "make_prefix_hash np hash64 urls nbytes factor vnodes = Inr r" and v: "0 < vnodes"
  shows "\<exists>j < length (ring_pos r). ring_lookup r h = Inr (ring_idx r ! j) \<and> ring_idx r ! j < length urls \<and>
     (if \<exists>p \<in> set (ring_pos r). h \<le> p
      then h \<le> ring_pos r ! j \<and> (\<forall>i < j. ring_pos r ! i < h) else j = 0)"
proof -
  note R = make_prefix_hash_Inr [OF r]
  let ?n = "length (ring_pos r)"
  define i where "i = bisect_left (ring_pos r) h 0 ?n"
  have "0 < ?n" using R(2,7,8) v by simp
  have b: "i \<le> ?n" "\<forall>k < i. ring_pos r ! k < h" "\<forall>k. i \<le> k \<and> k < ?n \<longrightarrow> h \<le> ring_pos r ! k"
    using bisect_left_spec [OF R(6), of 0 ?n h] by (simp_all add: i_def)
  define j where "j = (if ?n \<le> i then 0 else i)"
  have j: "j < ?n" using \<open>0 < ?n\<close> by (simp add: j_def)
  have "ring_lookup r h = Inr (ring_idx r ! j)"
    unfolding ring_lookup_def Let_def i_def [symmetric] j_def [symmetric] using j R(8) by simp
  moreover have "ring_idx r ! j < length urls" using R(8,10) j by simp
  moreover have "if \<exists>p \<in> set (ring_pos r). h \<le> p
      then h \<le> ring_pos r ! j \<and> (\<forall>i < j. ring_pos r ! i < h) else j = 0"
  proof (cases "?n \<le> i")
    case True
    then have "\<not> (\<exists>p \<in> set (ring_pos r). h \<le> p)" using b(1,2) by (auto simp: in_set_conv_nth not_le)
    then show ?thesis using True by (simp add: j_def)
  next
    case False
    then have "h \<le> ring_pos r ! i" using b(3) by simp
    moreover have "ring_pos r ! i \<in> set (ring_pos r)" using False by simp
    ultimately show ?thesis using False b(2) unfolding j_def by (auto intro!: bexI [of _ "ring_pos r ! i"])
  qed
  ultimately show ?thesis using j by blast
qed

lemma least_load_within_gate:
  assumes np: "np_order np" "np_div_ok np" "np_scale_ok np" and c: "np_isfinite np c" "np_le np (np_one np) c"
    and m: "m * int (length loads) \<le> sum_list loads" "0 \<le> m" and l: "loads \<noteq> []" "sum_list loads < 2 ^ 53"
  shows "within_gate np c loads m"
proof -
  let ?avg = "np_div np (np_of_int np (sum_list loads + 1)) (np_of_int np (int (length loads)))"
  have d: "np_le np (np_of_int np k) ?avg" if "0 \<le> k" "k * int (length loads) \<le> sum_list loads + 1" for k
    using np(2) that l by (simp add: np_div_ok_def)
  have "0 \<le> m * int (length loads)" using m(2) by simp
  then have "0 \<le> sum_list loads" using m(1) by linarith
  then have "np_le np (np_of_int np 0) ?avg" by (intro d) simp_all
  then have "np_le np ?avg (np_mul np ?avg c)" using np(3) c by (simp add: np_scale_ok_def)
  moreover have "np_le np (np_of_int np m) ?avg" using m by (intro d) simp_all
  ultimately show ?thesis using np(1) unfolding within_gate_def np_order_def by blast
qed

text \<open>
  C36. Consistent hashing of prefixes. The ring lookup of a constructed router with at least one
  virtual node per worker finds, by bisection, the first ring position at or after the hash, and
  wraps to the first position when there is none. A non-empty key goes to the worker that owns
  that position if its load passes the gate; every other request goes to the least loaded
  worker, the lowest index among equals. For non-negative loads whose sum is below \<open>2 ^ 53\<close>,
  no request goes to a worker above the gate: the least loaded worker always passes it.
\<close>

theorem prefix_select_correct:
  assumes r: "make_prefix_hash np hash64 urls nbytes factor vnodes = Inr r" and v: "0 < vnodes"
    and l: "length loads = length urls"
    and np: "np_order np" "np_div_ok np" "np_scale_ok np"
    and nn: "\<forall>x \<in> set loads. 0 \<le> x" and small: "sum_list loads < 2 ^ 53"
  shows "\<exists>i j. prefix_select np hash64 key loads r = Inr i \<and> i < length urls \<and>
     j < length (ring_pos r) \<and>
     (if \<exists>p \<in> set (ring_pos r). hash64 (take (nat (prefix_byte_count r)) key) \<le> p
      then hash64 (take (nat (prefix_byte_count r)) key) \<le> ring_pos r ! j \<and>
        (\<forall>k < j. ring_pos r ! k < hash64 (take (nat (prefix_byte_count r)) key))
      else j = 0) \<and>
     (if key \<noteq> [] \<and> within_gate np factor loads (loads ! (ring_idx r ! j)) then i = ring_idx r ! j
      else \<forall>k < length loads. loads ! i < loads ! k \<or> loads ! i = loads ! k \<and> i \<le> k) \<and>
     within_gate np factor loads (loads ! i)"
proof -
  note R = make_prefix_hash_Inr [OF r]
  let ?h = "hash64 (take (nat (prefix_byte_count r)) key)" and ?m = "least_loaded loads"
  have ne: "loads \<noteq> []" using l R(2) by auto
  note M = least_loaded_spec [OF ne]
  obtain j where j: "j < length (ring_pos r)" "ring_lookup r ?h = Inr (ring_idx r ! j)" "ring_idx r ! j < length urls"
     "if \<exists>p \<in> set (ring_pos r). ?h \<le> p then ?h \<le> ring_pos r ! j \<and> (\<forall>i < j. ring_pos r ! i < ?h) else j = 0"
    using ring_lookup_spec [OF r v] by blast
  have "loads ! ?m * int (length loads) \<le> sum_list loads"
  proof -
    have "sum_list (map (\<lambda>_. loads ! ?m) loads) \<le> sum_list (map (\<lambda>x. x) loads)"
    proof (rule sum_list_mono)
      fix x
      assume "x \<in> set loads"
      then obtain k where "k < length loads" "x = loads ! k" by (metis in_set_conv_nth)
      then show "loads ! ?m \<le> x" using M(2) [of k] by auto
    qed
    then show ?thesis by (simp add: sum_list_triv mult.commute)
  qed
  then have gate: "within_gate np factor loads (loads ! ?m)"
    using M(1) nn small ne np R(4,5) by (intro least_load_within_gate) simp_all
  show ?thesis
  proof (cases "key \<noteq> [] \<and> within_gate np factor loads (loads ! (ring_idx r ! j))")
    case True
    then have "prefix_select np hash64 key loads r = Inr (ring_idx r ! j)"
      using j(2) l R(1,3) by (simp add: prefix_select_def)
    then show ?thesis using True j by (intro exI [of _ "ring_idx r ! j"] exI [of _ j]) simp
  next
    case False
    then have "prefix_select np hash64 key loads r = Inr ?m"
      using j(2) l R(1,3) by (auto simp: prefix_select_def)
    moreover have "if key \<noteq> [] \<and> within_gate np factor loads (loads ! (ring_idx r ! j)) then ?m = ring_idx r ! j
      else \<forall>k < length loads. loads ! ?m < loads ! k \<or> loads ! ?m = loads ! k \<and> ?m \<le> k"
      unfolding if_not_P [OF False] using M(2) by blast
    moreover have "?m < length urls" using M(1) l by simp
    ultimately show ?thesis using j(1,4) gate by blast
  qed
qed

lemma example_ring:
  "make_prefix_hash int_np length [''a'', ''bcd''] 4 1 1 = Inr
     \<lparr>worker_urls = [''a'', ''bcd''], prefix_byte_count = 4, load_factor = 1, ring_pos = [3, 5], ring_idx = [0, 1]\<rparr>"
  by (simp add: make_prefix_hash_def ring_entries_def encode_def str_nat.simps [of 0] int_np_def)

theorem prefix_select_correct_witness:
  "\<exists>i. prefix_select int_np length [1, 2, 3, 4] [7, 2]
     \<lparr>worker_urls = [''a'', ''bcd''], prefix_byte_count = 4, load_factor = 1, ring_pos = [3, 5], ring_idx = [0, 1]\<rparr> = Inr i \<and>
     within_gate int_np 1 [7, 2] ([7, 2] ! i)"
  using prefix_select_correct [OF example_ring, of "[7, 2]" "[1, 2, 3, 4]"] int_np_ok by auto


text \<open>
  The load baselines stay in range and keep their promises. For a router with at least one
  worker, a matching number of loads and a generator that stays in range, selection never fails
  and returns a worker index; join-shortest-queue returns a worker of minimal load; two-choices
  never returns the more loaded of two distinct sampled workers; round robin returns the
  counter and advances it cyclically. A wrong number of loads is an error.
\<close>

lemma baseline_select_correct:
  assumes g: "rng_ok g" and n: "0 < b_workers r" "b_next r < b_workers r"
  shows "case baseline_select g loads r of
     Inl e \<Rightarrow> e = ValueError ''Worker count and load count differ'' \<and> length loads \<noteq> b_workers r
   | Inr (i, r') \<Rightarrow> length loads = b_workers r \<and> i < b_workers r \<and>
       b_workers r' = b_workers r \<and> b_policy r' = b_policy r \<and> b_next r' < b_workers r \<and>
       (case b_policy r of
          RR \<Rightarrow> i = b_next r \<and> b_next r' = (b_next r + 1) mod b_workers r
        | JSQ \<Rightarrow> \<forall>j < length loads. loads ! i \<le> loads ! j
        | P2C \<Rightarrow> b_workers r = 1 \<or> (\<exists>j < b_workers r. j \<noteq> i \<and> loads ! i \<le> loads ! j)
        | Rand \<Rightarrow> True)"
proof (cases "length loads = b_workers r")
  case False
  then show ?thesis by (simp add: baseline_select_def Let_def)
next
  case len: True
  show ?thesis
  proof (cases "b_policy r")
    case RR
    then show ?thesis using len n by (simp add: baseline_select_def Let_def)
  next
    case Rand
    moreover obtain i s where "randbelow g (b_rng r) (b_workers r) = (i, s)" by force
    moreover from this have "i < b_workers r" using g n(1) unfolding rng_ok_def by (metis fst_conv)
    ultimately show ?thesis using len n by (simp add: baseline_select_def Let_def)
  next
    case P2C
    show ?thesis
    proof (cases "b_workers r = 1")
      case True
      then show ?thesis using P2C len n by (simp add: baseline_select_def Let_def)
    next
      case False
      obtain a b s where s: "sample2 g (b_rng r) (b_workers r) = (a, b, s)" by (metis prod_cases3)
      have "2 \<le> b_workers r" using False n by simp
      then have "a < b_workers r \<and> b < b_workers r \<and> a \<noteq> b"
        using g [unfolded rng_ok_def, THEN conjunct2, rule_format, of "b_workers r" "b_rng r"] s by simp
      then show ?thesis using P2C False s len n by (auto simp: baseline_select_def Let_def not_le)
    qed
  next
    case JSQ
    define tied where "tied = filter (\<lambda>i. loads ! i = Min (set loads)) [0..<b_workers r]"
    have ne: "loads \<noteq> []" using len n by auto
    then have "Min (set loads) \<in> set loads" by (intro Min_in) simp_all
    then obtain m where "m < length loads" "loads ! m = Min (set loads)" by (metis in_set_conv_nth)
    then have "m \<in> set tied" by (simp add: tied_def len)
    then have t: "tied \<noteq> []" by auto
    have good: "i < b_workers r \<and> (\<forall>j < length loads. loads ! i \<le> loads ! j)" if "i \<in> set tied" for i
      using that by (auto simp: tied_def)
    obtain j s where r: "randbelow g (b_rng r) (length tied) = (j, s)" by force
    have "j < length tied" using g t r unfolding rng_ok_def by (metis fst_conv length_greater_0_conv)
    then have "tied ! j \<in> set tied" "tied ! 0 \<in> set tied" using t by simp_all
    then show ?thesis
      using JSQ len n r good [of "tied ! j"] good [of "tied ! 0"]
      by (simp add: baseline_select_def Let_def tied_def [symmetric])
  qed
qed

end
