(* ===== verification/Centroid_Update.thy ===== *)
theory Centroid_Update
  imports Routing "HOL-Library.Multiset"
begin

text \<open>
  Online centroid adaptation (\<^verbatim>\<open>eldr/serving/centroid_update.py\<close>): the updater with its rolling
  window and its one background fit, and the router built on it. The routing thread runs
  \<^verbatim>\<open>update\<close>, \<^verbatim>\<open>route\<close> and \<^verbatim>\<open>close\<close>; the executor's worker thread picks the submitted job up and
  finishes it at any moment in between, which are steps of their own in the relation
  \<^verbatim>\<open>online_run\<close>. The read-only flags of arrays and the log are left out.
\<close>

section \<open>Fitting\<close>

definition align_centroids :: "'f numpy \<Rightarrow> 'f list list \<Rightarrow> 'f list list \<Rightarrow> 'f list list" where
  "align_centroids np current fitted =
     (let cost = map (\<lambda>c. map (\<lambda>f. np_neg np (np_dot np c f)) fitted) current;
          (rows, columns) = np_assignment np cost
      in fold (\<lambda>(r, c) aligned. aligned[r := fitted ! c]) (zip rows columns) (np_empty_like np fitted))"

definition run_refit :: "'f numpy \<Rightarrow> 'f list list \<Rightarrow> 'f list list \<Rightarrow> bool \<Rightarrow> 'f list list res" where
  "run_refit np signature_rows centroids balanced =
     (if signature_rows = [] \<or> \<not> list_all (\<lambda>r. length r = length (hd signature_rows)) signature_rows
      then Inl (ValueError ''all input arrays must have the same shape'')
      else
        res_bind (if balanced then balanced_spherical_kmeans np signature_rows centroids 50
                  else Inr (vanilla_spherical_kmeans np signature_rows centroids 50)) (\<lambda>fitted.
        if map length fitted \<noteq> map length centroids \<or> \<not> list_all (list_all (np_isfinite np)) fitted
        then Inl (ValueError ''invalid centroid shape/value'')
        else Inr (align_centroids np centroids fitted)))"

section \<open>The updater\<close>

text \<open>
  A future of the one-thread executor: the submitted job waits in the queue, runs, has finished
  with a result or an exception, or was cancelled while it waited.
\<close>

record 'f refit_job =
  job_rows :: "'f list list"
  job_centroids :: "'f list list"
  job_balanced :: bool

datatype 'f fit_state =
    Queued "'f refit_job"
  | Running "'f refit_job"
  | Finished "'f list list res"
  | Cancelled

fun future_done :: "'f fit_state \<Rightarrow> bool" where
  "future_done (Queued j) = False"
| "future_done (Running j) = False"
| "future_done (Finished r) = True"
| "future_done Cancelled = True"

fun future_result :: "'f fit_state \<Rightarrow> 'f list list res" where
  "future_result (Finished r) = r"
| "future_result _ = Inl CancelledError"

fun future_cancel :: "'f fit_state \<Rightarrow> 'f fit_state" where
  "future_cancel (Queued j) = Cancelled"
| "future_cancel f = f"

record 'f CentroidUpdater =
  dim :: nat
  window_seconds :: 'f
  refit_seconds :: 'f
  balanced :: bool
  centroids :: "'f list list"
  signatures :: "('f \<times> 'f list) list"
  history_started_at :: "'f option"
  last_refit_started_at :: "'f option"
  fit_future :: "'f fit_state option"
  closed :: bool
  refits_started :: nat
  refits_completed :: nat
  last_refit_error :: "py_error option"

record 'f OnlineJSQRouter = "'f CentroidUpdater" +
  o_worker_urls :: "string list"
  o_tau :: 'f

text \<open>
  The constructor; \<^verbatim>\<open>warm\<close> is the outcome of the warm-up job. The two constructors of the source
  are one here, with the checks of the subclass first, as they run.
\<close>

definition make_online ::
  "'f numpy \<Rightarrow> unit res \<Rightarrow> string list \<Rightarrow> 'f nd \<Rightarrow> 'f \<Rightarrow> 'f \<Rightarrow> 'f \<Rightarrow> bool \<Rightarrow> 'f OnlineJSQRouter res" where
  "make_online np warm urls seeds tau window refit bal =
     (if urls = [] then Inl (ValueError ''worker_urls must be non-empty'')
      else if \<not> np_isfinite np tau \<or> np_lt np tau (np_zero np)
      then Inl (ValueError ''tau must be finite and non-negative'')
      else if nd_shape seeds = [] then Inl TypeError
      else if length urls \<noteq> hd (nd_shape seeds)
      then Inl (ValueError ''Require one nonzero seed per decoder in a fixed group'')
      else if \<not> np_isfinite np window \<or> np_le np window (np_zero np)
      then Inl (ValueError ''window_seconds must be positive and finite'')
      else if \<not> np_isfinite np refit \<or> np_le np refit (np_zero np)
      then Inl (ValueError ''refit_seconds must be positive and finite'')
      else case nd_shape seeds of
        [k, d] \<Rightarrow>
          if k = 0 \<or> d < 1 then Inl (ValueError ''seed_centroids must have shape [K, dim]'')
          else if \<not> list_all (np_isfinite np) (nd_data seeds)
          then Inl (ValueError ''seed_centroids must be finite'')
          else
            let rows = nd_rows k d (nd_data seeds) in
            if list_ex (\<lambda>r. np_le np (np_norm np r) (np_eps np)) rows
            then Inl (ValueError ''Require one nonzero seed per decoder in a fixed group'')
            else res_bind warm (\<lambda>_. Inr
              \<lparr>dim = d, window_seconds = window, refit_seconds = refit, balanced = bal,
               centroids = map (\<lambda>r. map (\<lambda>x. np_div np x (np_norm np r)) r) rows,
               signatures = [], history_started_at = None, last_refit_started_at = None,
               fit_future = None, closed = False, refits_started = 0, refits_completed = 0,
               last_refit_error = None, o_worker_urls = urls, o_tau = tau\<rparr>)
      | _ \<Rightarrow> Inl (ValueError ''seed_centroids must have shape [K, dim]''))"

definition poll_refit :: "('f, 'z) CentroidUpdater_scheme \<Rightarrow> ('f, 'z) CentroidUpdater_scheme" where
  "poll_refit u =
     (case fit_future u of
        None \<Rightarrow> u
      | Some future \<Rightarrow>
          if \<not> future_done future then u
          else
            let u1 = u\<lparr>fit_future := None\<rparr> in
            case future_result future of
              Inl e \<Rightarrow> u1\<lparr>last_refit_error := Some e\<rparr>
            | Inr fitted \<Rightarrow>
                if closed u1 then u1
                else u1\<lparr>centroids := fitted, refits_completed := refits_completed u1 + 1, last_refit_error := None\<rparr>)"

definition expire_signatures :: "'f numpy \<Rightarrow> 'f \<Rightarrow> ('f, 'z) CentroidUpdater_scheme \<Rightarrow> ('f, 'z) CentroidUpdater_scheme" where
  "expire_signatures np now u =
     (let cutoff = np_sub np now (window_seconds u)
      in u\<lparr>signatures := dropWhile (\<lambda>(t, _). np_lt np t cutoff) (signatures u)\<rparr>)"

definition maybe_start_refit :: "'f numpy \<Rightarrow> 'f \<Rightarrow> ('f, 'z) CentroidUpdater_scheme \<Rightarrow> ('f, 'z) CentroidUpdater_scheme" where
  "maybe_start_refit np now u =
     (let first_window_ready =
            (case history_started_at u of None \<Rightarrow> False | Some t \<Rightarrow> np_le np (window_seconds u) (np_sub np now t));
          interval_ready =
            (case last_refit_started_at u of None \<Rightarrow> True | Some t \<Rightarrow> np_le np (refit_seconds u) (np_sub np now t))
      in if closed u \<or> fit_future u \<noteq> None \<or> length (signatures u) < length (centroids u)
            \<or> \<not> first_window_ready \<or> \<not> interval_ready
         then u
         else u\<lparr>fit_future := Some (Queued \<lparr>job_rows = map snd (signatures u), job_centroids = centroids u,
                                            job_balanced = balanced u\<rparr>),
                last_refit_started_at := Some now, refits_started := refits_started u + 1\<rparr>)"

text \<open>\<^verbatim>\<open>signature.any()\<close>: some element is not zero (a NaN counts).\<close>

definition np_any :: "'f numpy \<Rightarrow> 'f list \<Rightarrow> bool" where
  "np_any np v = list_ex (\<lambda>x. \<not> (np_le np x (np_zero np) \<and> np_le np (np_zero np) x)) v"

definition update ::
  "'f numpy \<Rightarrow> 'f list \<Rightarrow> 'f \<Rightarrow> ('f, 'z) CentroidUpdater_scheme \<Rightarrow> ('f, 'z) CentroidUpdater_scheme" where
  "update np signature now u =
     (let u1 = expire_signatures np now (poll_refit u)
      in if \<not> closed u1 \<and> np_any np signature
         then
           let u2 = (if history_started_at u1 = None then u1\<lparr>history_started_at := Some now\<rparr> else u1);
               u3 = u2\<lparr>signatures := signatures u2 @ [(now, signature)]\<rparr>
           in maybe_start_refit np now u3
         else u1)"

record 'f updater_status =
  st_balanced :: bool
  st_window_seconds :: 'f
  st_refit_seconds :: 'f
  st_refits_started :: nat
  st_refits_completed :: nat
  st_pending :: bool
  st_last_error :: "py_error option"

definition status :: "('f, 'z) CentroidUpdater_scheme \<Rightarrow> 'f updater_status" where
  "status u = \<lparr>st_balanced = balanced u, st_window_seconds = window_seconds u, st_refit_seconds = refit_seconds u,
     st_refits_started = refits_started u, st_refits_completed = refits_completed u,
     st_pending = (fit_future u \<noteq> None), st_last_error = last_refit_error u\<rparr>"

definition close_updater :: "('f, 'z) CentroidUpdater_scheme \<Rightarrow> ('f, 'z) CentroidUpdater_scheme" where
  "close_updater u =
     (if closed u then u
      else u\<lparr>closed := True, fit_future := map_option future_cancel (fit_future u)\<rparr>)"

section \<open>The online router\<close>

definition route_owned ::
  "'f numpy \<Rightarrow> 'f \<Rightarrow> 'f list \<Rightarrow> int list \<Rightarrow> 'f OnlineJSQRouter \<Rightarrow> nat res \<times> 'f OnlineJSQRouter" where
  "route_owned np now signature loads r =
     (if length loads \<noteq> length (o_worker_urls r)
      then (Inl (ValueError ''loads length must equal number of workers''), r)
      else
        let r' = update np signature now r; C = centroids r' in
        if \<not> list_all (\<lambda>c. length c = length signature) C \<or> length C \<noteq> length loads
        then (Inl (ValueError ''matmul: mismatch in core dimension''), r')
        else (band_min np (map (\<lambda>c. np_dot np c signature) C) loads (o_tau r'), r'))"

definition route ::
  "'f numpy \<Rightarrow> 'f \<Rightarrow> 'f nd \<Rightarrow> int list \<Rightarrow> 'f OnlineJSQRouter \<Rightarrow> nat res \<times> 'f OnlineJSQRouter" where
  "route np now sig_vec loads r =
     (let signature = nd_data sig_vec in
      if nd_shape sig_vec \<noteq> [dim r] then (Inl (ValueError ''sig_vec must have shape [dim]''), r)
      else if \<not> list_all (np_isfinite np) signature then (Inl (ValueError ''sig_vec must be finite''), r)
      else
        let norm = np_norm np signature
        in route_owned np now (if np_lt np (np_eps np) norm then map (\<lambda>x. np_div np x norm) signature else signature)
             loads r)"

text \<open>The element type of the array is the argument \<^verbatim>\<open>f32\<close>.\<close>

definition route_transformed ::
  "'f numpy \<Rightarrow> 'f \<Rightarrow> bool \<Rightarrow> 'f nd \<Rightarrow> int list \<Rightarrow> 'f OnlineJSQRouter \<Rightarrow> nat res \<times> 'f OnlineJSQRouter" where
  "route_transformed np now f32 sig loads r =
     (if \<not> f32 \<or> nd_shape sig \<noteq> [dim r] then (Inl (ValueError ''signature must be float32 with shape [dim]''), r)
      else if \<not> list_all (np_isfinite np) (nd_data sig) then (Inl (ValueError ''signature must be finite''), r)
      else route_owned np now (nd_data sig) loads r)"

section \<open>Interleaving with the worker thread\<close>

text \<open>
  Runs of the router from a given state. The first four rules are calls on the routing thread with
  arbitrary arguments; the last two are the worker thread taking the job from the queue and
  finishing it.
\<close>

definition take_job :: "('f, 'z) CentroidUpdater_scheme \<Rightarrow> ('f, 'z) CentroidUpdater_scheme" where
  "take_job u = (case fit_future u of Some (Queued j) \<Rightarrow> u\<lparr>fit_future := Some (Running j)\<rparr> | _ \<Rightarrow> u)"

definition finish_job :: "'f numpy \<Rightarrow> ('f, 'z) CentroidUpdater_scheme \<Rightarrow> ('f, 'z) CentroidUpdater_scheme" where
  "finish_job np u =
     (case fit_future u of
        Some (Running j) \<Rightarrow>
          u\<lparr>fit_future := Some (Finished (run_refit np (job_rows j) (job_centroids j) (job_balanced j)))\<rparr>
      | _ \<Rightarrow> u)"

inductive online_run :: "'f numpy \<Rightarrow> 'f OnlineJSQRouter \<Rightarrow> 'f OnlineJSQRouter \<Rightarrow> bool" for np u where
  start: "online_run np u u"
| route: "online_run np u r \<Longrightarrow> nd_ok sig \<Longrightarrow> route np now sig loads r = (res, r') \<Longrightarrow> online_run np u r'"
| route_transformed:
    "online_run np u r \<Longrightarrow> nd_ok sig \<Longrightarrow> route_transformed np now f32 sig loads r = (res, r') \<Longrightarrow> online_run np u r'"
| close: "online_run np u r \<Longrightarrow> online_run np u (close_updater r)"
| take_job: "online_run np u r \<Longrightarrow> online_run np u (take_job r)"
| finish_job: "online_run np u r \<Longrightarrow> online_run np u (finish_job np r)"

text \<open>
  Runs of the updater alone, with the log of the calls of \<^verbatim>\<open>update\<close>. Every run of the router is one.
\<close>

inductive updater_run ::
  "'f numpy \<Rightarrow> ('f, 'z) CentroidUpdater_scheme \<Rightarrow> ('f \<times> 'f list) list \<Rightarrow> ('f, 'z) CentroidUpdater_scheme \<Rightarrow> bool"
  for np u where
  start: "updater_run np u [] u"
| update: "updater_run np u log r \<Longrightarrow> length v = dim r \<Longrightarrow> updater_run np u (log @ [(now, v)]) (update np v now r)"
| close: "updater_run np u log r \<Longrightarrow> updater_run np u log (close_updater r)"
| take_job: "updater_run np u log r \<Longrightarrow> updater_run np u log (take_job r)"
| finish_job: "updater_run np u log r \<Longrightarrow> updater_run np u log (finish_job np r)"

lemmas updater_defs = poll_refit_def expire_signatures_def maybe_start_refit_def update_def close_updater_def
  take_job_def finish_job_def

section \<open>Lemmas\<close>

definition shape_ok :: "nat \<Rightarrow> nat \<Rightarrow> 'f list list \<Rightarrow> bool" where
  "shape_ok K d C \<longleftrightarrow> length C = K \<and> (\<forall>c \<in> set C. length c = d)"

lemma fold_rows:
  "distinct rs \<Longrightarrow> length cs = length rs \<Longrightarrow> \<forall>r \<in> set rs. r < length a \<Longrightarrow>
     length (fold (\<lambda>(r, c) a. a[r := F c]) (zip rs cs) a) = length a \<and>
     (\<forall>i < length rs. fold (\<lambda>(r, c) a. a[r := F c]) (zip rs cs) a ! (rs ! i) = F (cs ! i)) \<and>
     (\<forall>j < length a. j \<notin> set rs \<longrightarrow> fold (\<lambda>(r, c) a. a[r := F c]) (zip rs cs) a ! j = a ! j)"
proof (induction rs arbitrary: cs a)
  case Nil
  then show ?case by simp
next
  case (Cons r rs)
  then obtain c cs' where cs: "cs = c # cs'" by (cases cs) auto
  from Cons.IH [of cs' "a[r := F c]"] Cons.prems show ?case
    by (auto simp: cs nth_Cons split: nat.splits)
qed

lemma align_centroids_nth:
  assumes "np_assignment_ok np" "np_empty_ok np" "length current = length fitted"
    and a: "np_assignment np (map (\<lambda>c. map (\<lambda>f. np_neg np (np_dot np c f)) fitted) current) = (rows, columns)"
  shows "align_centroids np current fitted = map (\<lambda>c. fitted ! c) columns"
    "length columns = length fitted" "distinct columns" "\<forall>j \<in> set columns. j < length fitted"
proof -
  let ?cost = "map (\<lambda>c. map (\<lambda>f. np_neg np (np_dot np c f)) fitted) current"
  have "\<forall>row \<in> set ?cost. length row = length fitted" "length ?cost \<le> length fitted" using assms(3) by auto
  from np_assignment_okD [OF assms(1) this a]
  have as: "rows = [0..<length fitted]" "length columns = length fitted" "distinct columns" "\<forall>j \<in> set columns. j < length fitted"
    using assms(3) by simp_all
  then show "length columns = length fitted" "distinct columns" "\<forall>j \<in> set columns. j < length fitted" by blast+
  have e: "length (np_empty_like np fitted) = length fitted" using assms(2) by (simp add: np_empty_ok_def)
  from fold_rows [of rows columns "np_empty_like np fitted" "\<lambda>c. fitted ! c"]
  show "align_centroids np current fitted = map (\<lambda>c. fitted ! c) columns"
    by (intro nth_equalityI) (use as e a in \<open>simp_all add: align_centroids_def\<close>)
qed

lemma map_nth_permutation:
  assumes "length js = length xs" "distinct js" "\<forall>j \<in> set js. j < length xs"
  shows "mset (map (\<lambda>j. xs ! j) js) = mset xs"
proof -
  have "set js = {..<length xs}"
    by (rule card_subset_eq) (use assms in \<open>auto simp: distinct_card\<close>)
  then have "mset js = mset [0..<length xs]"
    using assms(2) by (metis atLeast_upt distinct_upt set_eq_iff_mset_eq_distinct)
  then have "image_mset (\<lambda>j. xs ! j) (mset js) = image_mset (\<lambda>j. xs ! j) (mset [0..<length xs])" by simp
  then show ?thesis by (metis map_nth mset_map)
qed

lemma align_centroids_mset:
  assumes "np_assignment_ok np" "np_empty_ok np" "length current = length fitted"
  shows "mset (align_centroids np current fitted) = mset fitted"
proof -
  obtain rows columns where
    a: "np_assignment np (map (\<lambda>c. map (\<lambda>f. np_neg np (np_dot np c f)) fitted) current) = (rows, columns)"
    by force
  show ?thesis
    using align_centroids_nth [OF assms a] map_nth_permutation [of columns fitted] by simp
qed

lemma run_refit_shape:
  assumes "np_assignment_ok np" "np_empty_ok np" "shape_ok K d C" "run_refit np rows C b = Inr R"
  shows "shape_ok K d R"
proof -
  obtain fitted where f: "map length fitted = map length C" "R = align_centroids np C fitted"
    using assms(4) by (auto simp: run_refit_def res_simps)
  have "length C = length fitted" using f(1) by (metis length_map)
  then have "mset R = mset fitted" using align_centroids_mset [OF assms(1,2)] f(2) by blast
  then have "length R = length C" "set R = set fitted"
    using \<open>length C = length fitted\<close> by (metis size_mset, metis set_mset_mset)
  moreover have "length ` set fitted = length ` set C" using f(1) by (metis list.set_map)
  ultimately show ?thesis using assms(3) by (auto simp: shape_ok_def image_iff set_eq_iff)
qed

subsection \<open>The invariant\<close>

definition job_ok :: "nat \<Rightarrow> nat \<Rightarrow> 'f refit_job \<Rightarrow> bool" where
  "job_ok K d j \<longleftrightarrow> shape_ok K d (job_centroids j) \<and> job_rows j \<noteq> [] \<and> (\<forall>v \<in> set (job_rows j). length v = d)"

fun future_ok :: "nat \<Rightarrow> nat \<Rightarrow> 'f fit_state \<Rightarrow> bool" where
  "future_ok K d (Queued j) \<longleftrightarrow> job_ok K d j"
| "future_ok K d (Running j) \<longleftrightarrow> job_ok K d j"
| "future_ok K d (Finished (Inr C)) \<longleftrightarrow> shape_ok K d C"
| "future_ok K d _ \<longleftrightarrow> True"

definition updater_ok :: "nat \<Rightarrow> nat \<Rightarrow> ('f, 'z) CentroidUpdater_scheme \<Rightarrow> bool" where
  "updater_ok K d u \<longleftrightarrow> 0 < K \<and> dim u = d \<and> shape_ok K d (centroids u) \<and>
     (\<forall>e \<in> set (signatures u). length (snd e) = d) \<and>
     (\<forall>f. fit_future u = Some f \<longrightarrow> future_ok K d f) \<and>
     refits_completed u + (if fit_future u = None then 0 else 1) \<le> refits_started u \<and>
     (fit_future u = Some Cancelled \<longrightarrow> closed u)"

lemma poll_refit_ok: "updater_ok K d u \<Longrightarrow> updater_ok K d (poll_refit u)"
  by (cases "fit_future u"; cases "the (fit_future u)"; cases "future_result (the (fit_future u))")
    (auto simp: updater_ok_def poll_refit_def Let_def)

lemma expire_ok: "updater_ok K d u \<Longrightarrow> updater_ok K d (expire_signatures np now u)"
  by (auto simp: updater_ok_def expire_signatures_def Let_def dest: set_dropWhileD)

lemma maybe_start_ok: "updater_ok K d u \<Longrightarrow> updater_ok K d (maybe_start_refit np now u)"
  by (auto simp: updater_ok_def maybe_start_refit_def job_ok_def shape_ok_def Let_def)

lemma update_ok:
  assumes "updater_ok K d u" "length v = d"
  shows "updater_ok K d (update np v now u)"
proof -
  let ?u1 = "expire_signatures np now (poll_refit u)"
  have u1: "updater_ok K d ?u1" by (intro expire_ok poll_refit_ok assms)
  then have "updater_ok K d (?u1\<lparr>history_started_at := h, signatures := signatures ?u1 @ [(now, v)]\<rparr>)"
    "updater_ok K d (?u1\<lparr>signatures := signatures ?u1 @ [(now, v)]\<rparr>)" for h
    using assms(2) by (auto simp: updater_ok_def)
  then show ?thesis
    using u1 by (auto simp: update_def Let_def intro!: maybe_start_ok)
qed

lemma close_ok: "updater_ok K d u \<Longrightarrow> updater_ok K d (close_updater u)"
  by (cases "fit_future u"; cases "the (fit_future u)") (auto simp: updater_ok_def close_updater_def)

lemma take_job_ok: "updater_ok K d u \<Longrightarrow> updater_ok K d (take_job u)"
  by (cases "fit_future u"; cases "the (fit_future u)") (auto simp: updater_ok_def take_job_def)

lemma finish_job_ok:
  assumes "np_assignment_ok np" "np_empty_ok np" "updater_ok K d u"
  shows "updater_ok K d (finish_job np u)"
proof (cases "\<exists>j. fit_future u = Some (Running j)")
  case True
  then obtain j where j: "fit_future u = Some (Running j)" by blast
  let ?R = "run_refit np (job_rows j) (job_centroids j) (job_balanced j)"
  have "shape_ok K d (job_centroids j)" using assms(3) j by (simp add: updater_ok_def job_ok_def)
  then have "future_ok K d (Finished ?R)"
    using run_refit_shape [OF assms(1,2)] by (cases ?R) auto
  then show ?thesis using assms(3) j by (simp add: updater_ok_def finish_job_def)
next
  case False
  then have "finish_job np u = u" by (auto simp: finish_job_def split: option.splits fit_state.splits)
  then show ?thesis using assms(3) by simp
qed


lemma updater_run_ok:
  assumes "updater_run np u log r" "np_assignment_ok np" "np_empty_ok np" "updater_ok K d u"
  shows "updater_ok K d r"
  using assms(1)
proof (induction rule: updater_run.induct)
  case (update log r v now)
  then show ?case by (intro update_ok) (simp_all add: updater_ok_def)
qed (use assms in \<open>auto intro: close_ok take_job_ok finish_job_ok\<close>)

text \<open>Which fields the calls leave alone.\<close>

lemma poll_refit_frame [simp]:
  "dim (poll_refit u) = dim u" "window_seconds (poll_refit u) = window_seconds u"
  "refit_seconds (poll_refit u) = refit_seconds u" "balanced (poll_refit u) = balanced u"
  "signatures (poll_refit u) = signatures u" "history_started_at (poll_refit u) = history_started_at u"
  "last_refit_started_at (poll_refit u) = last_refit_started_at u" "closed (poll_refit u) = closed u"
  "refits_started (poll_refit u) = refits_started u" "CentroidUpdater.more (poll_refit u) = CentroidUpdater.more u"
  by (simp_all add: poll_refit_def Let_def split: option.split sum.split)

lemma maybe_start_frame [simp]:
  "dim (maybe_start_refit np now u) = dim u" "window_seconds (maybe_start_refit np now u) = window_seconds u"
  "refit_seconds (maybe_start_refit np now u) = refit_seconds u" "balanced (maybe_start_refit np now u) = balanced u"
  "signatures (maybe_start_refit np now u) = signatures u" "centroids (maybe_start_refit np now u) = centroids u"
  "history_started_at (maybe_start_refit np now u) = history_started_at u"
  "closed (maybe_start_refit np now u) = closed u"
  "refits_completed (maybe_start_refit np now u) = refits_completed u"
  "CentroidUpdater.more (maybe_start_refit np now u) = CentroidUpdater.more u"
  by (simp_all add: maybe_start_refit_def Let_def)

lemma expire_frame [simp]:
  "dim (expire_signatures np now u) = dim u" "window_seconds (expire_signatures np now u) = window_seconds u"
  "refit_seconds (expire_signatures np now u) = refit_seconds u" "balanced (expire_signatures np now u) = balanced u"
  "centroids (expire_signatures np now u) = centroids u" "fit_future (expire_signatures np now u) = fit_future u"
  "history_started_at (expire_signatures np now u) = history_started_at u"
  "last_refit_started_at (expire_signatures np now u) = last_refit_started_at u"
  "closed (expire_signatures np now u) = closed u" "refits_started (expire_signatures np now u) = refits_started u"
  "refits_completed (expire_signatures np now u) = refits_completed u"
  "CentroidUpdater.more (expire_signatures np now u) = CentroidUpdater.more u"
  by (simp_all add: expire_signatures_def Let_def)

lemma update_frame [simp]:
  "dim (update np v now u) = dim u" "window_seconds (update np v now u) = window_seconds u"
  "refit_seconds (update np v now u) = refit_seconds u" "balanced (update np v now u) = balanced u"
  "closed (update np v now u) = closed u" "centroids (update np v now u) = centroids (poll_refit u)"
  "CentroidUpdater.more (update np v now u) = CentroidUpdater.more u"
  by (simp_all add: update_def Let_def)

lemma close_frame [simp]:
  "dim (close_updater u) = dim u" "window_seconds (close_updater u) = window_seconds u"
  "refit_seconds (close_updater u) = refit_seconds u" "centroids (close_updater u) = centroids u"
  "refits_started (close_updater u) = refits_started u" "refits_completed (close_updater u) = refits_completed u"
  "closed (close_updater u)" "CentroidUpdater.more (close_updater u) = CentroidUpdater.more u"
  by (simp_all add: close_updater_def)

lemma job_frame [simp]:
  "dim (take_job u) = dim u" "window_seconds (take_job u) = window_seconds u"
  "refit_seconds (take_job u) = refit_seconds u" "centroids (take_job u) = centroids u"
  "refits_started (take_job u) = refits_started u" "refits_completed (take_job u) = refits_completed u"
  "closed (take_job u) = closed u" "signatures (take_job u) = signatures u"
  "history_started_at (take_job u) = history_started_at u"
  "last_refit_started_at (take_job u) = last_refit_started_at u"
  "CentroidUpdater.more (take_job u) = CentroidUpdater.more u"
  "dim (finish_job np u) = dim u" "window_seconds (finish_job np u) = window_seconds u"
  "refit_seconds (finish_job np u) = refit_seconds u" "centroids (finish_job np u) = centroids u"
  "refits_started (finish_job np u) = refits_started u" "refits_completed (finish_job np u) = refits_completed u"
  "closed (finish_job np u) = closed u" "signatures (finish_job np u) = signatures u"
  "history_started_at (finish_job np u) = history_started_at u"
  "last_refit_started_at (finish_job np u) = last_refit_started_at u"
  "CentroidUpdater.more (finish_job np u) = CentroidUpdater.more u"
  by (simp_all add: take_job_def finish_job_def split: option.split fit_state.split)

lemma updater_run_frame:
  assumes "updater_run np u log r"
  shows "dim r = dim u \<and> window_seconds r = window_seconds u \<and> refit_seconds r = refit_seconds u \<and>
    CentroidUpdater.more r = CentroidUpdater.more u"
  using assms by (induction rule: updater_run.induct) simp_all

text \<open>A closed updater starts no fit and installs none.\<close>

lemma update_closed:
  "closed u \<Longrightarrow> refits_started (update np v now u) = refits_started u \<and>
     refits_completed (update np v now u) = refits_completed u \<and> centroids (poll_refit u) = centroids u"
  by (simp add: update_def poll_refit_def Let_def split: option.split sum.split)

lemma updater_run_closed:
  assumes "updater_run np u log r" "closed u"
  shows "closed r \<and> centroids r = centroids u \<and> refits_started r = refits_started u \<and> refits_completed r = refits_completed u"
  using assms(1) by (induction rule: updater_run.induct) (simp_all add: assms(2) update_closed)

text \<open>Every run of the router is a run of the updater.\<close>

lemma route_owned_state:
  "length v = dim r \<Longrightarrow> snd (route_owned np now v loads r) \<in> {r, update np v now r}"
  by (simp add: route_owned_def Let_def)

lemma online_run_updater: "online_run np u r \<Longrightarrow> \<exists>log. updater_run np u log r"
proof (induction rule: online_run.induct)
  case start
  then show ?case using updater_run.start by blast
next
  case (route r sig now loads res r')
  define v where "v = (if np_lt np (np_eps np) (np_norm np (nd_data sig))
    then map (\<lambda>x. np_div np x (np_norm np (nd_data sig))) (nd_data sig) else nd_data sig)"
  have "r' = r \<or> length v = dim r \<and> r' = snd (route_owned np now v loads r)"
    using route.hyps(2,3) by (auto simp: route_def Let_def v_def nd_ok_def split: if_splits)
  then have "r' = r \<or> length v = dim r \<and> r' = update np v now r"
    using route_owned_state [of v r np now loads] by auto
  then show ?case using route.IH updater_run.update [of np u _ r v now] by metis
next
  case (route_transformed r sig now f32 loads res r')
  let ?v = "nd_data sig"
  have "r' = r \<or> length ?v = dim r \<and> r' = snd (route_owned np now ?v loads r)"
    using route_transformed.hyps(2,3) by (auto simp: route_transformed_def nd_ok_def split: if_splits)
  then have "r' = r \<or> length ?v = dim r \<and> r' = update np ?v now r"
    using route_owned_state [of ?v r np now loads] by auto
  then show ?case using route_transformed.IH updater_run.update [of np u _ r ?v now] by metis
next
  case (close r)
  then show ?case using updater_run.close by blast
next
  case (take_job r)
  then show ?case using updater_run.take_job by blast
next
  case (finish_job r)
  then show ?case using updater_run.finish_job by blast
qed

lemma make_online_ok:
  assumes "make_online np warm urls seeds tau window refit bal = Inr u" "nd_ok seeds"
  shows "updater_ok (length urls) (dim u) u" "0 < length urls" "0 < dim u" "o_worker_urls u = urls" "o_tau u = tau"
    "np_isfinite np tau" "\<not> np_lt np tau (np_zero np)" "np_isfinite np window" "window_seconds u = window"
    "refit_seconds u = refit" "signatures u = []" "\<not> closed u" "history_started_at u = None"
    "last_refit_started_at u = None" "fit_future u = None"
proof -
  obtain k d where sh: "nd_shape seeds = [k, d]"
    using assms(1) by (auto simp: make_online_def split: if_splits list.splits)
  have "length (nd_data seeds) = k * d" using assms(2) sh by (simp add: nd_ok_def)
  then have "\<forall>r \<in> set (nd_rows k d (nd_data seeds)). length r = d" using nd_rows_width by blast
  then show "updater_ok (length urls) (dim u) u" "0 < length urls" "0 < dim u" "o_worker_urls u = urls" "o_tau u = tau"
    "np_isfinite np tau" "\<not> np_lt np tau (np_zero np)" "np_isfinite np window" "window_seconds u = window"
    "refit_seconds u = refit" "signatures u = []" "\<not> closed u" "history_started_at u = None"
    "last_refit_started_at u = None" "fit_future u = None"
    using assms(1) sh
    by (auto simp: make_online_def Let_def updater_ok_def shape_ok_def res_simps split: if_splits)
qed

subsection \<open>The window\<close>

lemma dropWhile_sorted:
  "sorted_wrt R xs \<Longrightarrow> (\<And>x y. R x y \<Longrightarrow> P y \<Longrightarrow> P x) \<Longrightarrow> dropWhile P xs = filter (\<lambda>x. \<not> P x) xs"
proof (induction xs)
  case Nil
  then show ?case by simp
next
  case (Cons x xs)
  show ?case
  proof (cases "P x")
    case True
    then show ?thesis using Cons by auto
  next
    case False
    then have "\<forall>y \<in> set xs. \<not> P y" using Cons.prems by auto
    then show ?thesis using False by simp
  qed
qed

lemma np_lt_le_trans: "np_order np \<Longrightarrow> np_lt np x y \<Longrightarrow> np_le np y z \<Longrightarrow> np_lt np x z"
  unfolding np_order_def np_lt_def by blast

lemma np_le_lt_trans: "np_order np \<Longrightarrow> np_le np x y \<Longrightarrow> np_lt np y z \<Longrightarrow> np_lt np x z"
  unfolding np_order_def np_lt_def by blast

definition in_window :: "'f numpy \<Rightarrow> 'f \<Rightarrow> 'f \<Rightarrow> 'f \<times> 'f list \<Rightarrow> bool" where
  "in_window np window now e \<longleftrightarrow> \<not> np_lt np (fst e) (np_sub np now window)"

definition nonzero_calls :: "'f numpy \<Rightarrow> ('f \<times> 'f list) list \<Rightarrow> ('f \<times> 'f list) list" where
  "nonzero_calls np log = filter (\<lambda>(_, v). np_any np v) log"

lemma update_signatures:
  assumes "\<not> closed u"
  shows "signatures (update np v now u) =
     dropWhile (\<lambda>e. \<not> in_window np (window_seconds u) now e) (signatures u) @ nonzero_calls np [(now, v)]"
  using assms by (simp add: update_def expire_signatures_def Let_def in_window_def nonzero_calls_def case_prod_unfold)

lemma update_history:
  assumes "\<not> closed u"
  shows "history_started_at (update np v now u) =
     (if history_started_at u = None \<and> np_any np v then Some now else history_started_at u)"
  using assms by (simp add: update_def Let_def)

definition times_ordered :: "'f numpy \<Rightarrow> ('f \<times> 'f list) list \<Rightarrow> bool" where
  "times_ordered np log \<longleftrightarrow> sorted_wrt (\<lambda>a b. np_le np (fst a) (fst b)) log \<and> (\<forall>e \<in> set log. \<not> np_isnan np (fst e))"

lemma times_ordered_snoc:
  "times_ordered np (log @ [e]) \<longleftrightarrow> times_ordered np log \<and> (\<forall>a \<in> set log. np_le np (fst a) (fst e)) \<and> \<not> np_isnan np (fst e)"
  by (auto simp: times_ordered_def sorted_wrt_append)

lemma in_window_mono:
  assumes "np_order np" "np_sub_mono np" "np_isfinite np w" "np_le np t t'"
  shows "\<not> in_window np w t e \<Longrightarrow> \<not> in_window np w t' e"
proof -
  have "np_le np (np_sub np t w) (np_sub np t' w)" using assms(2-4) by (simp add: np_sub_mono_def)
  then show "\<not> in_window np w t e \<Longrightarrow> \<not> in_window np w t' e"
    using np_lt_le_trans [OF assms(1)] by (auto simp: in_window_def)
qed

text \<open>
  While the updater is open, its deque is what the current window keeps of all non-zero signatures
  it was given.
\<close>

definition window_inv :: "'f numpy \<Rightarrow> ('f \<times> 'f list) list \<Rightarrow> ('f, 'z) CentroidUpdater_scheme \<Rightarrow> bool" where
  "window_inv np log r \<longleftrightarrow> closed r \<or>
     signatures r = (if log = [] then []
       else filter (in_window np (window_seconds r) (fst (last log))) (nonzero_calls np log)) \<and>
     history_started_at r = (if nonzero_calls np log = [] then None else Some (fst (hd (nonzero_calls np log))))"

lemma filter_drop_older:
  assumes np: "np_order np" "np_sub_mono np" and w: "np_isfinite np w" and t: "times_ordered np (log @ [(now, v)])"
    and ne: "log \<noteq> []"
  shows "dropWhile (\<lambda>e. \<not> in_window np w now e) (filter (in_window np w (fst (last log))) (nonzero_calls np log)) =
     filter (in_window np w now) (nonzero_calls np log)"
proof -
  let ?R = "\<lambda>a b. np_le np (fst a) (fst b)"
  have s: "sorted_wrt ?R log" and l: "np_le np (fst (last log)) now"
    using t ne by (simp_all add: times_ordered_def sorted_wrt_append)
  have "sorted_wrt ?R (filter (in_window np w (fst (last log))) (nonzero_calls np log))"
    unfolding nonzero_calls_def using s by (intro sorted_wrt_filter)
  then have "dropWhile (\<lambda>e. \<not> in_window np w now e) (filter (in_window np w (fst (last log))) (nonzero_calls np log)) =
      filter (\<lambda>e. \<not> \<not> in_window np w now e) (filter (in_window np w (fst (last log))) (nonzero_calls np log))"
    by (rule dropWhile_sorted) (use np_le_lt_trans [OF np(1)] in \<open>auto simp: in_window_def\<close>)
  also have "\<dots> = filter (in_window np w now) (nonzero_calls np log)"
    using in_window_mono [OF np w l] by (auto simp: filter_filter intro!: filter_cong)
  finally show ?thesis .
qed

lemma window_inv_update:
  assumes np: "np_order np" "np_sub_mono np" "np_sub_ok np" and w: "np_isfinite np (window_seconds r)"
    "np_le np (np_zero np) (window_seconds r)"
    and t: "times_ordered np (log @ [(now, v)])" and inv: "window_inv np log r"
  shows "window_inv np (log @ [(now, v)]) (update np v now r)"
proof (cases "closed r")
  case True
  then show ?thesis by (simp add: window_inv_def)
next
  case False
  let ?w = "window_seconds r"
  have s: "signatures r = (if log = [] then [] else filter (in_window np ?w (fst (last log))) (nonzero_calls np log))"
    using inv False by (simp add: window_inv_def)
  have "np_le np (np_sub np now ?w) now" using np(3) w t by (simp add: np_sub_ok_def times_ordered_snoc)
  then have "in_window np ?w now (now, v)" by (simp add: in_window_def np_lt_def)
  moreover have "dropWhile (\<lambda>e. \<not> in_window np ?w now e) (signatures r) = filter (in_window np ?w now) (nonzero_calls np log)"
    using s filter_drop_older [OF np(1,2) w(1) t] by (auto simp: nonzero_calls_def)
  ultimately show ?thesis
    using False inv
    by (auto simp: window_inv_def update_signatures update_history nonzero_calls_def)
qed

lemma updater_run_window:
  assumes "updater_run np u log r" "times_ordered np log" "np_order np" "np_sub_mono np" "np_sub_ok np"
    "np_isfinite np (window_seconds u)" "np_le np (np_zero np) (window_seconds u)" "signatures u = []"
    "history_started_at u = None"
  shows "window_inv np log r"
  using assms(1,2)
proof (induction rule: updater_run.induct)
  case start
  then show ?case using assms by (simp add: window_inv_def nonzero_calls_def)
next
  case (update log r v now)
  moreover have "times_ordered np log" using update.prems by (simp add: times_ordered_snoc)
  ultimately show ?case using updater_run_frame [OF update.hyps(1)] assms by (intro window_inv_update) simp_all
qed (auto simp: window_inv_def)

section \<open>Properties\<close>

text \<open>
  C26. The online router always routes, and inside the band. In every state reachable by
  interleaving routing calls, closing and the worker thread's steps, a request with a finite
  signature of the fitted dimension and one load per decoder is routed without an error, unless
  a similarity score is NaN: to a decoder within the tolerance of the best score under the
  centroids in force, the least loaded one and of these the first. The centroids in force are
  always one per decoder, of the signature's dimension.
\<close>

theorem online_route_in_band:
  assumes np: "np_order np" "np_amax_ok np" "np_argmin_ok np" "np_sub_ok np" "np_of_int_ok np"
      "np_assignment_ok np" "np_empty_ok np" "np_finite_ok np"
    and u: "make_online np warm urls seeds tau window refit bal = Inr u" "nd_ok seeds"
    and run: "online_run np u r"
    and sig: "nd_shape sig = [dim u]" "nd_ok sig" "list_all (np_isfinite np) (nd_data sig)"
    and l: "length loads = length urls" "\<forall>x \<in> set loads. \<bar>x\<bar> \<le> 2 ^ 53"
    and call: "route_transformed np now True sig loads r = (result, r')"
    and nan: "\<forall>c \<in> set (centroids r'). \<not> np_isnan np (np_dot np c (nd_data sig))"
  defines "scores \<equiv> map (\<lambda>c. np_dot np c (nd_data sig)) (centroids r')"
  shows "length (centroids r') = length urls \<and> (\<forall>c \<in> set (centroids r'). length c = dim u) \<and>
     (\<exists>i < length urls. result = Inr i \<and> i \<in> set (locality_candidates np scores tau) \<and>
       (\<forall>j \<in> set (locality_candidates np scores tau). loads ! i < loads ! j \<or> loads ! i = loads ! j \<and> i \<le> j))"
proof -
  note m = make_online_ok [OF u]
  obtain log where log: "updater_run np u log r" using online_run_updater [OF run] by blast
  have ok: "updater_ok (length urls) (dim u) r" using updater_run_ok [OF log np(6,7) m(1)] .
  have fr: "dim r = dim u" "o_worker_urls r = urls" "o_tau r = tau"
    using updater_run_frame [OF log] m(4,5) by (cases u, cases r, simp)+
  have len: "length (nd_data sig) = dim u" using sig by (simp add: nd_ok_def)
  let ?r = "update np (nd_data sig) now r"
  have ok': "updater_ok (length urls) (dim u) ?r" using update_ok [OF ok len] .
  have tau': "o_tau ?r = tau" using fr update_frame(7) [of np "nd_data sig" now r] by (cases r, cases ?r, simp)
  have sh: "length (centroids ?r) = length urls" "\<forall>c \<in> set (centroids ?r). length c = dim u"
    using ok' unfolding updater_ok_def shape_ok_def by blast+
  have "route_transformed np now True sig loads r = (band_min np (map (\<lambda>c. np_dot np c (nd_data sig)) (centroids ?r)) loads tau, ?r)"
    using sig l(1) fr len sh tau'
    by (simp add: route_transformed_def route_owned_def Let_def list_all_iff del: update_frame)
  then have r': "r' = ?r" "result = band_min np scores loads tau" using call unfolding scores_def by auto
  have s: "scores \<noteq> []" "\<forall>x \<in> set scores. \<not> np_isnan np x" "length loads = length scores"
    using sh(1) m(2) nan l(1) unfolding scores_def r'(1) by auto
  have "np_le np (np_zero np) tau" using m(6,7) np(1,8) unfolding np_lt_def np_order_def np_finite_ok_def by blast
  from band_min_spec(1) [OF np(1-5) s m(6) this l(2)]
  obtain i where i: "band_min np scores loads tau = Inr i" "i \<in> set (locality_candidates np scores tau)"
      "\<forall>j \<in> set (locality_candidates np scores tau). loads ! i < loads ! j \<or> loads ! i = loads ! j \<and> i \<le> j" by blast
  then have "i < length urls" using s(3) l(1) by (simp add: locality_candidates_def flatnonzero_set)
  then show ?thesis using i sh unfolding r' by blast
qed

text \<open>
  A closed router is frozen. From a state in which the router has been closed, no
  interleaving of routing calls and worker steps changes the centroids in force, starts a fit or
  counts one as completed, even if a fit was running when it was closed.
\<close>

lemma closed_router_frozen:
  assumes "online_run np u r" "closed u"
  shows "closed r \<and> centroids r = centroids u \<and> refits_started r = refits_started u \<and>
     refits_completed r = refits_completed u"
  using online_run_updater [OF assms(1)] updater_run_closed assms(2) by blast

lemma update_starts:
  assumes "refits_started (update np v now r) \<noteq> refits_started r"
  defines "r' \<equiv> update np v now r"
  shows "\<not> closed r" "refits_started r' = Suc (refits_started r)" "last_refit_started_at r' = Some now"
    "fit_future r' = Some (Queued \<lparr>job_rows = map snd (signatures r'), job_centroids = centroids r', job_balanced = balanced r\<rparr>)"
    "length (centroids r') \<le> length (signatures r')" "fit_future (poll_refit r) = None"
    "\<exists>t. history_started_at r' = Some t \<and> np_le np (window_seconds r) (np_sub np now t)"
    "\<forall>t. last_refit_started_at r = Some t \<longrightarrow> np_le np (refit_seconds r) (np_sub np now t)"
  using assms(1) unfolding r'_def
  by (auto simp: update_def maybe_start_refit_def Let_def split: if_splits option.splits)

text \<open>
  C30. What a background fit works on. For a monotone clock, a call that starts a fit does so only
  on an open router without a fit in flight, at least one window after the first non-zero
  signature and one refit interval after the previous start. The job it submits holds the
  centroids in force and exactly the non-zero signatures of the last window, in order of arrival,
  the present one included; there are at least as many of them as decoders.
\<close>

theorem refit_uses_exact_window:
  assumes np: "np_order np" "np_sub_mono np" "np_sub_ok np" "np_finite_ok np" "np_assignment_ok np" "np_empty_ok np"
    and u: "make_online np warm urls seeds tau window refit bal = Inr u" "nd_ok seeds" "np_le np (np_zero np) window"
    and run: "updater_run np u log r" and v: "length v = dim u"
    and clock: "times_ordered np (log @ [(now, v)])"
    and starts: "refits_started (update np v now r) \<noteq> refits_started r"
  shows "\<not> closed r \<and> (\<forall>f. fit_future r = Some f \<longrightarrow> future_done f) \<and>
     np_le np window (np_sub np now (fst (hd (nonzero_calls np (log @ [(now, v)]))))) \<and>
     (\<forall>t. last_refit_started_at r = Some t \<longrightarrow> np_le np refit (np_sub np now t)) \<and>
     (\<exists>j. fit_future (update np v now r) = Some (Queued j) \<and> job_centroids j = centroids (update np v now r) \<and>
        job_rows j = map snd (filter (in_window np window now) (nonzero_calls np (log @ [(now, v)]))) \<and>
        length urls \<le> length (job_rows j))"
proof -
  note m = make_online_ok [OF u(1,2)] and s = update_starts [OF starts]
  let ?r = "update np v now r" and ?log = "log @ [(now, v)]"
  have fr: "window_seconds r = window" "refit_seconds r = refit" "dim r = dim u"
    using updater_run_frame [OF run] m(9,10) by simp_all
  have run': "updater_run np u ?log ?r" using run v fr by (intro updater_run.update) simp_all
  have "window_inv np ?log ?r"
    using updater_run_window [OF run' clock np(1-3)] m(8,9,11,13) u(3) by simp
  then have w: "signatures ?r = filter (in_window np window now) (nonzero_calls np ?log)"
    "history_started_at ?r = (if nonzero_calls np ?log = [] then None else Some (fst (hd (nonzero_calls np ?log))))"
    using s(1) fr by (simp_all add: window_inv_def)
  have "updater_ok (length urls) (dim u) ?r" using updater_run_ok [OF run' np(5,6) m(1)] .
  then have "length (centroids ?r) = length urls" by (simp add: updater_ok_def shape_ok_def)
  moreover have "\<forall>f. fit_future r = Some f \<longrightarrow> future_done f"
    using s(6) by (auto simp: poll_refit_def split: if_splits)
  moreover have "np_le np window (np_sub np now (fst (hd (nonzero_calls np ?log))))"
    using s(7) w(2) fr by (auto split: if_splits)
  ultimately show ?thesis using s(1,4,5,8) w(1) fr by simp
qed

text \<open>
  Alignment only reorders. The centroids a fit returns are the fitted ones, each used exactly
  once, and the one given to a decoder is the one the assignment matched to its current centroid.
\<close>

lemma alignment_is_permutation:
  assumes "np_assignment_ok np" "np_empty_ok np" "length current = length fitted"
  shows "mset (align_centroids np current fitted) = mset fitted \<and>
     (case np_assignment np (map (\<lambda>c. map (\<lambda>f. np_neg np (np_dot np c f)) fitted) current) of
        (_, columns) \<Rightarrow> \<forall>i < length fitted. align_centroids np current fitted ! i = fitted ! (columns ! i))"
proof -
  obtain rows columns where
    a: "np_assignment np (map (\<lambda>c. map (\<lambda>f. np_neg np (np_dot np c f)) fitted) current) = (rows, columns)"
    by force
  show ?thesis
    using align_centroids_mset [OF assms] align_centroids_nth [OF assms a] a by simp
qed

lemma run_refit_outcome:
  assumes np: "np_assignment_ok np" "np_empty_ok np" "np_mean_ok np" and j: "job_ok K d j" "0 < K"
  shows "\<exists>fitted. (if job_balanced j then balanced_spherical_kmeans np (job_rows j) (job_centroids j) 50
       else Inr (vanilla_spherical_kmeans np (job_rows j) (job_centroids j) 50)) = Inr fitted \<and>
     run_refit np (job_rows j) (job_centroids j) (job_balanced j) =
       (if list_all (list_all (np_isfinite np)) fitted then Inr (align_centroids np (job_centroids j) fitted)
        else Inl (ValueError ''invalid centroid shape/value''))"
proof -
  let ?X = "job_rows j" and ?C = "job_centroids j"
  have w: "\<forall>x \<in> set ?X. length x = d" "\<forall>c \<in> set ?C. length c = d" "?C \<noteq> []" "?X \<noteq> []"
    using j by (auto simp: job_ok_def shape_ok_def)
  from kmeans_shapes [OF np(3,1) w(1-3), of 50] obtain fitted where
    f: "(if job_balanced j then balanced_spherical_kmeans np ?X ?C 50 else Inr (vanilla_spherical_kmeans np ?X ?C 50)) = Inr fitted"
       "length fitted = length ?C" "\<forall>c \<in> set fitted. length c = d"
    by (cases "job_balanced j") auto
  then have "map length fitted = map length ?C" using w(2) by (intro nth_equalityI) simp_all
  moreover have "list_all (\<lambda>r. length r = length (hd ?X)) ?X" using w(1,4) by (simp add: list_all_iff)
  ultimately show ?thesis using f(1) w(4) by (auto simp: run_refit_def)
qed

lemma update_counters:
  "refits_completed (update np v now u) = refits_completed (poll_refit u)"
  "last_refit_error (update np v now u) = last_refit_error (poll_refit u)"
  by (simp_all add: update_def maybe_start_refit_def expire_signatures_def Let_def)

lemma update_pending:
  "fit_future (poll_refit u) = None \<Longrightarrow> fit_future (update np v now u) \<noteq> None \<Longrightarrow>
     refits_started (update np v now u) = Suc (refits_started u)"
  by (auto simp: update_def maybe_start_refit_def Let_def split: if_splits)

text \<open>
  C31. A pending fit comes to its end. From every reachable open state with a job that has not been
  picked up, once the worker thread has taken and finished it, the next call of \<^verbatim>\<open>update\<close> frees the
  slot (it may start the next fit): it installs the aligned fit of the job's signatures and counts
  it, or, only if a fitted coordinate is not finite, keeps the centroids and records the error.
\<close>

theorem pending_refit_completes:
  assumes np: "np_assignment_ok np" "np_empty_ok np" "np_mean_ok np"
    and u: "make_online np warm urls seeds tau window refit bal = Inr u" "nd_ok seeds"
    and run: "online_run np u r" and r: "\<not> closed r" "fit_future r = Some (Queued j)"
    and r': "r' = update np v now (finish_job np (take_job r))"
  shows "\<exists>fitted. (if job_balanced j then balanced_spherical_kmeans np (job_rows j) (job_centroids j) 50
         else Inr (vanilla_spherical_kmeans np (job_rows j) (job_centroids j) 50)) = Inr fitted \<and>
     (st_pending (status r') \<longrightarrow> refits_started r' = Suc (refits_started r)) \<and>
     (if list_all (list_all (np_isfinite np)) fitted
      then centroids r' = align_centroids np (job_centroids j) fitted \<and>
        refits_completed r' = Suc (refits_completed r) \<and> last_refit_error r' = None
      else centroids r' = centroids r \<and> refits_completed r' = refits_completed r \<and>
        last_refit_error r' = Some (ValueError ''invalid centroid shape/value''))"
proof -
  note m = make_online_ok [OF u]
  obtain log where log: "updater_run np u log r" using online_run_updater [OF run] by blast
  have "updater_ok (length urls) (dim u) r" using updater_run_ok [OF log np(1,2) m(1)] .
  then have "job_ok (length urls) (dim u) j" using r(2) by (simp add: updater_ok_def)
  from run_refit_outcome [OF np this m(2)] obtain fitted where
    f: "(if job_balanced j then balanced_spherical_kmeans np (job_rows j) (job_centroids j) 50
         else Inr (vanilla_spherical_kmeans np (job_rows j) (job_centroids j) 50)) = Inr fitted"
       "run_refit np (job_rows j) (job_centroids j) (job_balanced j) =
        (if list_all (list_all (np_isfinite np)) fitted then Inr (align_centroids np (job_centroids j) fitted)
         else Inl (ValueError ''invalid centroid shape/value''))"
    by blast
  have "finish_job np (take_job r) =
      r\<lparr>fit_future := Some (Finished (run_refit np (job_rows j) (job_centroids j) (job_balanced j)))\<rparr>"
    by (simp add: take_job_def finish_job_def r(2))
  then have p: "poll_refit (finish_job np (take_job r)) =
      (if list_all (list_all (np_isfinite np)) fitted
       then r\<lparr>fit_future := None, centroids := align_centroids np (job_centroids j) fitted,
              refits_completed := Suc (refits_completed r), last_refit_error := None\<rparr>
       else r\<lparr>fit_future := None, last_refit_error := Some (ValueError ''invalid centroid shape/value'')\<rparr>)"
    using r(1) unfolding f(2) by (simp add: poll_refit_def)
  have "(st_pending (status r') \<longrightarrow> refits_started r' = Suc (refits_started r)) \<and>
     (if list_all (list_all (np_isfinite np)) fitted
      then centroids r' = align_centroids np (job_centroids j) fitted \<and>
        refits_completed r' = Suc (refits_completed r) \<and> last_refit_error r' = None
      else centroids r' = centroids r \<and> refits_completed r' = refits_completed r \<and>
        last_refit_error r' = Some (ValueError ''invalid centroid shape/value''))"
    using update_pending [of "finish_job np (take_job r)" np v now] update_counters [of np v now "finish_job np (take_job r)"]
    unfolding r' update_frame p by (simp add: status_def)
  then show ?thesis using f(1) by blast
qed

section \<open>Witnesses\<close>

definition example_router :: "int OnlineJSQRouter" where
  "example_router = \<lparr>dim = 1, window_seconds = 4, refit_seconds = 1, balanced = True, centroids = [[1], [1]],
     signatures = [], history_started_at = None, last_refit_started_at = None, fit_future = None, closed = False,
     refits_started = 0, refits_completed = 0, last_refit_error = None, o_worker_urls = [''a'', ''b''], o_tau = 1\<rparr>"

lemma example_router_made:
  "make_online int_np (Inr ()) [''a'', ''b''] (Nd [2, 1] [3, 5]) 1 4 1 True = Inr example_router"
  by (simp add: make_online_def int_np_def np_lt_def numeral_2_eq_2 example_router_def)

definition example_warm :: "int OnlineJSQRouter" where
  "example_warm = update int_np [1] 2 (update int_np [1] 0 example_router)"

lemmas example_eval = example_warm_def example_router_def update_def poll_refit_def expire_signatures_def
  maybe_start_refit_def np_any_def np_lt_def int_np_def

lemma example_warm_eq:
  "example_warm = example_router\<lparr>history_started_at := Some 0, signatures := [(0, [1]), (2, [1])]\<rparr>"
  by (simp add: example_eval)

lemma example_warm_run: "updater_run int_np example_router [(0, [1]), (2, [1])] example_warm"
  unfolding example_warm_def
  using updater_run.update [OF updater_run.update [OF updater_run.start, of "[1]" example_router int_np 0], of "[1]" 2]
  by (simp add: example_router_def)

definition example_pending :: "int OnlineJSQRouter" where
  "example_pending = update int_np [1] 4 example_warm"

lemma example_pending_eq:
  "example_pending = example_router\<lparr>history_started_at := Some 0, signatures := [(0, [1]), (2, [1]), (4, [1])],
     last_refit_started_at := Some 4, refits_started := 1,
     fit_future := Some (Queued \<lparr>job_rows = [[1], [1], [1]], job_centroids = [[1], [1]], job_balanced = True\<rparr>)\<rparr>"
  unfolding example_pending_def example_warm_eq by (simp add: example_eval)

lemma example_route:
  assumes "o_worker_urls r = [''a'', ''b'']" "dim r = 1" "centroids (update int_np [1] now r) = [[1], [1]]"
    "o_tau (update int_np [1] now r) = 1"
  shows "route_transformed int_np now True (Nd [1] [1]) [5, 3] r = (Inr 1, update int_np [1] now r)"
proof -
  have "locality_candidates int_np [1, 1] 1 = [0, 1]"
    by (simp add: locality_candidates_def flatnonzero_def int_np_def)
  then have "band_min int_np [1, 1] [5, 3] 1 = Inr 1"
    by (simp add: band_min_def int_np_def least_index_def)
  moreover have "np_dot int_np [1] [1] = 1" by (simp add: int_np_def)
  moreover have "np_isfinite int_np 1" by (simp add: int_np_def)
  ultimately show ?thesis using assms by (simp add: route_transformed_def route_owned_def Let_def del: update_frame)
qed

lemma example_pending_run: "online_run int_np example_router example_pending"
proof -
  have 1: "online_run int_np example_router (update int_np [1] now r)"
    if "online_run int_np example_router r" "o_worker_urls r = [''a'', ''b'']" "dim r = 1"
      "centroids (update int_np [1] now r) = [[1], [1]]" "o_tau (update int_np [1] now r) = 1" for r now
    using online_run.route_transformed [OF that(1), of "Nd [1] [1]" now True "[5, 3]" "Inr 1"] example_route [OF that(2-5)]
    by (simp add: nd_ok_def)
  have "online_run int_np example_router (update int_np [1] 0 example_router)"
    by (rule 1 [OF online_run.start]) (simp_all add: example_eval)
  then have "online_run int_np example_router example_warm"
    unfolding example_warm_def by (rule 1) (simp_all add: example_eval)
  then show ?thesis
    unfolding example_pending_def example_warm_eq by (rule 1) (simp_all add: example_eval)
qed

theorem online_route_in_band_witness:
  "\<exists>i < 2. fst (route_transformed int_np 5 True (Nd [1] [1]) [5, 3] example_pending) = Inr i"
proof -
  have l: "\<forall>x \<in> set [5, 3 :: int]. \<bar>x\<bar> \<le> 2 ^ 53" by simp
  show ?thesis
    using online_route_in_band [OF int_np_ok(1,2,3,5,6,7,11,13) example_router_made _ example_pending_run _ _ _ _ l,
        where sig = "Nd [1] [1]" and now = 5
          and result = "fst (route_transformed int_np 5 True (Nd [1] [1]) [5, 3] example_pending)"
          and r' = "snd (route_transformed int_np 5 True (Nd [1] [1]) [5, 3] example_pending)"]
    by (auto simp: nd_ok_def int_np_def example_router_def)
qed

theorem refit_uses_exact_window_witness:
  "\<exists>j. fit_future (update int_np [1] 4 example_warm) = Some (Queued j) \<and> job_rows j = [[1], [1], [1]]"
proof -
  have "times_ordered int_np ([(0, [1]), (2, [1])] @ [(4, [1])])" by (simp add: times_ordered_def int_np_def)
  moreover have "refits_started (update int_np [1] 4 example_warm) \<noteq> refits_started example_warm"
    by (simp add: example_eval)
  ultimately show ?thesis
    using refit_uses_exact_window [OF int_np_ok(1,12,5,13,7,11) example_router_made _ _ example_warm_run, of "[1]" 4]
    by (auto simp: nd_ok_def int_np_def example_router_def nonzero_calls_def in_window_def np_any_def np_lt_def)
qed

theorem pending_refit_completes_witness:
  "refits_completed (update int_np [0] 6 (finish_job int_np (take_job example_pending))) = 1"
proof -
  have "\<not> closed example_pending"
    "fit_future example_pending = Some (Queued \<lparr>job_rows = [[1], [1], [1]], job_centroids = [[1], [1]], job_balanced = True\<rparr>)"
    "refits_completed example_pending = 0"
    by (simp_all add: example_pending_eq example_router_def)
  then show ?thesis
    using pending_refit_completes [OF int_np_ok(7,11,8) example_router_made _ example_pending_run, of _ _ "[0]" 6]
    by (auto simp: nd_ok_def int_np_def list_all_iff)
qed

end
