(* ===== verification/Prefill_Http.thy ===== *)
theory Prefill_Http
  imports Json
begin

text \<open>
  The HTTP helpers of prefill-first delivery (\<^verbatim>\<open>eldr/serving/prefill_first.py\<close>): request
  validation, unpacking the prefiller's hand-off, and what is sent to the client. The bytes of an
  event (\<^verbatim>\<open>json.dumps\<close>) are kept abstract: a chunk is the value that is serialised.
\<close>

section \<open>Validation\<close>

definition unsupported_keys :: "string list" where
  "unsupported_keys = [''echo'', ''use_beam_search'', ''prompt_embeds'', ''suffix'',
     ''structured_outputs'', ''kv_transfer_params'', ''thinking_token_budget'']"

definition text_format :: json where
  "text_format = JObj [(''type'', JStr ''text'')]"

definition prompt_supported :: "json \<Rightarrow> bool" where
  "prompt_supported prompt =
     (case prompt of JStr _ \<Rightarrow> True | JArr ts \<Rightarrow> ts \<noteq> [] \<and> list_all is_int ts | _ \<Rightarrow> False)"

definition validate_request :: "string \<Rightarrow> json \<Rightarrow> unit res" where
  "validate_request path body =
     res_bind (as_obj body) (\<lambda>payload.
       if path \<noteq> ''/v1/completions'' \<or> \<not> prompt_supported (jget payload ''prompt'')
       then Inl (HTTPBadRequest ''Prefill-first supports one text completion'')
       else if list_ex (\<lambda>key. truthy (jget payload key)) unsupported_keys
         \<or> \<not> py_eq (jget_or (JInt 1) payload ''n'') (JInt 1)
         \<or> \<not> py_eq (jget_or (JInt 1) payload ''best_of'') (JInt 1)
         \<or> jget payload ''logprobs'' \<noteq> JNull
         \<or> jget payload ''prompt_logprobs'' \<noteq> JNull
         \<or> (let f = jget_or text_format payload ''response_format''
            in f \<noteq> JNull \<and> \<not> py_eq f text_format)
       then Inl (HTTPBadRequest ''Unsupported prefill-first completion option'')
       else if jget payload ''max_tokens'' = JNull then Inr ()
       else res_bind (py_lt (jget payload ''max_tokens'') (JInt 1)) (\<lambda>small.
         if small then Inl (HTTPBadRequest ''Unsupported prefill-first completion option'') else Inr ()))"

section \<open>The hand-off\<close>

definition unpack_prefill :: "json \<Rightarrow> (obj \<times> json list) res" where
  "unpack_prefill result =
     res_bind (as_obj result) (\<lambda>r.
       let transfer = jget r ''kv_transfer_params''; choices = jget_or (JArr []) r ''choices'' in
       case transfer of
         JObj t \<Rightarrow>
           res_bind (jlen choices) (\<lambda>n.
             if n \<noteq> 1 then Inl (HTTPBadGateway ''Missing prefill-first handoff'')
             else res_bind (jfirst choices) (\<lambda>c. res_bind (as_obj c) (\<lambda>choice.
               let token = jget t ''prefill_first_token_id''; prompt = jget choice ''prompt_token_ids'' in
               case prompt of
                 JArr ps \<Rightarrow>
                   if is_int token \<and> py_eq (jget choice ''token_ids'') (JArr [token])
                     \<and> py_eq (JInt (int (length ps))) (jget t ''prefill_prompt_tokens'')
                     \<and> is_bool (jget t ''prefill_continues'')
                   then Inr (t, ps)
                   else Inl (HTTPBadGateway ''Invalid prefill-first token history'')
               | _ \<Rightarrow> Inl (HTTPBadGateway ''Invalid prefill-first token history''))))
       | _ \<Rightarrow> Inl (HTTPBadGateway ''Missing prefill-first handoff''))"

text \<open>
  The client's view of the prefill result. It is called on results \<^const>\<open>unpack_prefill\<close>
  accepted, whose only choice is an object.
\<close>

definition public_prefill :: "obj \<Rightarrow> obj \<Rightarrow> bool \<Rightarrow> obj res" where
  "public_prefill result payload continues =
     (let r = od_del ''kv_transfer_params'' result in
      res_bind (jitem r ''choices'') (\<lambda>cs. res_bind (jfirst cs) (\<lambda>c. res_bind (as_obj c) (\<lambda>choice.
        let c1 = (if truthy (jget payload ''return_token_ids'') then choice
                  else od_del ''prompt_token_ids'' (od_del ''token_ids'' choice));
            c2 = (if continues
                  then od_set ''stop_reason'' JNull (od_set ''finish_reason'' JNull c1) else c1)
        in Inr (od_set ''choices'' (JArr [JObj c2]) r)))))"

datatype chunk = Event json | DoneMarker | RawChunk bytes

definition send_prefill :: "obj \<Rightarrow> obj \<Rightarrow> bool \<Rightarrow> chunk list res" where
  "send_prefill result payload continues =
     res_bind (public_prefill result payload continues) (\<lambda>first.
     res_bind (let o0 = jget payload ''stream_options'' in as_obj (if truthy o0 then o0 else JObj []))
       (\<lambda>options.
         let usage = jget first ''usage'';
             first1 = od_del ''usage'' first;
             first2 = (if truthy (jget options ''continuous_usage_stats'')
                       then od_set ''usage'' usage first1 else first1)
         in Inr (Event (JObj first2) #
              (if continues then []
               else (if truthy (jget options ''include_usage'')
                     then [Event (JObj (od_set ''usage'' usage (od_set ''choices'' (JArr []) first2)))]
                     else []) @ [DoneMarker]))))"

section \<open>Lemmas\<close>

lemma validate_request_accepts:
  assumes "validate_request path body = Inr ()"
  obtains payload where "body = JObj payload" "path = ''/v1/completions''"
    "prompt_supported (jget payload ''prompt'')"
    "\<not> list_ex (\<lambda>key. truthy (jget payload key)) unsupported_keys"
    "py_eq (jget_or (JInt 1) payload ''n'') (JInt 1)"
    "py_eq (jget_or (JInt 1) payload ''best_of'') (JInt 1)"
    "jget payload ''logprobs'' = JNull" "jget payload ''prompt_logprobs'' = JNull"
    "jget payload ''max_tokens'' = JNull \<or> py_lt (jget payload ''max_tokens'') (JInt 1) = Inr False"
proof -
  obtain payload where b: "body = JObj payload"
    using assms by (cases body) (auto simp: validate_request_def)
  show thesis
    by (rule that [OF b]) (use assms in \<open>auto simp: validate_request_def b res_simps Let_def split: if_splits\<close>)
qed

lemma unpack_prefill_cases:
  assumes "unpack_prefill result = Inr (t, ps)"
  obtains r cs choice tok where "result = JObj r" "jget r ''kv_transfer_params'' = JObj t"
    "jget_or (JArr []) r ''choices'' = JArr [JObj choice]" "jget choice ''prompt_token_ids'' = JArr ps"
    "jget t ''prefill_first_token_id'' = JInt tok" "py_eq (jget choice ''token_ids'') (JArr [JInt tok])"
    "py_eq (JInt (int (length ps))) (jget t ''prefill_prompt_tokens'')"
    "is_bool (jget t ''prefill_continues'')"
proof -
  obtain r where r: "result = JObj r" using assms by (cases result) (auto simp: unpack_prefill_def)
  obtain t' where t': "jget r ''kv_transfer_params'' = JObj t'"
    using assms by (cases "jget r ''kv_transfer_params''") (auto simp: unpack_prefill_def r)
  obtain c where c: "jlen (jget_or (JArr []) r ''choices'') = Inr 1"
    "jfirst (jget_or (JArr []) r ''choices'') = Inr (JObj c)"
    "(case jget c ''prompt_token_ids'' of
        JArr ps \<Rightarrow>
          if is_int (jget t' ''prefill_first_token_id'')
            \<and> py_eq (jget c ''token_ids'') (JArr [jget t' ''prefill_first_token_id''])
            \<and> py_eq (JInt (int (length ps))) (jget t' ''prefill_prompt_tokens'')
            \<and> is_bool (jget t' ''prefill_continues'')
          then Inr (t', ps) else Inl (HTTPBadGateway ''Invalid prefill-first token history'')
      | _ \<Rightarrow> Inl (HTTPBadGateway ''Invalid prefill-first token history'')) = Inr (t, ps)"
    using assms unfolding unpack_prefill_def r as_obj.simps res_bind_Inr Let_def t' json.case res_bind_eq_Inr as_obj_Inr
    by (auto split: if_splits simp: res_bind_eq_Inr)
  have n: "t' = t" "jget c ''prompt_token_ids'' = JArr ps"
    "is_int (jget t ''prefill_first_token_id'')"
    "py_eq (jget c ''token_ids'') (JArr [jget t ''prefill_first_token_id''])"
    "py_eq (JInt (int (length ps))) (jget t ''prefill_prompt_tokens'')" "is_bool (jget t ''prefill_continues'')"
    using c(3) by (cases "jget c ''prompt_token_ids''"; simp split: if_splits)+
  obtain cs where cs: "jget_or (JArr []) r ''choices'' = JArr cs"
    using c(2) by (cases "jget_or (JArr []) r ''choices''" rule: jfirst.cases) auto
  with c(1,2) have "cs = [JObj c]" by (cases cs) auto
  with cs n t' r that show thesis by (auto simp: is_int_iff)
qed

section \<open>Properties\<close>

definition hides_tokens :: "json \<Rightarrow> bool" where
  "hides_tokens v = (case v of JObj c \<Rightarrow> od_get c ''token_ids'' = None \<and> od_get c ''prompt_token_ids'' = None | _ \<Rightarrow> False)"

definition event_obj :: "chunk \<Rightarrow> obj option" where
  "event_obj c = (case c of Event (JObj d) \<Rightarrow> Some d | _ \<Rightarrow> None)"

lemma public_prefill_accepted:
  assumes "unpack_prefill (JObj result) = Inr (t, ps)"
  obtains choice where "jget_or (JArr []) result ''choices'' = JArr [JObj choice]"
    "public_prefill result payload continues =
       (let c1 = (if truthy (jget payload ''return_token_ids'') then choice
                  else od_del ''prompt_token_ids'' (od_del ''token_ids'' choice));
            c2 = (if continues then od_set ''stop_reason'' JNull (od_set ''finish_reason'' JNull c1) else c1)
        in Inr (od_set ''choices'' (JArr [JObj c2]) (od_del ''kv_transfer_params'' result)))"
proof -
  obtain choice where c: "jget_or (JArr []) result ''choices'' = JArr [JObj choice]"
    using unpack_prefill_cases [OF assms] by (metis json.inject(6))
  then have "jitem (od_del ''kv_transfer_params'' result) ''choices'' = Inr (JArr [JObj choice])"
    by (auto simp: jitem_def jget_or_def od_simps split: option.splits)
  then show thesis using that [OF c] by (simp add: public_prefill_def Let_def)
qed

text \<open>
  C39. What a streaming client sees of an accepted prefill hand-off. Sending never raises when the
  stream options are absent, empty or an object. Every event is an object without the KV transfer
  parameters; its choices carry no token ids unless the client asked for them; when the decode
  continues, the choice has neither finish nor stop reason and no end marker is sent, otherwise
  the end marker is the last chunk and the only one.
\<close>

theorem send_prefill_client_view:
  assumes "unpack_prefill (JObj result) = Inr (t, ps)"
    and "truthy (jget payload ''stream_options'') \<longrightarrow> (\<exists>o'. jget payload ''stream_options'' = JObj o')"
  shows "\<exists>cs evs. send_prefill result payload continues = Inr cs \<and>
     cs = evs @ (if continues then [] else [DoneMarker]) \<and> evs \<noteq> [] \<and>
     (\<forall>c \<in> set evs. \<exists>d. event_obj c = Some d \<and> od_get d ''kv_transfer_params'' = None \<and>
        (\<exists>chs. od_get d ''choices'' = Some (JArr chs) \<and>
           (\<not> truthy (jget payload ''return_token_ids'') \<longrightarrow> list_all hides_tokens chs))) \<and>
     (\<exists>d choice. event_obj (hd evs) = Some d \<and> od_get d ''choices'' = Some (JArr [JObj choice]) \<and>
        (continues \<longrightarrow> od_get choice ''finish_reason'' = Some JNull \<and> od_get choice ''stop_reason'' = Some JNull))"
proof -
  obtain choice where pp: "public_prefill result payload continues =
       (let c1 = (if truthy (jget payload ''return_token_ids'') then choice
                  else od_del ''prompt_token_ids'' (od_del ''token_ids'' choice));
            c2 = (if continues then od_set ''stop_reason'' JNull (od_set ''finish_reason'' JNull c1) else c1)
        in Inr (od_set ''choices'' (JArr [JObj c2]) (od_del ''kv_transfer_params'' result)))"
    using public_prefill_accepted [OF assms(1)] by blast
  obtain options where o: "as_obj (if truthy (jget payload ''stream_options'') then jget payload ''stream_options'' else JObj []) = Inr options"
    using assms(2) by (cases "truthy (jget payload ''stream_options'')") auto
  show ?thesis
    unfolding send_prefill_def pp Let_def res_bind_Inr o
    by (cases continues; cases "truthy (jget options ''include_usage'')";
        cases "truthy (jget options ''continuous_usage_stats'')")
      (auto simp: event_obj_def hides_tokens_def od_simps)
qed

definition example_result :: obj where
  "example_result = [(''choices'', JArr [JObj [(''text'', JStr ''a''), (''token_ids'', JArr [JInt 7]),
       (''prompt_token_ids'', JArr [JInt 1, JInt 2]), (''finish_reason'', JStr ''length'')]]),
     (''created'', JInt 5),
     (''kv_transfer_params'', JObj [(''prefill_first_token_id'', JInt 7), (''prefill_prompt_tokens'', JInt 2),
       (''prefill_continues'', JBool True)])]"

lemma example_result_unpacks:
  "unpack_prefill (JObj example_result) =
     Inr ([(''prefill_first_token_id'', JInt 7), (''prefill_prompt_tokens'', JInt 2),
       (''prefill_continues'', JBool True)], [JInt 1, JInt 2])"
  by (simp add: unpack_prefill_def example_result_def jget_or_def is_int_def is_bool_def Let_def)

theorem send_prefill_client_view_witness:
  "\<exists>c. send_prefill example_result [] True = Inr [c] \<and>
     (\<exists>d. event_obj c = Some d \<and> od_get d ''kv_transfer_params'' = None)"
proof -
  have "send_prefill example_result [] True = Inr [Event (JObj
     [(''choices'', JArr [JObj [(''text'', JStr ''a''), (''finish_reason'', JNull), (''stop_reason'', JNull)]]),
      (''created'', JInt 5)])]"
    by (simp add: send_prefill_def public_prefill_def example_result_def jget_or_def jitem_def od_del_def Let_def)
  then show ?thesis
    using send_prefill_client_view [OF example_result_unpacks, of "[]" True] by (auto simp: jget_or_def)
qed

end
