(* ===== verification/Proxy.thy ===== *)
theory Proxy
  imports Centroid_Update Prefill_Http
begin

text \<open>
  The prefill/decode proxy (\<^verbatim>\<open>eldr/serving/proxy.py\<close>): construction of the application, choice of the
  prefiller and the decoder, and the request handler. The handler is a coroutine; it is cut at its
  \<^verbatim>\<open>await\<close>s into segments that run without interruption on the event loop, and \<^verbatim>\<open>proxy_run\<close>
  interleaves the segments of any number of requests with the refit worker. What an \<^verbatim>\<open>await\<close> delivers
  (a response, a connection failure, another exception, cancellation of the task) is the event
  that resumes the request. HTTP, base64, MD5 and the generators are parameters.
\<close>

section \<open>Application state\<close>

record ('f, 's) proxy_env =
  e_np :: "'f numpy"
  e_rng :: "'s rng"
  e_hash64 :: "bytes \<Rightarrow> nat"
  e_md5 :: "bytes \<Rightarrow> string"
  e_b64decode :: "json \<Rightarrow> bytes res"
  e_frombuffer :: "json \<Rightarrow> bytes \<Rightarrow> 'f list res"
  e_asarray :: "json \<Rightarrow> 'f nd res"
  e_array_equal :: "json \<Rightarrow> 'f list \<Rightarrow> bool"
  e_warm :: "unit res"

datatype ('f, 's) worker_router =
    PrefixR "'f PrefixHashRouter"
  | BaselineR "'s BaselineRouter"
  | NoRouter

text \<open>
  The two in-flight dictionaries have exactly the worker URLs as keys and are only subscripted with
  those, so they are functions here.
\<close>

record ('f, 's) app =
  prefill :: "string list"
  decode :: "string list"
  prefill_inflight :: "string \<Rightarrow> int"
  decode_inflight :: "string \<Rightarrow> int"
  decode_router_name :: string
  tau :: 'f
  app_centroid_data :: "'f centroid_data option"
  decode_router :: "('f, 's) worker_router"
  prefill_router :: "('f, 's) worker_router"
  online_jsq_router :: "'f OnlineJSQRouter option"
  domain_mapping :: "obj option"
  domain_rng :: 's
  capture_file :: "bytes option"

definition POLICIES :: "string list" where
  "POLICIES = [''rr'', ''jsq'', ''random'', ''p2c'', ''domain'', ''eldr'', ''eldr-static'']"

definition make_decode_router :: "string \<Rightarrow> string list \<Rightarrow> 's \<Rightarrow> ('f, 's) worker_router res" where
  "make_decode_router name decoders seed =
     (if name \<in> set [''rr'', ''jsq'', ''random'', ''p2c'']
      then res_bind (make_baseline name decoders seed) (\<lambda>r. Inr (BaselineR r))
      else if name \<in> set POLICIES then Inr NoRouter
      else Inl (ValueError ''Unknown policy''))"

section \<open>Choosing workers\<close>

definition str_int :: "int \<Rightarrow> string" where
  "str_int n = (if n < 0 then ''-'' @ str_nat (nat (- n)) else str_nat (nat n))"

text \<open>The prompt has passed validation, so it is a string or a list of integers.\<close>

definition prompt_key :: "obj \<Rightarrow> bytes res" where
  "prompt_key payload =
     res_bind (jitem payload ''prompt'') (\<lambda>prompt.
       case prompt of
         JStr s \<Rightarrow> Inr (encode s)
       | JArr ts \<Rightarrow> (case json_ints ts of None \<Rightarrow> Inl TypeError | Some ns \<Rightarrow> Inr (encode (concat (map str_int ns))))
       | _ \<Rightarrow> Inl TypeError)"

definition decode_signature :: "('f, 's) proxy_env \<Rightarrow> 'f centroid_data option \<Rightarrow> json \<Rightarrow> 'f nd res" where
  "decode_signature env cdo encoded =
     (if \<not> truthy encoded then Inl (HTTPInternalServerError ''ELDR requires a completed prefill signature'')
      else
        let np = e_np env;
            decoded = res_bind (e_b64decode env encoded) (\<lambda>raw.
              case cdo of
                None \<Rightarrow> Inl AttributeError
              | Some cd \<Rightarrow>
                  res_bind (e_frombuffer env (jget_or (JStr ''<i2'') (cd_json cd) ''sig_dtype'') raw) (\<lambda>counts.
                  if list_ex (\<lambda>c. np_lt np c (np_zero np)) counts \<or> \<not> list_all (np_isfinite np) counts
                  then Inl (ValueError ''Invalid expert signal'')
                  else res_bind (jitem (cd_json cd) ''L'') (\<lambda>jl. res_bind (jitem (cd_json cd) ''e'') (\<lambda>je.
                    case (jint jl, jint je) of
                      (Some l, Some e) \<Rightarrow>
                        if 0 \<le> l \<and> 0 \<le> e \<and> int (length counts) = l * e then Inr (Nd [nat l, nat e] counts)
                        else Inl (ValueError ''cannot reshape array'')
                    | _ \<Rightarrow> Inl TypeError))))
        in case decoded of
             Inl (ValueError _) \<Rightarrow> Inl (HTTPInternalServerError ''Invalid expert signature'')
           | Inl TypeError \<Rightarrow> Inl (HTTPInternalServerError ''Invalid expert signature'')
           | r \<Rightarrow> r)"

definition router_select ::
  "('f, 's) proxy_env \<Rightarrow> bytes \<Rightarrow> int list \<Rightarrow> ('f, 's) worker_router \<Rightarrow> (nat \<times> ('f, 's) worker_router) res" where
  "router_select env key loads r =
     (case r of
        PrefixR p \<Rightarrow> res_bind (prefix_select (e_np env) (e_hash64 env) key loads p) (\<lambda>i. Inr (i, PrefixR p))
      | BaselineR b \<Rightarrow> res_bind (baseline_select (e_rng env) loads b) (\<lambda>(i, b'). Inr (i, BaselineR b'))
      | NoRouter \<Rightarrow> Inl AttributeError)"

definition choose_prefill ::
  "('f, 's) proxy_env \<Rightarrow> obj \<Rightarrow> ('f, 's) app \<Rightarrow> (string \<times> ('f, 's) app) res" where
  "choose_prefill env payload a =
     (let urls = prefill a; loads = map (prefill_inflight a) urls in
      res_bind (prompt_key payload) (\<lambda>key.
      res_bind (router_select env key loads (prefill_router a)) (\<lambda>(i, r).
      res_bind (py_nth urls (int i)) (\<lambda>url. Inr (url, a\<lparr>prefill_router := r\<rparr>)))))"

text \<open>The eligible workers of the domain baseline, and the least loaded of them at random.\<close>

definition domain_eligible :: "obj \<Rightarrow> string \<Rightarrow> nat \<Rightarrow> int list res" where
  "domain_eligible m key n =
     res_bind (jitem m ''hash2dom'') (\<lambda>h. res_bind (as_obj h) (\<lambda>hash2dom.
     let domain = jget hash2dom key in
     res_bind (if domain = JNull then Inr JNull
               else res_bind (jitem m ''dom2dec'') (\<lambda>v. res_bind (as_obj v) (\<lambda>dom2dec.
                 case domain of
                   JStr s \<Rightarrow> Inr (jget dom2dec s) | JArr _ \<Rightarrow> Inl TypeError | JObj _ \<Rightarrow> Inl TypeError
                 | _ \<Rightarrow> Inr JNull))) (\<lambda>eligible.
     res_bind (if truthy eligible then Inr eligible else jitem m ''misc_dec'') (\<lambda>eligible2.
       if \<not> truthy eligible2 then Inr (map int [0..<n])
       else res_bind (jlist eligible2) (\<lambda>xs. case json_ints xs of None \<Rightarrow> Inl TypeError | Some is \<Rightarrow> Inr is)))))"

definition domain_choose :: "'s rng \<Rightarrow> int list \<Rightarrow> int list \<Rightarrow> 's \<Rightarrow> (int \<times> 's) res" where
  "domain_choose g eligible loads s =
     res_bind (res_map (py_nth loads) eligible) (\<lambda>ls.
       if ls = [] then Inl (ValueError ''min() arg is an empty sequence'')
       else
         let tied = map fst (filter (\<lambda>(_, l). l = Min (set ls)) (zip eligible ls));
             (j, s') = randbelow g s (length tied)
         in Inr (tied ! j, s'))"

definition choose_decode ::
  "('f, 's) proxy_env \<Rightarrow> 'f \<Rightarrow> json \<Rightarrow> obj \<Rightarrow> ('f, 's) app \<Rightarrow> string res \<times> ('f, 's) app" where
  "choose_decode env now encoded payload a =
     (let decoders = decode a; loads = map (decode_inflight a) decoders; policy = decode_router_name a;
          pick = (\<lambda>r b. (res_bind r (\<lambda>i. py_nth decoders i), b)) in
      if policy = ''eldr-static'' then
        pick (res_bind (decode_signature env (app_centroid_data a) encoded) (\<lambda>counts.
            case app_centroid_data a of
              None \<Rightarrow> Inl AttributeError
            | Some cd \<Rightarrow> res_bind (route_jsq (e_np env) cd counts loads (tau a)) (\<lambda>i. Inr (int i)))) a
      else if policy = ''eldr'' then
        (case res_bind (decode_signature env (app_centroid_data a) encoded) (\<lambda>counts.
            case app_centroid_data a of None \<Rightarrow> Inl AttributeError | Some cd \<Rightarrow> build_signature (e_np env) cd counts) of
           Inl e \<Rightarrow> (Inl e, a)
         | Inr vector \<Rightarrow>
             (case online_jsq_router a of
                None \<Rightarrow> (Inl KeyError, a)
              | Some r \<Rightarrow>
                  let (i, r') = route_transformed (e_np env) now True vector loads r
                  in pick (res_bind i (\<lambda>k. Inr (int k))) (a\<lparr>online_jsq_router := Some r'\<rparr>)))
      else if policy = ''domain'' then
        (case domain_mapping a of
           None \<Rightarrow> (Inl KeyError, a)
         | Some m \<Rightarrow>
             (case res_bind (prompt_key payload) (\<lambda>key.
                     res_bind (domain_eligible m (take 16 (e_md5 env key)) (length decoders)) (\<lambda>eligible.
                     domain_choose (e_rng env) eligible loads (domain_rng a))) of
                Inl e \<Rightarrow> (Inl e, a)
              | Inr (i, s) \<Rightarrow> pick (Inr i) (a\<lparr>domain_rng := s\<rparr>)))
      else
        (case router_select env [] loads (decode_router a) of
           Inl e \<Rightarrow> (Inl e, a)
         | Inr (i, r) \<Rightarrow> pick (Inr (int i)) (a\<lparr>decode_router := r\<rparr>)))"

section \<open>The request handler\<close>

text \<open>
  How an \<^verbatim>\<open>await\<close> can fail: the connection was never made, the task was cancelled (not an
  \<^verbatim>\<open>Exception\<close> in Python), or another exception.
\<close>

datatype failure = NotConnected | TaskCancelled | OtherFailure | Raised py_error

datatype outcome = Responded json | Streamed | Failed failure

text \<open>
  What a request does to the outside. \<^verbatim>\<open>Accepted\<close> and \<^verbatim>\<open>Unreached\<close> record that the hand-off was accepted
  and that the decoder was not reached; they send nothing.
\<close>

datatype action =
    PostPrefill string obj
  | Accepted obj "json list"
  | SendChunks "chunk list"
  | PostDecode string obj
  | Unreached string
  | SendError
  | PostRelease string obj

record ctx =
  c_payload :: obj
  c_result :: obj
  c_transfer :: obj
  c_prompt :: "json list"
  c_signature :: json
  c_continues :: bool
  c_stream :: bool

text \<open>Where a request is suspended.\<close>

datatype phase =
    WaitPrefill string obj
  | WaitBadRelease failure
  | WaitStream ctx
  | WaitEof ctx
  | WaitDecode ctx string
  | WaitErrorEvent ctx "string option" bool failure
  | WaitRelease outcome
  | Finished_request outcome

type_synonym ('f, 's) segment = "phase \<times> ('f, 's) app \<times> action list"

definition add_prefill :: "string \<Rightarrow> int \<Rightarrow> ('f, 's) app \<Rightarrow> ('f, 's) app" where
  "add_prefill url d a = a\<lparr>prefill_inflight := (prefill_inflight a)(url := prefill_inflight a url + d)\<rparr>"

definition add_decode :: "string \<Rightarrow> int \<Rightarrow> ('f, 's) app \<Rightarrow> ('f, 's) app" where
  "add_decode url d a = a\<lparr>decode_inflight := (decode_inflight a)(url := decode_inflight a url + d)\<rparr>"

definition prefill_body :: "obj \<Rightarrow> string \<Rightarrow> obj" where
  "prefill_body payload request_id =
     od_del ''stream_options''
       (od_set ''kv_transfer_params'' (JObj [(''do_remote_decode'', JBool True), (''do_remote_prefill'', JBool False),
            (''transfer_id'', JStr (''xfer-'' @ request_id)), (''prefill_first'', JBool True)])
       (od_set ''return_token_ids'' (JBool True) (od_set ''stream'' (JBool False) payload)))"

text \<open>From the arrival of the request to the response of the prefiller.\<close>

definition begin_request ::
  "('f, 's) proxy_env \<Rightarrow> string \<Rightarrow> json \<Rightarrow> string \<Rightarrow> ('f, 's) app \<Rightarrow> ('f, 's) segment" where
  "begin_request env path body request_id a =
     (case res_bind (validate_request path body) (\<lambda>_. res_bind (as_dict body) (\<lambda>p0.
             let payload = od_set ''request_id'' (JStr request_id) p0
             in res_bind (choose_prefill env payload a) (\<lambda>(url, a'). Inr (payload, url, a')))) of
        Inl e \<Rightarrow> (Finished_request (Failed (Raised e)), a, [])
      | Inr (payload, prefiller, a') \<Rightarrow>
          (WaitPrefill prefiller payload, add_prefill prefiller 1 a',
           [PostPrefill prefiller (prefill_body payload request_id)]))"

text \<open>The \<^verbatim>\<open>finally\<close> block and the \<^verbatim>\<open>except Exception\<close> clause of the handler's second half.\<close>

definition release_decoder :: "('f, 's) app \<Rightarrow> string option \<Rightarrow> string" where
  "release_decoder a decoder =
     (case filter (\<lambda>url. Some url \<noteq> decoder) (decode a) of url # _ \<Rightarrow> url | [] \<Rightarrow> hd (decode a))"

definition leave_handler ::
  "ctx \<Rightarrow> string option \<Rightarrow> bool \<Rightarrow> outcome \<Rightarrow> ('f, 's) app \<Rightarrow> ('f, 's) segment" where
  "leave_handler c decoder submitted out a =
     (let a' = (case decoder of None \<Rightarrow> a | Some d \<Rightarrow> add_decode d (- 1) a)
      in if submitted then (Finished_request out, a', [])
         else (WaitRelease out, a', [PostRelease (release_decoder a' decoder) (c_transfer c)]))"

definition fail_request ::
  "ctx \<Rightarrow> string option \<Rightarrow> bool \<Rightarrow> failure \<Rightarrow> ('f, 's) app \<Rightarrow> ('f, 's) segment" where
  "fail_request c decoder submitted f a =
     (if f = TaskCancelled then leave_handler c decoder submitted (Failed f) a
      else
        let submitted' = (submitted \<and> f \<noteq> NotConnected) in
        if c_stream c then (WaitErrorEvent c decoder submitted' f, a, [SendError])
        else leave_handler c decoder submitted' (Failed f) a)"

definition le32 :: "nat \<Rightarrow> bytes" where
  "le32 n = map (\<lambda>i. word_of_nat (n div 256 ^ i)) [0..<4]"

definition write_capture :: "('f, 's) proxy_env \<Rightarrow> json \<Rightarrow> ('f, 's) app \<Rightarrow> ('f, 's) app res" where
  "write_capture env signature a =
     (case capture_file a of
        None \<Rightarrow> Inr a
      | Some written \<Rightarrow>
          if \<not> truthy signature then Inl (HTTPInternalServerError ''Training capture requires ELDR=1'')
          else res_bind (e_b64decode env signature) (\<lambda>raw.
            if 2 ^ 32 \<le> length raw then Inl StructError
            else Inr (a\<lparr>capture_file := Some (written @ le32 (length raw) @ raw)\<rparr>)))"

definition decode_body :: "obj \<Rightarrow> json list \<Rightarrow> obj \<Rightarrow> obj" where
  "decode_body payload prompt_ids transfer =
     od_set ''kv_transfer_params'' (JObj transfer)
       (od_del ''truncate_prompt_tokens''
         (od_set ''add_special_tokens'' (JBool False) (od_set ''prompt'' (JArr prompt_ids) payload)))"

text \<open>After the first token has been delivered: capture, and either finish or go on to a decoder.\<close>

definition continue_request :: "('f, 's) proxy_env \<Rightarrow> 'f \<Rightarrow> ctx \<Rightarrow> ('f, 's) app \<Rightarrow> ('f, 's) segment" where
  "continue_request env now c a =
     (case write_capture env (c_signature c) a of
        Inl e \<Rightarrow> fail_request c None False (Raised e) a
      | Inr a1 \<Rightarrow>
          if \<not> c_continues c then
            (if c_stream c then (WaitEof c, a1, [])
             else case public_prefill (c_result c) (c_payload c) False of
               Inl e \<Rightarrow> fail_request c None False (Raised e) a1
             | Inr r \<Rightarrow> leave_handler c None False (Responded (JObj r)) a1)
          else
            (case choose_decode env now (c_signature c) (c_payload c) a1 of
               (Inl e, a2) \<Rightarrow> fail_request c None False (Raised e) a2
             | (Inr decoder, a2) \<Rightarrow>
                 let a3 = add_decode decoder 1 a2 in
                 (case jitem (c_result c) ''created'' of
                    Inl e \<Rightarrow> fail_request c (Some decoder) False (Raised e) a3
                  | Inr created \<Rightarrow>
                      let transfer = od_set ''prefill_created'' created (c_transfer c)
                      in (WaitDecode (c\<lparr>c_transfer := transfer\<rparr>) decoder, a3,
                          [PostDecode decoder (decode_body (c_payload c) (c_prompt c) transfer)]))))"

text \<open>The response of the prefiller has arrived, or its request failed.\<close>

definition accept_prefill :: "('f, 's) proxy_env \<Rightarrow> 'f \<Rightarrow> obj \<Rightarrow> json \<Rightarrow> ('f, 's) app \<Rightarrow> ('f, 's) segment" where
  "accept_prefill env now payload result a =
     (case unpack_prefill result of
        Inl (HTTPBadGateway r) \<Rightarrow>
          (case res_bind (as_obj result) (\<lambda>d. Inr (jget d ''kv_transfer_params'')) of
             Inr (JObj pending) \<Rightarrow>
               if truthy (jget pending ''do_remote_prefill'')
               then (WaitBadRelease (Raised (HTTPBadGateway r)), a, [PostRelease (hd (decode a)) pending])
               else (Finished_request (Failed (Raised (HTTPBadGateway r))), a, [])
           | _ \<Rightarrow> (Finished_request (Failed (Raised (HTTPBadGateway r))), a, []))
      | Inl e \<Rightarrow> (Finished_request (Failed (Raised e)), a, [])
      | Inr (t, prompt_ids) \<Rightarrow>
          let transfer = od_del ''eldr_sig'' t;
              c = \<lparr>c_payload = payload,
                   c_result = (case result of JObj d \<Rightarrow> od_set ''kv_transfer_params'' (JObj transfer) d | _ \<Rightarrow> []),
                   c_transfer = transfer, c_prompt = prompt_ids, c_signature = jget t ''eldr_sig'',
                   c_continues = (jget t ''prefill_continues'' = JBool True),
                   c_stream = truthy (jget payload ''stream'')\<rparr>
          in if c_stream c then (WaitStream c, a, [Accepted transfer prompt_ids])
             else let (ph, a', acts) = continue_request env now c a in (ph, a', Accepted transfer prompt_ids # acts))"

text \<open>
  The events that resume a request: what the awaited operation delivered. A decoder's body is a
  JSON value, or the chunks of a stream.
\<close>

datatype event =
    Reply json
  | Chunks "bytes list"
  | Completed
  | Failure failure

definition resume ::
  "('f, 's) proxy_env \<Rightarrow> 'f \<Rightarrow> event \<Rightarrow> phase \<Rightarrow> ('f, 's) app \<Rightarrow> ('f, 's) segment option" where
  "resume env now ev ph a =
     (case (ph, ev) of
        (WaitPrefill url payload, Reply result) \<Rightarrow> Some (accept_prefill env now payload result (add_prefill url (- 1) a))
      | (WaitPrefill url payload, Failure f) \<Rightarrow> Some (Finished_request (Failed f), add_prefill url (- 1) a, [])
      | (WaitBadRelease f, Completed) \<Rightarrow> Some (Finished_request (Failed f), a, [])
      | (WaitBadRelease f, Failure f') \<Rightarrow> Some (Finished_request (Failed f'), a, [])
      | (WaitStream c, Completed) \<Rightarrow>
          Some (case send_prefill (c_result c) (c_payload c) (c_continues c) of
             Inl e \<Rightarrow> fail_request c None False (Raised e) a
           | Inr chunks \<Rightarrow>
               let (ph', a', acts) = continue_request env now c a in (ph', a', SendChunks chunks # acts))
      | (WaitStream c, Failure f) \<Rightarrow> Some (fail_request c None False f a)
      | (WaitEof c, Completed) \<Rightarrow> Some (leave_handler c None False Streamed a)
      | (WaitEof c, Failure f) \<Rightarrow> Some (fail_request c None False f a)
      | (WaitDecode c d, Reply r) \<Rightarrow> (if c_stream c then None else Some (leave_handler c (Some d) True (Responded r) a))
      | (WaitDecode c d, Chunks bs) \<Rightarrow>
          (if c_stream c
           then Some (let (ph', a', acts) = leave_handler c (Some d) True Streamed a
                      in (ph', a', SendChunks (map RawChunk bs) # acts))
           else None)
      | (WaitDecode c d, Failure f) \<Rightarrow>
          Some (let (ph', a', acts) = fail_request c (Some d) True f a
                in (ph', a', (if f = NotConnected then [Unreached d] else []) @ acts))
      | (WaitErrorEvent c d submitted f, Completed) \<Rightarrow> Some (leave_handler c d submitted (Failed f) a)
      | (WaitErrorEvent c d submitted f, Failure f') \<Rightarrow> Some (leave_handler c d submitted (Failed f') a)
      | (WaitRelease out, Completed) \<Rightarrow> Some (Finished_request out, a, [])
      | (WaitRelease out, Failure f) \<Rightarrow> Some (Finished_request (Failed f), a, [])
      | _ \<Rightarrow> None)"

section \<open>Construction\<close>

record ('f, 's) proxy_args =
  a_prefiller_hosts :: "string list"
  a_prefiller_ports :: "int list"
  a_decoder_hosts :: "string list"
  a_decoder_ports :: "int list"
  a_prefill_router :: string
  a_decode_router :: string
  a_eldr_centroids :: "json option"
  a_domain_mapping :: "json option"
  a_eldr_tau :: 'f
  a_window_seconds :: 'f
  a_refit_seconds :: 'f
  a_prefix_bytes :: int
  a_load_factor :: 'f
  a_seed :: 's
  a_capture_output :: bool

text \<open>
  The two files are arguments by their contents, \<^verbatim>\<open>None\<close> when the option is absent; ring
  construction uses the default of 160 virtual nodes.
\<close>

definition worker_group :: "string list \<Rightarrow> int list \<Rightarrow> string list res" where
  "worker_group hosts ports =
     (if length hosts \<noteq> length ports \<or> hosts = [] then Inl (ValueError ''hosts/ports mismatch'')
      else
        let urls = map (\<lambda>(h, p). ''http://'' @ h @ '':'' @ str_int p) (zip hosts ports)
        in if \<not> distinct urls then Inl (ValueError ''Duplicate worker endpoint'') else Inr urls)"

definition is_eldr :: "string \<Rightarrow> bool" where
  "is_eldr name \<longleftrightarrow> take 4 name = ''eldr''"

definition load_eldr ::
  "('f, 's) proxy_env \<Rightarrow> ('f, 's) proxy_args \<Rightarrow> string list \<Rightarrow> ('f centroid_data \<times> 'f OnlineJSQRouter option) res" where
  "load_eldr env args decoders =
     (case a_eldr_centroids args of
        None \<Rightarrow> Inl (ValueError ''ELDR requires --eldr-centroids'')
      | Some content \<Rightarrow>
          res_bind (load_centroid_file (e_np env) (e_asarray env) (e_array_equal env) content) (\<lambda>cd.
          case centroid_matrix cd of
            None \<Rightarrow> Inl KeyError
          | Some C \<Rightarrow>
              if length C \<noteq> length decoders then Inl (ValueError ''Require one fitted centroid per decoder'')
              else if a_decode_router args = ''eldr''
              then res_bind (make_online (e_np env) (e_warm env) decoders (Nd [length C, length (hd C)] (concat C))
                       (a_eldr_tau args) (a_window_seconds args) (a_refit_seconds args)
                       (jget_or (JStr ''kmbal'') (cd_json cd) ''algo'' = JStr ''kmbal'')) (\<lambda>r. Inr (cd, Some r))
              else Inr (cd, None)))"

definition invalid_worker :: "nat \<Rightarrow> json \<Rightarrow> bool" where
  "invalid_worker n i = (case jint i of None \<Rightarrow> True | Some k \<Rightarrow> \<not> (0 \<le> k \<and> k < int n))"

definition load_domain :: "('f, 's) proxy_args \<Rightarrow> nat \<Rightarrow> obj res" where
  "load_domain args n =
     (case a_domain_mapping args of
        None \<Rightarrow> Inl (ValueError ''Domain baseline requires --domain-mapping'')
      | Some content \<Rightarrow>
          res_bind (as_dict content) (\<lambda>m.
          res_bind (jitem m ''dom2dec'') (\<lambda>v. res_bind (as_obj v) (\<lambda>dom2dec.
          res_bind (jitem m ''misc_dec'') (\<lambda>misc.
          res_bind (res_fold (\<lambda>g found. if found then Inr True
              else res_bind (jlist g) (\<lambda>is. Inr (list_ex (invalid_worker n) is))) (map snd dom2dec @ [misc]) False) (\<lambda>found.
            if found then Inl (ValueError ''Domain mapping contains an invalid worker index'')
            else Inr m))))))"

definition create_app :: "('f, 's) proxy_env \<Rightarrow> ('f, 's) proxy_args \<Rightarrow> ('f, 's) app res" where
  "create_app env args =
     res_bind (worker_group (a_prefiller_hosts args) (a_prefiller_ports args)) (\<lambda>pre.
     res_bind (worker_group (a_decoder_hosts args) (a_decoder_ports args)) (\<lambda>dec.
     res_bind (make_decode_router (a_decode_router args) dec (a_seed args)) (\<lambda>dr.
     res_bind (if a_prefill_router args = ''prefix-hash''
               then res_bind (make_prefix_hash (e_np env) (e_hash64 env) pre (a_prefix_bytes args) (a_load_factor args) 160)
                      (\<lambda>r. Inr (PrefixR r))
               else make_decode_router (a_prefill_router args) pre (a_seed args)) (\<lambda>pr.
     let a = \<lparr>prefill = pre, decode = dec, prefill_inflight = (\<lambda>_. 0), decode_inflight = (\<lambda>_. 0),
              decode_router_name = a_decode_router args, tau = a_eldr_tau args, app_centroid_data = None,
              decode_router = dr, prefill_router = pr, online_jsq_router = None, domain_mapping = None,
              domain_rng = a_seed args, capture_file = None\<rparr> in
     if is_eldr (a_decode_router args) then
       res_bind (load_eldr env args dec) (\<lambda>(cd, r). Inr (a\<lparr>app_centroid_data := Some cd, online_jsq_router := r\<rparr>))
     else if a_decode_router args = ''domain'' then
       res_bind (load_domain args (length dec)) (\<lambda>m. Inr (a\<lparr>domain_mapping := Some m\<rparr>))
     else Inr a))))"

text \<open>The application's resources: the capture file before the first request, the updater at the end.\<close>

definition open_resources :: "('f, 's) proxy_args \<Rightarrow> ('f, 's) app \<Rightarrow> ('f, 's) app" where
  "open_resources args a = a\<lparr>capture_file := if a_capture_output args then Some [] else None\<rparr>"

definition close_resources :: "('f, 's) app \<Rightarrow> ('f, 's) app" where
  "close_resources a = a\<lparr>online_jsq_router := map_option close_updater (online_jsq_router a)\<rparr>"

section \<open>Status pages\<close>

record 'f routing_page =
  pg_online :: bool
  pg_refit :: "'f updater_status option"
  pg_policy :: string
  pg_signature :: "json option"
  pg_tau :: "'f option"
  pg_inflight :: "int list"

definition routing_status :: "('f, 's) app \<Rightarrow> 'f routing_page" where
  "routing_status a =
     \<lparr>pg_online = (online_jsq_router a \<noteq> None), pg_refit = map_option status (online_jsq_router a),
      pg_policy = decode_router_name a,
      pg_signature = map_option (\<lambda>cd. jget_or (JStr ''count'') (cd_json cd) ''variant'') (app_centroid_data a),
      pg_tau = (if app_centroid_data a = None then None else Some (tau a)),
      pg_inflight = map (decode_inflight a) (decode a)\<rparr>"

definition handle_admin_decoders :: "string \<Rightarrow> ('f, 's) app \<Rightarrow> (string list \<times> (string \<times> int) list) res" where
  "handle_admin_decoders http_method a =
     (if http_method \<noteq> ''GET'' then Inl (HTTPBadRequest ''Fixed worker group: prepare a new run to change workers'')
      else Inr (decode a, map (\<lambda>u. (u, decode_inflight a u)) (decode a)))"

section \<open>Interleaving of requests\<close>

text \<open>
  The state of the proxy: the application and, for every request that has arrived, where it is
  suspended and what it has done so far. Besides the requests, the refit worker moves.
\<close>

type_synonym requests = "(phase \<times> action list) list"

inductive proxy_run :: "('f, 's) proxy_env \<Rightarrow> ('f, 's) app \<Rightarrow> ('f, 's) app \<Rightarrow> requests \<Rightarrow> bool" for env a0 where
  start: "proxy_run env a0 a0 []"
| arrive: "proxy_run env a0 a rs \<Longrightarrow> begin_request env path body rid a = (ph, a', acts) \<Longrightarrow>
    proxy_run env a0 a' (rs @ [(ph, acts)])"
| advance: "proxy_run env a0 a rs \<Longrightarrow> i < length rs \<Longrightarrow> rs ! i = (ph, acts) \<Longrightarrow>
    resume env now ev ph a = Some (ph', a', new) \<Longrightarrow> proxy_run env a0 a' (rs[i := (ph', acts @ new)])"
| refit_takes: "proxy_run env a0 a rs \<Longrightarrow>
    proxy_run env a0 (a\<lparr>online_jsq_router := map_option take_job (online_jsq_router a)\<rparr>) rs"
| refit_finishes: "proxy_run env a0 a rs \<Longrightarrow>
    proxy_run env a0 (a\<lparr>online_jsq_router := map_option (finish_job (e_np env)) (online_jsq_router a)\<rparr>) rs"
| stop: "proxy_run env a0 a rs \<Longrightarrow> proxy_run env a0 (close_resources a) rs"

section \<open>Counters\<close>

text \<open>The worker a suspended request counts for.\<close>

fun decoder_of :: "phase \<Rightarrow> string option" where
  "decoder_of (WaitDecode c d) = Some d"
| "decoder_of (WaitErrorEvent c d submitted f) = d"
| "decoder_of _ = None"

fun prefiller_of :: "phase \<Rightarrow> string option" where
  "prefiller_of (WaitPrefill url payload) = Some url"
| "prefiller_of _ = None"

definition ind :: "string option \<Rightarrow> string \<Rightarrow> int" where
  "ind w u = (if w = Some u then 1 else 0)"

lemma ind_None [simp]: "ind None u = 0"
  by (simp add: ind_def)

lemma ind_Some: "ind (Some w) u = (if u = w then 1 else 0)"
  by (auto simp: ind_def)

fun target_ok :: "string set \<Rightarrow> string set \<Rightarrow> action \<Rightarrow> bool" where
  "target_ok P D (PostPrefill u b) \<longleftrightarrow> u \<in> P"
| "target_ok P D (PostDecode u b) \<longleftrightarrow> u \<in> D"
| "target_ok P D (PostRelease u b) \<longleftrightarrow> u \<in> D"
| "target_ok P D _ \<longleftrightarrow> True"

text \<open>
  The effect of a segment on the shared state, for a request that so far counts for the prefiller
  \<open>p\<close> and the decoder \<open>d\<close>.
\<close>

definition segment_ok :: "string option \<Rightarrow> string option \<Rightarrow> ('f, 's) app \<Rightarrow> ('f, 's) segment \<Rightarrow> bool" where
  "segment_ok p d a seg \<longleftrightarrow> (case seg of (ph, a', acts) \<Rightarrow>
     prefill a' = prefill a \<and> decode a' = decode a \<and>
     (\<forall>u. prefill_inflight a' u = prefill_inflight a u - ind p u + ind (prefiller_of ph) u) \<and>
     (\<forall>u. decode_inflight a' u = decode_inflight a u - ind d u + ind (decoder_of ph) u) \<and>
     (decode a \<noteq> [] \<longrightarrow> list_all (target_ok (set (prefill a)) (set (decode a))) acts))"

definition same_shared :: "('f, 's) app \<Rightarrow> ('f, 's) app \<Rightarrow> bool" where
  "same_shared a b \<longleftrightarrow> prefill a = prefill b \<and> decode a = decode b \<and> prefill_inflight a = prefill_inflight b \<and>
     decode_inflight a = decode_inflight b"

lemma segment_ok_same: "same_shared a b \<Longrightarrow> segment_ok p d a seg \<longleftrightarrow> segment_ok p d b seg"
  by (simp add: segment_ok_def same_shared_def)

lemma segment_ok_quiet:
  "prefiller_of ph = None \<Longrightarrow> decoder_of ph = None \<Longrightarrow> decode a \<noteq> [] \<longrightarrow> list_all (target_ok (set (prefill a)) (set (decode a))) acts \<Longrightarrow>
     segment_ok None None a (ph, a, acts)"
  by (simp add: segment_ok_def)

lemma segment_ok_log:
  "segment_ok p d a seg \<Longrightarrow> list_all (target_ok (set (prefill a)) (set (decode a))) xs \<Longrightarrow>
     segment_ok p d a (case seg of (ph, a', acts) \<Rightarrow> (ph, a', xs @ acts))"
  by (cases seg) (simp add: segment_ok_def)

lemmas segment_ok_log1 = segment_ok_log [of _ _ _ _ "[x]" for x, simplified]

lemma release_decoder_mem: "decode a \<noteq> [] \<Longrightarrow> release_decoder a d \<in> set (decode a)"
proof (cases "filter (\<lambda>url. Some url \<noteq> d) (decode a)")
  case (Cons x xs)
  then have "x \<in> set (filter (\<lambda>url. Some url \<noteq> d) (decode a))" by (metis list.set_intros(1))
  then have "x \<in> set (decode a)" by simp
  then show ?thesis by (simp add: release_decoder_def Cons)
qed (simp add: release_decoder_def)

lemma leave_handler_segment: "segment_ok None d a (leave_handler c d submitted out a)"
  using release_decoder_mem [of a d] release_decoder_mem [of "add_decode (the d) (- 1) a" d]
  by (cases d) (auto simp: segment_ok_def leave_handler_def Let_def add_decode_def ind_Some)

lemma fail_request_segment: "segment_ok None d a (fail_request c d submitted f a)"
  unfolding fail_request_def Let_def by (simp add: leave_handler_segment) (simp add: segment_ok_def)

lemma write_capture_same: "write_capture env sig a = Inr a' \<Longrightarrow> same_shared a a'"
  by (auto simp: write_capture_def same_shared_def res_simps split: option.splits if_splits)

lemma choose_decode_frame:
  assumes "choose_decode env now sig payload a = (r, a')"
  shows "same_shared a a'" "r = Inr d \<Longrightarrow> d \<in> set (decode a)"
proof -
  show "same_shared a a'"
    using assms unfolding choose_decode_def Let_def same_shared_def
    by (auto split: if_splits sum.splits option.splits prod.splits)
  show "d \<in> set (decode a)" if "r = Inr d"
    using assms that unfolding choose_decode_def Let_def
    by (auto split: if_splits sum.splits option.splits prod.splits simp: res_bind_eq_Inr dest: py_nth_mem)
qed

lemma choose_prefill_frame:
  assumes "choose_prefill env payload a = Inr (url, a')"
  shows "same_shared a a'" "url \<in> set (prefill a)"
  using assms by (auto simp: choose_prefill_def Let_def res_simps same_shared_def dest: py_nth_mem)

lemma add_frame [simp]:
  "prefill (add_prefill u k a) = prefill a" "decode (add_prefill u k a) = decode a"
  "prefill (add_decode u k a) = prefill a" "decode (add_decode u k a) = decode a"
  "prefill_inflight (add_decode u k a) = prefill_inflight a" "decode_inflight (add_prefill u k a) = decode_inflight a"
  "prefill_inflight (add_prefill u k a) v = prefill_inflight a v + k * ind (Some u) v"
  "decode_inflight (add_decode u k a) v = decode_inflight a v + k * ind (Some u) v"
  by (simp_all add: add_prefill_def add_decode_def ind_Some)

lemma segment_ok_decode:
  "segment_ok None (Some w) (add_decode w 1 a) seg \<Longrightarrow> segment_ok None None a seg"
  by (cases seg) (simp add: segment_ok_def)

lemma segment_ok_prefill:
  "segment_ok None d (add_prefill w (- 1) a) seg \<Longrightarrow> segment_ok (Some w) d a seg"
  by (cases seg) (simp add: segment_ok_def)

lemma continue_request_segment: "segment_ok None None a (continue_request env now c a)"
proof (cases "write_capture env (c_signature c) a")
  case (Inl e)
  then show ?thesis by (simp add: continue_request_def fail_request_segment)
next
  case (Inr a1)
  note s1 = write_capture_same [OF Inr]
  obtain r a2 where ch: "choose_decode env now (c_signature c) (c_payload c) a1 = (r, a2)" by force
  note s2 = choose_decode_frame(1) [OF ch]
  have 1: "segment_ok None None a1 (continue_request env now c a)" if "\<not> c_continues c"
    using that
    by (auto simp: continue_request_def Inr fail_request_segment leave_handler_segment segment_ok_quiet split: sum.split)
  have 2: "segment_ok None None a2 (continue_request env now c a)" if "c_continues c" "r = Inl e" for e
    using that by (simp add: continue_request_def Inr ch fail_request_segment)
  have 3: "segment_ok None None a2 (continue_request env now c a)" if k: "c_continues c" "r = Inr d" for d
  proof (cases "jitem (c_result c) ''created''")
    case (Inl e)
    show ?thesis
      by (rule segment_ok_decode [of d]) (simp add: continue_request_def Inr ch k Let_def Inl fail_request_segment)
  next
    case created: (Inr v)
    have "d \<in> set (decode a2)" using choose_decode_frame(2) [OF ch k(2)] s2 by (simp add: same_shared_def)
    then show ?thesis by (simp add: continue_request_def Inr ch k Let_def created segment_ok_def)
  qed
  show ?thesis
    using 1 2 3 segment_ok_same [OF s1] segment_ok_same [OF s2] by (cases "c_continues c"; cases r) auto
qed

lemma accept_prefill_segment: "segment_ok None None a (accept_prefill env now payload result a)"
proof (cases "unpack_prefill result")
  case (Inr q)
  then obtain t ps where q: "unpack_prefill result = Inr (t, ps)" by (cases q) auto
  show ?thesis
    unfolding accept_prefill_def q Let_def sum.case prod.case
    by (simp add: segment_ok_quiet segment_ok_log1 continue_request_segment)
next
  case (Inl e)
  show ?thesis unfolding accept_prefill_def Inl
    by (auto split: py_error.split sum.split json.split intro!: segment_ok_quiet)
qed

lemma resume_segment:
  assumes "resume env now ev ph a = Some seg"
  shows "segment_ok (prefiller_of ph) (decoder_of ph) a seg"
proof (cases ph)
  case (WaitPrefill url payload)
  show ?thesis
    unfolding WaitPrefill prefiller_of.simps decoder_of.simps
    by (rule segment_ok_prefill)
      (use assms in \<open>auto simp: resume_def WaitPrefill accept_prefill_segment segment_ok_quiet split: event.splits\<close>)
next
  case (WaitStream c)
  then show ?thesis
    using assms
    by (auto simp: resume_def fail_request_segment continue_request_segment segment_ok_log1 split: event.splits sum.splits)
next
  case (WaitDecode c d)
  then show ?thesis
    using assms
    by (auto simp: resume_def leave_handler_segment fail_request_segment segment_ok_log1 split: event.splits if_splits)
next
  case (WaitEof c)
  then show ?thesis
    using assms by (auto simp: resume_def fail_request_segment leave_handler_segment split: event.splits)
next
  case (WaitErrorEvent c d submitted f)
  then show ?thesis using assms by (auto simp: resume_def leave_handler_segment split: event.splits)
qed (use assms in \<open>auto simp: resume_def segment_ok_quiet split: event.splits\<close>)

lemma begin_request_segment: "segment_ok None None a (begin_request env path body rid a)"
proof (cases "res_bind (validate_request path body) (\<lambda>_. res_bind (as_dict body) (\<lambda>p0.
      let payload = od_set ''request_id'' (JStr rid) p0
      in res_bind (choose_prefill env payload a) (\<lambda>(url, a'). Inr (payload, url, a'))))")
  case (Inl e)
  show ?thesis unfolding begin_request_def Inl by (simp add: segment_ok_quiet)
next
  case (Inr q)
  obtain payload url a' where q: "q = (payload, url, a')" by (cases q) auto
  have "choose_prefill env payload a = Inr (url, a')" using Inr unfolding q by (auto simp: res_simps Let_def)
  from choose_prefill_frame [OF this] show ?thesis
    unfolding begin_request_def Inr q by (simp add: segment_ok_def same_shared_def)
qed

text \<open>The invariant of the interleaving: the counters are the numbers of suspended requests.\<close>

definition counters_ok :: "('f, 's) app \<Rightarrow> requests \<Rightarrow> bool" where
  "counters_ok a rs \<longleftrightarrow>
     (\<forall>u. prefill_inflight a u = sum_list (map (\<lambda>r. ind (prefiller_of (fst r)) u) rs)) \<and>
     (\<forall>u. decode_inflight a u = sum_list (map (\<lambda>r. ind (decoder_of (fst r)) u) rs))"

lemma sum_list_map_update:
  fixes f :: "'a \<Rightarrow> int"
  assumes "i < length rs"
  shows "sum_list (map f (rs[i := r])) = sum_list (map f rs) - f (rs ! i) + f r"
  using sum_list_update_add [of i "map f rs" "f r - f (rs ! i)"] assms by (simp add: map_update)

lemma segment_counters:
  assumes "segment_ok (prefiller_of (fst (rs ! i))) (decoder_of (fst (rs ! i))) a (ph', a', new)"
    "counters_ok a rs" "i < length rs"
  shows "counters_ok a' (rs[i := (ph', acts)])"
  using assms by (simp add: counters_ok_def segment_ok_def sum_list_map_update)

lemma segment_counters_new:
  assumes "segment_ok None None a (ph', a', new)" "counters_ok a rs"
  shows "counters_ok a' (rs @ [(ph', acts)])"
  using assms by (simp add: counters_ok_def segment_ok_def)

definition targets_ok :: "('f, 's) app \<Rightarrow> requests \<Rightarrow> bool" where
  "targets_ok a0 rs \<longleftrightarrow> (\<forall>r \<in> set rs. list_all (target_ok (set (prefill a0)) (set (decode a0))) (snd r))"

lemma segment_okD:
  assumes "segment_ok p d a (ph', a', new)" "decode a \<noteq> []"
  shows "prefill a' = prefill a" "decode a' = decode a" "list_all (target_ok (set (prefill a)) (set (decode a))) new"
  using assms by (simp_all add: segment_ok_def)

lemma targets_ok_update:
  assumes "targets_ok a0 rs" "i < length rs" "rs ! i = (ph, acts)"
    "list_all (target_ok (set (prefill a0)) (set (decode a0))) new"
  shows "targets_ok a0 (rs[i := (ph', acts @ new)])"
proof -
  have "(ph, acts) \<in> set rs" using assms(2,3) by (metis nth_mem)
  then have "list_all (target_ok (set (prefill a0)) (set (decode a0))) (acts @ new)"
    using assms(1,4) by (auto simp: targets_ok_def)
  then show ?thesis using assms(1) set_update_subset_insert [of rs i "(ph', acts @ new)"] unfolding targets_ok_def by auto
qed

lemma proxy_run_counters:
  assumes "proxy_run env a0 a rs" "\<forall>u. prefill_inflight a0 u = 0" "\<forall>u. decode_inflight a0 u = 0" "decode a0 \<noteq> []"
  shows "counters_ok a rs \<and> targets_ok a0 rs \<and> prefill a = prefill a0 \<and> decode a = decode a0"
  using assms(1)
proof (induction rule: proxy_run.induct)
  case start
  then show ?case using assms by (simp add: counters_ok_def targets_ok_def)
next
  case (arrive a rs path body rid ph a' acts)
  have s: "segment_ok None None a (ph, a', acts)" using begin_request_segment [of a] arrive.hyps(2) by metis
  have "decode a \<noteq> []" using arrive.IH assms(4) by simp
  note d = segment_okD [OF s this]
  have "targets_ok a0 (rs @ [(ph, acts)])" using arrive.IH d(3) by (simp add: targets_ok_def ball_Un)
  then show ?case using segment_counters_new [OF s] arrive.IH d(1,2) by simp
next
  case (advance a rs i ph acts now ev ph' a' new)
  have s: "segment_ok (prefiller_of (fst (rs ! i))) (decoder_of (fst (rs ! i))) a (ph', a', new)"
    using resume_segment [OF advance.hyps(4)] advance.hyps(3) by simp
  have "decode a \<noteq> []" using advance.IH assms(4) by simp
  note d = segment_okD [OF s this]
  have "targets_ok a0 (rs[i := (ph', acts @ new)])"
    using targets_ok_update advance.IH advance.hyps(2,3) d(3) by metis
  then show ?case using segment_counters [OF s] advance.IH advance.hyps(2) d(1,2) by simp
qed (simp_all add: counters_ok_def close_resources_def)

lemma create_app_Inr:
  assumes "create_app env args = Inr a"
  shows "\<forall>u. prefill_inflight a u = 0" "\<forall>u. decode_inflight a u = 0" "decode a \<noteq> []" "prefill a \<noteq> []"
    "distinct (decode a)" "distinct (prefill a)"
proof -
  have w: "urls \<noteq> [] \<and> distinct urls" if "worker_group hosts ports = Inr urls" for hosts ports urls
    using that by (auto simp: worker_group_def Let_def split: if_splits)
  define base where "base pre dec dr pr = \<lparr>prefill = pre, decode = dec, prefill_inflight = (\<lambda>_. 0),
      decode_inflight = (\<lambda>_. 0), decode_router_name = a_decode_router args, tau = a_eldr_tau args,
      app_centroid_data = None, decode_router = dr, prefill_router = pr, online_jsq_router = None,
      domain_mapping = None, domain_rng = a_seed args, capture_file = None\<rparr>" for pre dec dr pr
  obtain pre dec dr pr where pd: "worker_group (a_prefiller_hosts args) (a_prefiller_ports args) = Inr pre"
      "worker_group (a_decoder_hosts args) (a_decoder_ports args) = Inr dec"
    and r: "(if is_eldr (a_decode_router args) then
         res_bind (load_eldr env args dec) (\<lambda>(cd, r). Inr (base pre dec dr pr\<lparr>app_centroid_data := Some cd, online_jsq_router := r\<rparr>))
       else if a_decode_router args = ''domain'' then
         res_bind (load_domain args (length dec)) (\<lambda>m. Inr (base pre dec dr pr\<lparr>domain_mapping := Some m\<rparr>))
       else Inr (base pre dec dr pr)) = Inr a"
    using assms unfolding create_app_def Let_def base_def [symmetric] by (auto simp only: res_bind_eq_Inr)
  have f: "prefill a = pre" "decode a = dec" "prefill_inflight a = (\<lambda>_. 0)" "decode_inflight a = (\<lambda>_. 0)"
    using r by (auto simp: base_def res_bind_eq_Inr split: if_splits)
  then show "\<forall>u. prefill_inflight a u = 0" "\<forall>u. decode_inflight a u = 0" "decode a \<noteq> []" "prefill a \<noteq> []"
    "distinct (decode a)" "distinct (prefill a)"
    using w [OF pd(1)] w [OF pd(2)] by simp_all
qed

text \<open>
  C15. In-flight counts are exact. However the segments of any number of requests interleave, and
  whatever responses, connection failures, exceptions and cancellations they meet, the counter of
  every prefiller is the number of requests waiting for it, and the counter of every decoder the
  number of requests it was chosen for that have not left the handler. So both are never
  negative, and zero again when every request has finished. Requests are only ever posted to
  workers of the configured groups.
\<close>

theorem inflight_counts_exact:
  assumes "create_app env args = Inr a0" "proxy_run env (open_resources args a0) a rs"
  shows "(\<forall>u. prefill_inflight a u = int (length (filter (\<lambda>r. prefiller_of (fst r) = Some u) rs))) \<and>
     (\<forall>u. decode_inflight a u = int (length (filter (\<lambda>r. decoder_of (fst r) = Some u) rs))) \<and>
     ((\<forall>r \<in> set rs. \<exists>out. fst r = Finished_request out) \<longrightarrow>
        (\<forall>u. prefill_inflight a u = 0 \<and> decode_inflight a u = 0)) \<and>
     (\<forall>r \<in> set rs. list_all (target_ok (set (prefill a0)) (set (decode a0))) (snd r))"
proof -
  have c: "counters_ok a rs" "targets_ok a0 rs"
    using proxy_run_counters [OF assms(2)] create_app_Inr [OF assms(1)]
    by (simp_all add: open_resources_def targets_ok_def)
  have n: "sum_list (map (\<lambda>r. ind (w (fst r)) u) rs) = int (length (filter (\<lambda>r. w (fst r) = Some u) rs))" for w u
    by (induction rs) (auto simp: ind_def)
  have z: "filter (\<lambda>r. prefiller_of (fst r) = Some u) rs = []" "filter (\<lambda>r. decoder_of (fst r) = Some u) rs = []"
    if "\<forall>r \<in> set rs. \<exists>out. fst r = Finished_request out" for u
    using that by (auto simp: filter_empty_conv)
  show ?thesis using c(1,2) z unfolding counters_ok_def n targets_ok_def by simp
qed

section \<open>Settlement of a transfer\<close>

definition accepted :: "action list \<Rightarrow> (obj \<times> json list) list" where
  "accepted acts = concat (map (\<lambda>x. case x of Accepted t ps \<Rightarrow> [(t, ps)] | _ \<Rightarrow> []) acts)"

definition released :: "action list \<Rightarrow> obj list" where
  "released acts = concat (map (\<lambda>x. case x of PostRelease u t \<Rightarrow> [t] | _ \<Rightarrow> []) acts)"

definition submitted_bodies :: "action list \<Rightarrow> obj list" where
  "submitted_bodies acts = concat (map (\<lambda>x. case x of PostDecode u b \<Rightarrow> [b] | _ \<Rightarrow> []) acts)"

definition unreached :: "action list \<Rightarrow> bool" where
  "unreached acts \<longleftrightarrow> list_ex (\<lambda>x. case x of Unreached u \<Rightarrow> True | _ \<Rightarrow> False) acts"

lemma log_simps [simp]:
  "accepted [] = []" "accepted (x # xs) = (case x of Accepted t ps \<Rightarrow> [(t, ps)] | _ \<Rightarrow> []) @ accepted xs"
  "accepted (xs @ ys) = accepted xs @ accepted ys"
  "released [] = []" "released (x # xs) = (case x of PostRelease u t \<Rightarrow> [t] | _ \<Rightarrow> []) @ released xs"
  "released (xs @ ys) = released xs @ released ys"
  "submitted_bodies [] = []" "submitted_bodies (x # xs) = (case x of PostDecode u b \<Rightarrow> [b] | _ \<Rightarrow> []) @ submitted_bodies xs"
  "submitted_bodies (xs @ ys) = submitted_bodies xs @ submitted_bodies ys"
  "unreached [] \<longleftrightarrow> False" "unreached (x # xs) \<longleftrightarrow> (case x of Unreached u \<Rightarrow> True | _ \<Rightarrow> False) \<or> unreached xs"
  "unreached (xs @ ys) \<longleftrightarrow> unreached xs \<or> unreached ys"
  by (simp_all add: accepted_def released_def submitted_bodies_def unreached_def)

text \<open>The same transfer, up to the creation time the proxy adds for the decoder.\<close>

definition same_transfer :: "obj \<Rightarrow> obj \<Rightarrow> bool" where
  "same_transfer t x \<longleftrightarrow> od_del ''prefill_created'' x = od_del ''prefill_created'' t"

lemma od_del_set: "od_del k (od_set k v d) = od_del k d"
  by (induction d) (auto simp: od_del_def)

lemma same_transfer_created: "same_transfer t x \<Longrightarrow> same_transfer t (od_set ''prefill_created'' v x)"
  by (simp add: same_transfer_def od_del_set)

text \<open>The body of a decode request continues exactly the accepted history.\<close>

definition continues_history :: "obj \<times> json list \<Rightarrow> obj \<Rightarrow> bool" where
  "continues_history h b \<longleftrightarrow> (case h of (t, ps) \<Rightarrow>
     od_get b ''prompt'' = Some (JArr ps) \<and> od_get b ''add_special_tokens'' = Some (JBool False) \<and>
     od_get b ''truncate_prompt_tokens'' = None \<and>
     (\<exists>x. od_get b ''kv_transfer_params'' = Some (JObj x) \<and> same_transfer t x))"

lemma decode_body_continues: "same_transfer t x \<Longrightarrow> continues_history (t, ps) (decode_body payload ps x)"
  by (auto simp: continues_history_def decode_body_def od_simps)

text \<open>
  What the log of a request in the second half of the handler says: the hand-off was accepted once
  and nothing released; a decoder was posted to at most once, with the accepted history; and the
  transfer counts as submitted exactly if that decoder was reached.
\<close>

definition open_log :: "ctx \<Rightarrow> bool \<Rightarrow> action list \<Rightarrow> bool" where
  "open_log c submitted acts \<longleftrightarrow> (\<exists>t. accepted acts = [(t, c_prompt c)] \<and> same_transfer t (c_transfer c) \<and> released acts = [] \<and>
     length (submitted_bodies acts) \<le> 1 \<and> (\<forall>b \<in> set (submitted_bodies acts). continues_history (t, c_prompt c) b) \<and>
     (unreached acts \<longrightarrow> submitted_bodies acts \<noteq> []) \<and>
     (submitted \<longleftrightarrow> submitted_bodies acts \<noteq> [] \<and> \<not> unreached acts))"

definition settled :: "action list \<Rightarrow> bool" where
  "settled acts \<longleftrightarrow> length (submitted_bodies acts) \<le> 1 \<and> length (released acts) \<le> 1 \<and>
     (accepted acts = [] \<longrightarrow> submitted_bodies acts = []) \<and>
     (accepted acts \<noteq> [] \<longrightarrow> (\<exists>t ps. accepted acts = [(t, ps)] \<and>
        (\<forall>b \<in> set (submitted_bodies acts). continues_history (t, ps) b) \<and>
        (if submitted_bodies acts \<noteq> [] \<and> \<not> unreached acts then released acts = []
         else \<exists>x. released acts = [x] \<and> same_transfer t x)))"

fun log_ok :: "phase \<Rightarrow> action list \<Rightarrow> bool" where
  "log_ok (WaitPrefill u p) acts \<longleftrightarrow> accepted acts = [] \<and> submitted_bodies acts = [] \<and> released acts = []"
| "log_ok (WaitBadRelease f) acts \<longleftrightarrow> accepted acts = [] \<and> settled acts"
| "log_ok (WaitStream c) acts \<longleftrightarrow> open_log c False acts \<and> submitted_bodies acts = []"
| "log_ok (WaitEof c) acts \<longleftrightarrow> open_log c False acts \<and> submitted_bodies acts = []"
| "log_ok (WaitDecode c d) acts \<longleftrightarrow> open_log c True acts"
| "log_ok (WaitErrorEvent c d submitted f) acts \<longleftrightarrow> open_log c submitted acts"
| "log_ok (WaitRelease out) acts \<longleftrightarrow> settled acts"
| "log_ok (Finished_request out) acts \<longleftrightarrow> settled acts"

lemma leave_handler_log:
  assumes "open_log c submitted acts" "leave_handler c d submitted out a = (ph, a', new)"
  shows "log_ok ph (acts @ new)"
  using assms by (cases submitted) (auto simp: leave_handler_def Let_def open_log_def settled_def)

lemma fail_request_log:
  assumes "open_log c (submitted \<and> f \<noteq> NotConnected) acts" "fail_request c d submitted f a = (ph, a', new)"
  shows "log_ok ph (acts @ new)"
proof (cases "f \<noteq> TaskCancelled \<and> c_stream c")
  case True
  then have "ph = WaitErrorEvent c d (submitted \<and> f \<noteq> NotConnected) f" "new = [SendError]"
    using assms(2) by (simp_all add: fail_request_def Let_def)
  then show ?thesis using assms(1) by (simp add: open_log_def)
next
  case False
  then have "leave_handler c d (submitted \<and> f \<noteq> NotConnected) (Failed f) a = (ph, a', new)"
    using assms(2) by (auto simp: fail_request_def Let_def split: if_splits)
  then show ?thesis using leave_handler_log [OF assms(1)] by blast
qed

lemma continue_request_log:
  assumes o: "open_log c False acts" "submitted_bodies acts = []" and seg: "continue_request env now c a = (ph, a', new)"
  shows "log_ok ph (acts @ new)"
proof -
  have F: "log_ok ph (acts @ new)" if "fail_request c d False (Raised e) b = (ph, a', new)" for d e b
    using fail_request_log [OF _ that] o(1) by simp
  have L: "log_ok ph (acts @ new)" if "leave_handler c None False out b = (ph, a', new)" for out b
    using leave_handler_log [OF o(1) that] .
  have D: "log_ok (WaitDecode (c\<lparr>c_transfer := od_set ''prefill_created'' v (c_transfer c)\<rparr>) d)
     (acts @ [PostDecode d (decode_body (c_payload c) (c_prompt c) (od_set ''prefill_created'' v (c_transfer c)))])" for d v
    using o decode_body_continues same_transfer_created
    by (auto simp: open_log_def)
  show ?thesis
    using seg F L D o unfolding continue_request_def Let_def
    by (auto split: sum.splits if_splits prod.splits)
qed

lemma accept_prefill_log:
  assumes "accepted acts = []" "submitted_bodies acts = []" "released acts = []" "\<not> unreached acts"
    and seg: "accept_prefill env now payload result a = (ph, a', new)"
  shows "log_ok ph (acts @ new)"
proof (cases "unpack_prefill result")
  case (Inl e)
  have "log_ok (Finished_request out) (acts @ [])" "log_ok (WaitBadRelease f) (acts @ [PostRelease u t])" for out f u t
    using assms by (simp_all add: settled_def)
  then show ?thesis
    using seg unfolding accept_prefill_def Inl by (auto split: py_error.splits sum.splits json.splits if_splits)
next
  case (Inr q)
  then obtain t ps where q: "unpack_prefill result = Inr (t, ps)" by (cases q) auto
  define transfer where "transfer = od_del ''eldr_sig'' t"
  define c where "c = \<lparr>c_payload = payload,
     c_result = (case result of JObj d \<Rightarrow> od_set ''kv_transfer_params'' (JObj transfer) d | _ \<Rightarrow> []),
     c_transfer = transfer, c_prompt = ps, c_signature = jget t ''eldr_sig'',
     c_continues = (jget t ''prefill_continues'' = JBool True), c_stream = truthy (jget payload ''stream'')\<rparr>"
  have o: "open_log c False (acts @ [Accepted transfer ps])" "submitted_bodies (acts @ [Accepted transfer ps]) = []"
    using assms by (simp_all add: open_log_def c_def same_transfer_def)
  have "accept_prefill env now payload result a =
     (if c_stream c then (WaitStream c, a, [Accepted transfer ps])
      else case continue_request env now c a of (ph, a', acts) \<Rightarrow> (ph, a', Accepted transfer ps # acts))"
    unfolding accept_prefill_def q Let_def c_def transfer_def by simp
  then show ?thesis
    using seg o continue_request_log [OF o] by (auto split: if_splits prod.splits)
qed

lemma resume_log:
  assumes l: "log_ok ph acts" "unreached acts \<longrightarrow> submitted_bodies acts \<noteq> []"
    and r: "resume env now ev ph a = Some (ph', a', new)"
  shows "log_ok ph' (acts @ new)"
proof (cases ph)
  case (WaitPrefill u p)
  then show ?thesis
    using l r accept_prefill_log [of acts env now p] by (auto simp: resume_def settled_def split: event.splits)
next
  case (WaitStream c)
  then have o: "open_log c False acts" "submitted_bodies acts = []" using l by simp_all
  then have o': "open_log c False (acts @ [SendChunks chunks])" "submitted_bodies (acts @ [SendChunks chunks]) = []" for chunks
    by (simp_all add: open_log_def)
  show ?thesis
    using r WaitStream fail_request_log [of c False _ acts] continue_request_log [OF o'] o
    by (auto simp: resume_def split: event.splits sum.splits prod.splits)
next
  case (WaitEof c)
  then show ?thesis
    using l r fail_request_log [of c False _ acts] leave_handler_log [of c False acts]
    by (auto simp: resume_def split: event.splits)
next
  case (WaitDecode c d)
  then have o: "open_log c True acts" using l by simp
  then have o': "open_log c True (acts @ [SendChunks x])" "open_log c False (acts @ [Unreached d])" for x
    by (auto simp: open_log_def)
  have f: "log_ok ph' (acts @ new)" if "f \<noteq> NotConnected" "fail_request c (Some d) True f a = (ph', a', new)" for f
    using fail_request_log [OF _ that(2), of acts] o that(1) by simp
  show ?thesis
    using r WaitDecode leave_handler_log [OF o] leave_handler_log [OF o'(1)] f
      fail_request_log [of c True NotConnected "acts @ [Unreached d]"] o'(2)
    by (auto simp: resume_def split: event.splits if_splits prod.splits)
next
  case (WaitErrorEvent c d submitted f)
  then show ?thesis using l r leave_handler_log [of c submitted acts] by (auto simp: resume_def split: event.splits)
qed (use l r in \<open>auto simp: resume_def split: event.splits\<close>)

lemma leave_handler_reached: "leave_handler c d submitted out a = (ph, a', new) \<Longrightarrow> \<not> unreached new"
  by (auto simp: leave_handler_def Let_def split: if_splits)

lemma fail_request_reached: "fail_request c d submitted f a = (ph, a', new) \<Longrightarrow> \<not> unreached new"
  using leave_handler_reached by (fastforce simp: fail_request_def Let_def split: if_splits)

lemma continue_request_reached: "continue_request env now c a = (ph, a', new) \<Longrightarrow> \<not> unreached new"
  using fail_request_reached leave_handler_reached unfolding continue_request_def Let_def
  by (fastforce split: sum.splits if_splits prod.splits)

lemma accept_prefill_reached: "accept_prefill env now payload result a = (ph, a', new) \<Longrightarrow> \<not> unreached new"
  using continue_request_reached unfolding accept_prefill_def Let_def
  by (fastforce split: sum.splits if_splits prod.splits py_error.splits json.splits)

lemma resume_reached:
  assumes "log_ok ph acts" "resume env now ev ph a = Some (ph', a', new)" "unreached new"
  shows "submitted_bodies acts \<noteq> []"
proof (cases ph)
  case (WaitDecode c d)
  then show ?thesis using assms(1) by (auto simp: open_log_def)
qed (use assms(2,3) accept_prefill_reached continue_request_reached fail_request_reached leave_handler_reached in
  \<open>fastforce simp: resume_def split: event.splits sum.splits prod.splits\<close>)+

definition requests_ok :: "requests \<Rightarrow> bool" where
  "requests_ok rs \<longleftrightarrow> (\<forall>(ph, acts) \<in> set rs. log_ok ph acts \<and> (unreached acts \<longrightarrow> submitted_bodies acts \<noteq> []))"

lemma begin_request_log:
  assumes "begin_request env path body rid a = (ph, a', acts)"
  shows "log_ok ph acts" "\<not> unreached acts"
  using assms unfolding begin_request_def by (auto simp: settled_def split: sum.splits prod.splits)

lemma proxy_run_logs: "proxy_run env a0 a rs \<Longrightarrow> requests_ok rs"
proof (induction rule: proxy_run.induct)
  case (arrive a rs path body rid ph a' acts)
  then show ?case using begin_request_log [OF arrive.hyps(2)] by (auto simp: requests_ok_def)
next
  case (advance a rs i ph acts now ev ph' a' new)
  have "(ph, acts) \<in> set rs" using advance.hyps(2,3) by (metis nth_mem)
  then have l: "log_ok ph acts" "unreached acts \<longrightarrow> submitted_bodies acts \<noteq> []"
    using advance.IH by (auto simp: requests_ok_def)
  have "log_ok ph' (acts @ new)" "unreached (acts @ new) \<longrightarrow> submitted_bodies (acts @ new) \<noteq> []"
    using resume_log [OF l advance.hyps(4)] resume_reached [OF l(1) advance.hyps(4)] l(2) by auto
  then show ?case
    using advance.IH set_update_subset_insert [of rs i "(ph', acts @ new)"] unfolding requests_ok_def by blast
qed (simp_all add: requests_ok_def)


section \<open>Witnesses\<close>

definition ex_env :: "(int, nat) proxy_env" where
  "ex_env = \<lparr>e_np = int_np, e_rng = count_rng, e_hash64 = length, e_md5 = (\<lambda>_. []), e_b64decode = (\<lambda>_. Inr []),
     e_frombuffer = (\<lambda>_ _. Inr []), e_asarray = (\<lambda>_. Inl TypeError), e_array_equal = (\<lambda>_ _. False), e_warm = Inr ()\<rparr>"

definition ex_args :: "(int, nat) proxy_args" where
  "ex_args = \<lparr>a_prefiller_hosts = [''p''], a_prefiller_ports = [1], a_decoder_hosts = [''d'', ''d''], a_decoder_ports = [1, 2],
     a_prefill_router = ''rr'', a_decode_router = ''rr'', a_eldr_centroids = None, a_domain_mapping = None, a_eldr_tau = 1,
     a_window_seconds = 5, a_refit_seconds = 1, a_prefix_bytes = 8, a_load_factor = 1, a_seed = 0, a_capture_output = False\<rparr>"

definition ex_app :: "(int, nat) app" where
  "ex_app = \<lparr>prefill = [''http://p:1''], decode = [''http://d:1'', ''http://d:2''], prefill_inflight = (\<lambda>_. 0),
     decode_inflight = (\<lambda>_. 0), decode_router_name = ''rr'', tau = 1, app_centroid_data = None,
     decode_router = BaselineR \<lparr>b_policy = RR, b_workers = 2, b_rng = 0, b_next = 0\<rparr>,
     prefill_router = BaselineR \<lparr>b_policy = RR, b_workers = 1, b_rng = 0, b_next = 0\<rparr>,
     online_jsq_router = None, domain_mapping = None, domain_rng = 0, capture_file = None\<rparr>"

lemma ex_ports: "str_int 1 = ''1''" "str_int 2 = ''2''"
  by code_simp+

lemma ex_created: "create_app ex_env ex_args = Inr ex_app"
  by (simp add: create_app_def ex_args_def ex_app_def worker_group_def ex_ports
      make_decode_router_def make_baseline_def policy_of_def is_eldr_def)

lemma ex_opened: "open_resources ex_args ex_app = ex_app"
  by (simp add: open_resources_def ex_args_def ex_app_def)

definition ex_body :: json where
  "ex_body = JObj [(''prompt'', JStr ''a'')]"

definition ex_result :: json where
  "ex_result = JObj [(''created'', JInt 7), (''kv_transfer_params'', JObj [(''prefill_first_token_id'', JInt 5),
       (''prefill_prompt_tokens'', JInt 1), (''prefill_continues'', JBool True)]),
     (''choices'', JArr [JObj [(''token_ids'', JArr [JInt 5]), (''prompt_token_ids'', JArr [JInt 3])]])]"

lemma ex_valid: "validate_request ''/v1/completions'' ex_body = Inr ()"
  by (simp add: validate_request_def ex_body_def prompt_supported_def unsupported_keys_def jget_or_def text_format_def Let_def)

definition ex_payload :: obj where
  "ex_payload = [(''prompt'', JStr ''a''), (''request_id'', JStr ''r'')]"

definition ex_posted :: "(int, nat) app" where
  "ex_posted = add_prefill ''http://p:1'' 1 ex_app"

lemma ex_begin:
  "begin_request ex_env ''/v1/completions'' ex_body ''r'' ex_app =
     (WaitPrefill ''http://p:1'' ex_payload, ex_posted, [PostPrefill ''http://p:1'' (prefill_body ex_payload ''r'')])"
proof -
  have "choose_prefill ex_env ex_payload ex_app = Inr (''http://p:1'', ex_app)"
    by (simp add: choose_prefill_def ex_payload_def ex_app_def prompt_key_def jitem_def router_select_def
        baseline_select_def py_nth_def Let_def)
  moreover have "as_dict ex_body = Inr [(''prompt'', JStr ''a'')]" by (simp add: ex_body_def)
  moreover have "od_set ''request_id'' (JStr ''r'') [(''prompt'', JStr ''a'')] = ex_payload" by (simp add: ex_payload_def)
  ultimately show ?thesis by (simp add: begin_request_def ex_valid ex_posted_def Let_def del: as_dict_Inr od_set.simps)
qed

definition ex_ctx :: ctx where
  "ex_ctx = \<lparr>c_payload = ex_payload,
     c_result = (case ex_result of JObj d \<Rightarrow> od_set ''kv_transfer_params'' (JObj [(''prefill_first_token_id'', JInt 5),
       (''prefill_prompt_tokens'', JInt 1), (''prefill_continues'', JBool True)]) d | _ \<Rightarrow> []),
     c_transfer = [(''prefill_first_token_id'', JInt 5), (''prefill_prompt_tokens'', JInt 1), (''prefill_continues'', JBool True)],
     c_prompt = [JInt 3], c_signature = JNull, c_continues = True, c_stream = False\<rparr>"

definition ex_transfer :: obj where
  "ex_transfer = od_set ''prefill_created'' (JInt 7) (c_transfer ex_ctx)"

definition ex_decoding :: "(int, nat) app" where
  "ex_decoding = add_decode ''http://d:1'' 1
     (ex_app\<lparr>prefill_inflight := prefill_inflight (add_prefill ''http://p:1'' (- 1) ex_posted),
             decode_router := BaselineR \<lparr>b_policy = RR, b_workers = 2, b_rng = 0, b_next = 1\<rparr>\<rparr>)"

lemma ex_unpack: "unpack_prefill ex_result = Inr (c_transfer ex_ctx, [JInt 3])"
  by (simp add: unpack_prefill_def ex_result_def ex_ctx_def jget_or_def is_int_def is_bool_def Let_def)

lemma ex_accept:
  "resume ex_env 0 (Reply ex_result) (WaitPrefill ''http://p:1'' ex_payload) ex_posted =
     Some (WaitDecode (ex_ctx\<lparr>c_transfer := ex_transfer\<rparr>) ''http://d:1'', ex_decoding,
       [Accepted (c_transfer ex_ctx) [JInt 3], PostDecode ''http://d:1'' (decode_body ex_payload [JInt 3] ex_transfer)])"
proof -
  let ?a = "add_prefill ''http://p:1'' (- 1) ex_posted"
  have d: "od_del ''eldr_sig'' (c_transfer ex_ctx) = c_transfer ex_ctx" by (simp add: od_del_def ex_ctx_def)
  have c: "choose_decode ex_env 0 JNull ex_payload ?a =
      (Inr ''http://d:1'', ?a\<lparr>decode_router := BaselineR \<lparr>b_policy = RR, b_workers = 2, b_rng = 0, b_next = 1\<rparr>\<rparr>)"
    by (simp add: choose_decode_def ex_posted_def add_prefill_def ex_app_def router_select_def baseline_select_def py_nth_def Let_def)
  have j: "jitem (c_result ex_ctx) ''created'' = Inr (JInt 7)" by (simp add: ex_ctx_def ex_result_def jitem_def)
  have cont: "continue_request ex_env 0 ex_ctx ?a = (WaitDecode (ex_ctx\<lparr>c_transfer := ex_transfer\<rparr>) ''http://d:1'', ex_decoding,
       [PostDecode ''http://d:1'' (decode_body ex_payload [JInt 3] ex_transfer)])"
    using c j
    by (simp add: continue_request_def write_capture_def ex_decoding_def ex_transfer_def ex_posted_def add_prefill_def add_decode_def
        ex_app_def ex_ctx_def Let_def)
  have "accept_prefill ex_env 0 ex_payload ex_result ?a =
     (case continue_request ex_env 0 ex_ctx ?a of (ph, a', acts) \<Rightarrow> (ph, a', Accepted (c_transfer ex_ctx) [JInt 3] # acts))"
    unfolding accept_prefill_def ex_unpack Let_def sum.case prod.case d
    by (simp add: ex_ctx_def ex_payload_def ex_result_def jget_or_def)
  then show ?thesis using cont by (simp add: resume_def)
qed

lemma ex_run:
  "proxy_run ex_env ex_app ex_decoding [(WaitDecode (ex_ctx\<lparr>c_transfer := ex_transfer\<rparr>) ''http://d:1'',
     [PostPrefill ''http://p:1'' (prefill_body ex_payload ''r''), Accepted (c_transfer ex_ctx) [JInt 3],
      PostDecode ''http://d:1'' (decode_body ex_payload [JInt 3] ex_transfer)])]"
  using proxy_run.advance [OF proxy_run.arrive [OF proxy_run.start ex_begin], of 0] ex_accept by simp

lemma ex_run_refused:
  "\<exists>a. proxy_run ex_env ex_app a [(Finished_request (Failed NotConnected),
     [PostPrefill ''http://p:1'' (prefill_body ex_payload ''r''), Accepted (c_transfer ex_ctx) [JInt 3],
      PostDecode ''http://d:1'' (decode_body ex_payload [JInt 3] ex_transfer), Unreached ''http://d:1'',
      PostRelease ''http://d:2'' ex_transfer])]"
proof -
  let ?c = "ex_ctx\<lparr>c_transfer := ex_transfer\<rparr>" and ?a = "add_decode ''http://d:1'' (- 1) ex_decoding"
  have d: "decode ex_decoding = [''http://d:1'', ''http://d:2'']" by (simp add: ex_decoding_def ex_app_def)
  have 1: "resume ex_env 0 (Failure NotConnected) (WaitDecode ?c ''http://d:1'') ex_decoding =
      Some (WaitRelease (Failed NotConnected), ?a, [Unreached ''http://d:1'', PostRelease ''http://d:2'' ex_transfer])"
    by (simp add: resume_def fail_request_def ex_ctx_def leave_handler_def release_decoder_def d Let_def)
  have 2: "resume ex_env 0 Completed (WaitRelease (Failed NotConnected)) ?a = Some (Finished_request (Failed NotConnected), ?a, [])"
    by (simp add: resume_def)
  note r1 = proxy_run.advance [OF ex_run _ _ 1, of 0, simplified, OF refl]
  show ?thesis using proxy_run.advance [OF r1 _ _ 2, of 0, simplified, OF refl] by auto
qed

theorem inflight_counts_exact_witness:
  "decode_inflight ex_decoding ''http://d:1'' = 1 \<and> decode_inflight ex_decoding ''http://d:2'' = 0 \<and>
     prefill_inflight ex_decoding ''http://p:1'' = 0"
  using inflight_counts_exact [OF ex_created] ex_run by (simp add: ex_opened)


end
