(* ===== verification/Signature.thy ===== *)
theory Signature
  imports Ordered_Dict
begin

text \<open>
  Expert signatures on the prefiller (\<^verbatim>\<open>vllm/eldr/counts.py\<close>, \<^verbatim>\<open>batch_sum.py\<close>, \<^verbatim>\<open>signature.py\<close>,
  \<^verbatim>\<open>transport.py\<close>, \<^verbatim>\<open>scratch.py\<close>): the kernels that count the selected experts per physical KV block
  in signed bytes and sum a request's blocks into signed 16-bit counters, the capture state of the
  process, and the transport of a finished row to the host as bytes. A kernel launch is the set of
  its programs, each a function on the cache, run in some order. Tensors are lists, the block cache
  is a function of block, layer and expert. The gate-probability ablation is left out.
\<close>

unbundle bit_operations_syntax

section \<open>Powers of two\<close>

fun bit_length :: "nat \<Rightarrow> nat" where
  "bit_length n = (if n = 0 then 0 else Suc (bit_length (n div 2)))"

declare bit_length.simps [simp del]

definition next_power_of_2 :: "nat \<Rightarrow> nat" where
  "next_power_of_2 n = 2 ^ bit_length (n - 1)"

definition capacity :: "int \<Rightarrow> nat res" where
  "capacity rows =
     (if rows < 0 then Inl (ValueError ''Expected nonnegative integer row capacity'')
      else Inr (if rows = 0 then 0 else push_bit (bit_length (nat (rows - 1))) 1))"

text \<open>The wrapped scratch allocator; \<^verbatim>\<open>original\<close> is the library's.\<close>

definition make_allocator ::
  "('o \<Rightarrow> int list \<Rightarrow> 't \<Rightarrow> 'd \<Rightarrow> bool \<Rightarrow> 'm res) \<Rightarrow> 't \<Rightarrow> 'o \<Rightarrow> int list \<Rightarrow> 't \<Rightarrow> 'd \<Rightarrow> bool \<Rightarrow> 'm res" where
  "make_allocator original uint32_dtype offset shape dtype device all_gather =
     (if \<not> all_gather \<and> dtype = uint32_dtype \<and> length shape = 2
      then res_bind (capacity (shape ! 1)) (\<lambda>c. original offset [shape ! 0, int c] dtype device all_gather)
      else original offset shape dtype device all_gather)"

section \<open>Counting experts per block\<close>

type_synonym ids = "nat list list"

type_synonym cells = "nat \<Rightarrow> nat \<Rightarrow> nat \<Rightarrow> 8 word"

text \<open>
  One program of the counting kernel, for the token \<^verbatim>\<open>start\<close> and a layer. Only the first token of a run of
  tokens of the same block does work: it counts the picks of that run and adds the block's earlier
  counts, unless the run starts the block. The stored value is cut to a byte.
\<close>

definition histogram_blocks ::
  "ids list \<Rightarrow> int list \<Rightarrow> nat \<Rightarrow> nat \<Rightarrow> nat \<Rightarrow> nat \<Rightarrow> nat \<times> nat \<Rightarrow> cells \<Rightarrow> cells" where
  "histogram_blocks experts slots N E K BS prog cells =
     (case prog of (start, layer) \<Rightarrow>
        let slot = slots ! start;
            block = slot div int BS;
            previous = (if 0 < start then slots ! (start - 1) else - int BS) div int BS
        in if start = 0 \<or> block \<noteq> previous
           then
             let valid = (\<lambda>p. p < BS * K \<and> start + p div K < N \<and> slots ! (start + p div K) div int BS = block);
                 expert = (\<lambda>p. experts ! layer ! (start + p div K) ! (p mod K));
                 histogram = (\<lambda>e. length (filter (\<lambda>p. valid p \<and> expert p = e) [0..<next_power_of_2 (BS * K)]));
                 old = cells (nat block) layer;
                 new = (\<lambda>e. if e < E
                        then word_of_int (int (histogram e) + (if slot mod int BS = 0 then 0 else sint (old e)))
                        else old e)
             in cells(nat block := (cells (nat block))(layer := new))
           else cells)"

text \<open>A launch: the programs of the grid in the given order.\<close>

definition run_programs ::
  "ids list \<Rightarrow> int list \<Rightarrow> nat \<Rightarrow> nat \<Rightarrow> nat \<Rightarrow> nat \<Rightarrow> (nat \<times> nat) list \<Rightarrow> cells \<Rightarrow> cells" where
  "run_programs experts slots N E K BS progs cells = fold (histogram_blocks experts slots N E K BS) progs cells"

text \<open>
  The host side, with the placement and layout of the tensors as two flags; the element type is
  fixed by the type of the cache.
\<close>

definition reduce_counts ::
  "bool \<Rightarrow> bool \<Rightarrow> ids list \<Rightarrow> nat \<Rightarrow> nat \<Rightarrow> int list \<Rightarrow> nat \<Rightarrow> nat \<Rightarrow> cells \<Rightarrow> cells res" where
  "reduce_counts on_gpu contiguous experts tokens topk slots E block_size cells =
     (if \<not> on_gpu then Inl (ValueError ''Fast signature reduction requires GPU tensors'')
      else if \<not> contiguous then Inl (ValueError ''Fast signature reduction requires contiguous tensors'')
      else if \<not> (0 < block_size \<and> block_size < 128) then Inl (ValueError ''Expected exact signed-int8 per-block counts'')
      else if tokens = 0 then Inr cells
      else Inr (run_programs experts slots tokens E topk block_size
             (List.product [0..<tokens] [0..<length experts]) cells))"

section \<open>Summing the blocks of a request\<close>

text \<open>The loop over tiles of eight table entries, accumulating in 32 bits.\<close>

function sum_tiles :: "(nat \<Rightarrow> 32 word) \<Rightarrow> nat \<Rightarrow> nat \<Rightarrow> 32 word \<Rightarrow> 32 word" where
  "sum_tiles v count start acc =
     (if start < count
      then sum_tiles v count (start + 8)
             (acc + sum_list (map (\<lambda>i. if start + i < count then v (start + i) else 0) [0..<8]))
      else acc)"
  by auto

termination sum_tiles
  by (relation "measure (\<lambda>(_, count, start, _). count - start)") auto

declare sum_tiles.simps [simp del]

definition cdiv :: "nat \<Rightarrow> nat \<Rightarrow> nat" where
  "cdiv a b = (a + b - 1) div b"

definition sum_row :: "cells \<Rightarrow> nat list \<Rightarrow> nat \<Rightarrow> bool \<Rightarrow> nat \<Rightarrow> nat \<Rightarrow> nat \<Rightarrow> 16 word" where
  "sum_row cells blocks tokens discard BS layer e =
     (let count = (if discard then 0 else cdiv tokens BS)
      in ucast (sum_tiles (\<lambda>i. scast (cells (blocks ! i) layer e)) count 0 0))"

definition sum_rows ::
  "bool \<Rightarrow> cells \<Rightarrow> nat \<Rightarrow> nat \<Rightarrow> nat list list \<Rightarrow> nat list \<Rightarrow> bool list \<Rightarrow> nat \<Rightarrow> nat \<Rightarrow> 16 word list list list res" where
  "sum_rows layout_ok cells L E table seq_lens discard rows block_size =
     (if \<not> layout_ok \<or> \<not> (0 < rows \<and> rows \<le> length table) \<or> length seq_lens < rows \<or> length discard < rows
      then Inl (ValueError ''Unsupported native batch-sum metadata'')
      else if \<not> (0 < block_size \<and> block_size < 128)
      then Inl (ValueError ''Signed block counts require block size below128'')
      else Inr (map (\<lambda>row. map (\<lambda>layer. map (sum_row cells (table ! row) (seq_lens ! row) (discard ! row) block_size layer)
                 [0..<E]) [0..<L]) [0..<rows]))"

section \<open>Capture state\<close>

text \<open>The module-level variables of \<^verbatim>\<open>signature.py\<close>, without those of the ablation.\<close>

record sig_state =
  sig_L :: nat
  sig_E :: nat
  sig_NT :: nat
  sig_REFS :: "ids option list"
  sig_ESC :: "cells option"

definition install :: "bool \<Rightarrow> (nat \<times> nat) list \<Rightarrow> sig_state \<Rightarrow> sig_state res" where
  "install enabled layers st =
     (if \<not> enabled then Inr st
      else if layers = [] \<or> sort (map fst layers) \<noteq> [0..<length layers]
      then Inl (ValueError ''ELDR requires contiguous MoE layer IDs'')
      else
        let E = snd (hd layers) in
        if list_ex (\<lambda>(_, n). n \<noteq> E) layers
        then Inl (ValueError ''ELDR requires the same expert count in each layer'')
        else Inr (st\<lparr>sig_L := length layers, sig_E := E, sig_REFS := replicate (length layers) None\<rparr>))"

definition record_ids :: "nat \<Rightarrow> ids \<Rightarrow> sig_state \<Rightarrow> sig_state res" where
  "record_ids layer_id xs st =
     (if layer_id < length (sig_REFS st)
      then Inr (st\<lparr>sig_REFS := (sig_REFS st)[layer_id := Some xs], sig_NT := length xs\<rparr>)
      else Inl IndexError)"

definition tensor_shape :: "ids \<Rightarrow> nat \<Rightarrow> nat \<Rightarrow> bool" where
  "tensor_shape xs n k \<longleftrightarrow> length xs = n \<and> list_all (\<lambda>r. length r = k) xs"

definition reduce ::
  "bool \<Rightarrow> bool \<Rightarrow> bool \<Rightarrow> nat \<Rightarrow> nat \<Rightarrow> int list \<Rightarrow> nat \<Rightarrow> sig_state \<Rightarrow> sig_state res" where
  "reduce enabled on_gpu contiguous topk n slot_mapping block_size st =
     (if \<not> enabled \<or> n = 0 then Inr st
      else if n \<noteq> sig_NT st \<or> sig_REFS st = [] \<or> None \<in> set (sig_REFS st)
      then Inl (RuntimeError ''Incomplete expert capture for the scheduled prefill'')
      else
        let cells = (case sig_ESC st of None \<Rightarrow> (\<lambda>_ _ _. 0) | Some c \<Rightarrow> c);
            refs = map the (sig_REFS st)
        in if \<not> list_all (\<lambda>xs. tensor_shape xs n topk) refs then Inl (RuntimeError ''stack expects each tensor to be equal size'')
           else res_bind (reduce_counts on_gpu contiguous (map (take n) refs) n topk (take n slot_mapping) (sig_E st) block_size cells)
             (\<lambda>c. Inr (st\<lparr>sig_REFS := replicate (sig_L st) None, sig_ESC := Some c\<rparr>)))"

section \<open>Transport\<close>

record eldr_config =
  kv_role :: "string option"
  kv_connector :: string
  tensor_parallel_size :: nat
  pipeline_parallel_size :: nat
  enable_expert_parallel :: bool
  speculative :: bool
  runner_type :: string
  enforce_eager :: bool
  cfg_block_size :: int
  max_model_len :: int

definition validate_config :: "bool \<Rightarrow> bool \<Rightarrow> eldr_config \<Rightarrow> unit res" where
  "validate_config enabled sig_enabled cfg =
     (if \<not> enabled then Inr ()
      else if \<not> sig_enabled then Inl (ValueError ''Signature and transport enablement disagree'')
      else if kv_role cfg \<noteq> Some ''kv_producer'' \<or> kv_connector cfg \<noteq> ''NixlConnector''
      then Inl (ValueError ''Async signatures currently require a NIXL-only producer'')
      else if tensor_parallel_size cfg \<noteq> 1 \<or> pipeline_parallel_size cfg \<noteq> 1 \<or> enable_expert_parallel cfg
      then Inl (ValueError ''Async signatures currently require TP=PP=1 without EP'')
      else if speculative cfg \<or> runner_type cfg \<noteq> ''generate''
      then Inl (ValueError ''Async signatures currently require non-speculative generation'')
      else if \<not> enforce_eager cfg then Inl (ValueError ''Async signature transport requires eager model execution'')
      else if \<not> (0 < cfg_block_size cfg \<and> cfg_block_size cfg < 128)
      then Inl (ValueError ''Signed-int8 block counts require block_size < 128'')
      else if max_model_len cfg > 32767 then Inl (ValueError ''Signed-int16 signatures require max_model_len <= 32767'')
      else Inr ())"

record input_batch =
  req_ids :: "string list"
  req_id_to_index :: "(string, nat) odict"
  num_computed_tokens :: "int list"
  num_prompt_tokens :: "int list"

definition finishing_rows ::
  "input_batch \<Rightarrow> (string, int) odict \<Rightarrow> (string \<times> nat \<times> int) list res" where
  "finishing_rows batch num_scheduled =
     res_fold (\<lambda>(rid, count) rows.
        if count \<le> 0 then Inr rows
        else case od_get (req_id_to_index batch) rid of
          None \<Rightarrow> Inl KeyError
        | Some index \<Rightarrow>
            res_bind (py_nth (num_computed_tokens batch) (int index)) (\<lambda>completed.
            res_bind (py_nth (num_prompt_tokens batch) (int index)) (\<lambda>prompt.
              if completed + count > prompt
              then Inl (ValueError ''Async signature producer must not execute decode tokens'')
              else Inr (if completed + count = prompt then rows @ [(rid, index, prompt)] else rows))))
       num_scheduled []"

text \<open>
  A pending copy: the device buffer and, once enqueued, the host buffer. The copy is complete when the
  caller has waited for the event, which is when it may finish.
\<close>

record PendingSignatureCopy =
  p_req_ids :: "string option list"
  p_counts :: "16 word list list list option"
  p_host :: "16 word list list list option"

definition make_pending :: "string option list \<Rightarrow> 16 word list list list \<Rightarrow> PendingSignatureCopy res" where
  "make_pending rids counts =
     (if length counts \<noteq> length rids then Inl (ValueError ''Signature output shape disagrees with request IDs'')
      else Inr \<lparr>p_req_ids = rids, p_counts = Some counts, p_host = None\<rparr>)"

definition enqueue_copy :: "PendingSignatureCopy \<Rightarrow> PendingSignatureCopy res" where
  "enqueue_copy p =
     (case (p_host p, p_counts p) of
        (None, Some counts) \<Rightarrow> Inr (p\<lparr>p_host := Some counts\<rparr>)
      | _ \<Rightarrow> Inl (RuntimeError ''Signature copy may only be enqueued once''))"

text \<open>Little-endian bytes of the 16-bit counters of a row, as \<^verbatim>\<open>tobytes\<close> lays them out.\<close>

definition le16 :: "16 word \<Rightarrow> bytes" where
  "le16 w = [ucast w, ucast (drop_bit 8 w)]"

definition tobytes :: "16 word list list \<Rightarrow> bytes" where
  "tobytes row = concat (map le16 (concat row))"

definition finish_after_sync ::
  "PendingSignatureCopy \<Rightarrow> ((string, bytes) odict \<times> PendingSignatureCopy) res" where
  "finish_after_sync p =
     (case (p_host p, p_counts p) of
        (Some host, Some counts) \<Rightarrow>
          Inr (fold (\<lambda>(rid, row) d. case rid of None \<Rightarrow> d | Some r \<Rightarrow> od_set r (tobytes row) d) (zip (p_req_ids p) host) [],
               p\<lparr>p_counts := None, p_host := None\<rparr>)
      | _ \<Rightarrow> Inl (RuntimeError ''Signature copy is absent or already consumed''))"

definition finish_synchronously ::
  "PendingSignatureCopy \<Rightarrow> ((string, bytes) odict \<times> PendingSignatureCopy) res" where
  "finish_synchronously p = res_bind (enqueue_copy p) finish_after_sync"

record block_table =
  bt_block_size :: nat
  bt_blocks_per_kv_block :: nat
  bt_rows :: "nat list list"
  bt_num_blocks_per_row :: "nat list"
  bt_slot_mapping :: "int list"

definition prepare ::
  "bool \<Rightarrow> bool \<Rightarrow> bool \<Rightarrow> nat \<Rightarrow> (string, int) odict \<Rightarrow> nat \<Rightarrow> input_batch \<Rightarrow> block_table \<Rightarrow> nat \<Rightarrow>
     (nat list \<times> bool list) option \<Rightarrow> sig_state \<Rightarrow> (PendingSignatureCopy option \<times> sig_state) res" where
  "prepare enabled on_gpu contiguous topk scheduled ntokens batch table block_size metadata st =
     res_bind (finishing_rows batch scheduled) (\<lambda>rows.
     if bt_block_size table \<noteq> block_size \<or> bt_blocks_per_kv_block table \<noteq> 1
     then Inl (ValueError ''Async signature transport does not support split KV blocks'')
     else res_bind (reduce enabled on_gpu contiguous topk ntokens (bt_slot_mapping table) block_size st) (\<lambda>st'.
       if rows = [] then Inr (None, st')
       else case sig_ESC st' of
         None \<Rightarrow> Inl (RuntimeError ''Completed prefill has no expert-signature block cache'')
       | Some cells \<Rightarrow>
           (case metadata of
              None \<Rightarrow> Inl (ValueError ''Batch sums require the committed GPU metadata'')
            | Some (seq_lens, discard) \<Rightarrow>
                res_bind (res_fold (\<lambda>(rid, index, prompt) rids.
                    res_bind (py_nth (bt_num_blocks_per_row table) (int index)) (\<lambda>have.
                      if int have < (prompt + int block_size - 1) div int block_size
                      then Inl (RuntimeError ''Completed prefill has an incomplete block table'')
                      else if index < length rids then Inr (rids[index := Some rid]) else Inl IndexError))
                  rows (replicate (length (req_ids batch)) None)) (\<lambda>request_ids.
                res_bind (sum_rows (on_gpu \<and> contiguous) cells (sig_L st') (sig_E st') (bt_rows table) seq_lens discard
                    (length request_ids) block_size) (\<lambda>counts.
                res_bind (make_pending request_ids counts) (\<lambda>p. Inr (Some p, st')))))))"

section \<open>Lemmas\<close>

subsection \<open>Powers of two and sums\<close>

lemma bit_length_bounds: "n < 2 ^ bit_length n \<and> (0 < n \<longrightarrow> 2 ^ (bit_length n - 1) \<le> n)"
proof (induction n rule: bit_length.induct)
  case (1 n)
  show ?case
  proof (cases "n = 0")
    case True
    then show ?thesis by (simp add: bit_length.simps)
  next
    case False
    then have b: "bit_length n = Suc (bit_length (n div 2))" by (simp add: bit_length.simps [of n])
    have IH: "n div 2 < 2 ^ bit_length (n div 2)" "0 < n div 2 \<longrightarrow> 2 ^ (bit_length (n div 2) - 1) \<le> n div 2"
      using 1 False by blast+
    show ?thesis
    proof (cases "n div 2 = 0")
      case True
      then have "n = 1" using False by simp
      then show ?thesis using b True by (simp add: bit_length.simps [of 0])
    next
      case pos: False
      then have "bit_length (n div 2) = Suc (bit_length (n div 2) - 1)" by (simp add: bit_length.simps [of "n div 2"])
      then have "(2 :: nat) ^ bit_length (n div 2) = 2 * 2 ^ (bit_length (n div 2) - 1)" by (metis power_Suc)
      moreover have "2 * (n div 2) \<le> n" "n < 2 * (n div 2) + 2" by presburger+
      ultimately show ?thesis using IH pos b by (simp add: False) linarith
    qed
  qed
qed

lemma next_power_of_2_ge: "n \<le> next_power_of_2 n"
  using bit_length_bounds [of "n - 1"] by (cases n) (simp_all add: next_power_of_2_def)

lemma tile_sum:
  fixes v :: "nat \<Rightarrow> 'a :: comm_monoid_add"
  assumes "s \<le> c"
  shows "sum_list (map (\<lambda>i. if s + i < c then v (s + i) else 0) [0..<n]) = sum_list (map v [s..<min (s + n) c])"
proof (induction n)
  case 0
  then show ?case by simp
next
  case (Suc n)
  show ?case
  proof (cases "s + n < c")
    case True
    then have "[s..<min (s + Suc n) c] = [s..<min (s + n) c] @ [s + n]" using assms by (simp add: min_def)
    then show ?thesis using Suc True by simp
  next
    case False
    then have "min (s + Suc n) c = min (s + n) c" by simp
    then show ?thesis using Suc False by simp
  qed
qed

lemma sum_tiles_eq: "sum_tiles v count start acc = acc + sum_list (map v [start..<count])"
proof (induction v count start acc rule: sum_tiles.induct)
  case (1 v count start acc)
  show ?case
  proof (cases "start < count")
    case True
    let ?t = "sum_list (map (\<lambda>i. if start + i < count then v (start + i) else 0) [0..<8])"
    have t: "?t = sum_list (map v [start..<min (start + 8) count])" using True by (intro tile_sum) simp
    have "[start..<count] = [start..<min (start + 8) count] @ [start + 8..<count]"
    proof (cases "start + 8 \<le> count")
      case le: True
      then show ?thesis using upt_add_eq_append [of start "start + 8" "count - (start + 8)"] by simp
    qed simp
    then have "sum_list (map v [start..<count]) = ?t + sum_list (map v [start + 8..<count])"
      unfolding t by (metis map_append sum_list_append)
    then show ?thesis using 1 True by (simp add: sum_tiles.simps [of v count start] add.assoc)
  next
    case False
    then show ?thesis by (simp add: sum_tiles.simps [of v count start])
  qed
qed

lemma ucast_word_of_int: "(ucast (word_of_int x :: 32 word) :: 16 word) = word_of_int x"
  by transfer (simp add: take_bit_take_bit min_def)

lemma sum_scast: "sum_list (map (\<lambda>i. scast (w i :: 8 word) :: 32 word) xs) = word_of_int (sum_list (map (\<lambda>i. sint (w i)) xs))"
  by (induction xs) (simp_all add: of_int_sint)

lemma sum_row_eq:
  "sum_row cells blocks tokens False BS l e =
     word_of_int (sum_list (map (\<lambda>i. sint (cells (blocks ! i) l e)) [0..<cdiv tokens BS]))"
  by (simp add: sum_row_def sum_tiles_eq sum_scast ucast_word_of_int Let_def)

lemma sint_of_int_exact:
  "- (2 ^ 15) \<le> x \<Longrightarrow> x < 2 ^ 15 \<Longrightarrow> sint (word_of_int x :: 16 word) = x"
  "- (2 ^ 7) \<le> x \<Longrightarrow> x < 2 ^ 7 \<Longrightarrow> sint (word_of_int x :: 8 word) = x"
  by (simp_all add: sint_sbintrunc' signed_take_bit_int_eq_self)

subsection \<open>The counting kernel\<close>

lemma grid_filter:
  assumes "0 < K"
  shows "length (filter (\<lambda>p. F (p div K) (p mod K)) [0..<n * K]) = (\<Sum>j < n. length (filter (F j) [0..<K]))"
proof (induction n)
  case 0
  then show ?case by simp
next
  case (Suc n)
  have u: "[0..<Suc n * K] = [0..<n * K] @ map (\<lambda>k. n * K + k) [0..<K]"
    using upt_add_eq_append [of 0 "n * K" K] map_add_upt [of "n * K" K] by (simp add: add.commute)
  have "filter (\<lambda>p. F (p div K) (p mod K)) (map (\<lambda>k. n * K + k) [0..<K]) = map (\<lambda>k. n * K + k) (filter (F n) [0..<K])"
    unfolding filter_map comp_def by (rule arg_cong [of _ _ "map _"], rule filter_cong) (use assms in auto)
  then show ?case unfolding u by (simp add: Suc)
qed

lemma count_list_filter_nth: "length (filter (\<lambda>k. row ! k = e) [0..<length row]) = count_list row e"
proof -
  have "count_list (map ((!) row) [0..<length row]) e = length (filter (\<lambda>k. row ! k = e) [0..<length row])"
    by (simp add: count_list_eq_length_filter filter_map comp_def eq_commute [of e])
  then show ?thesis by (simp add: map_nth)
qed

text \<open>
  What the caller guarantees of a batch: slots are not negative, the tokens of a block are
  adjacent in the batch, and their slots are consecutive.
\<close>

definition slots_ok :: "nat \<Rightarrow> int list \<Rightarrow> bool" where
  "slots_ok BS slots \<longleftrightarrow> (\<forall>t < length slots. 0 \<le> slots ! t) \<and>
     (\<forall>i j. i < j \<longrightarrow> j < length slots \<longrightarrow> slots ! i div int BS = slots ! j div int BS \<longrightarrow> slots ! j = slots ! i + int (j - i)) \<and>
     (\<forall>i k j. i < k \<longrightarrow> k < j \<longrightarrow> j < length slots \<longrightarrow> slots ! i div int BS = slots ! j div int BS \<longrightarrow>
        slots ! k div int BS = slots ! i div int BS)"

lemma slots_okD:
  assumes "slots_ok BS slots"
  shows "t < length slots \<Longrightarrow> 0 \<le> slots ! t"
    "i < j \<Longrightarrow> j < length slots \<Longrightarrow> slots ! i div int BS = slots ! j div int BS \<Longrightarrow> slots ! j = slots ! i + int (j - i)"
    "i < k \<Longrightarrow> k < j \<Longrightarrow> j < length slots \<Longrightarrow> slots ! i div int BS = slots ! j div int BS \<Longrightarrow>
       slots ! k div int BS = slots ! i div int BS"
  using assms unfolding slots_ok_def by simp_all

text \<open>The tokens of a block, their first, and the picks of an expert at them.\<close>

definition tokens_in :: "nat \<Rightarrow> int list \<Rightarrow> nat \<Rightarrow> nat set" where
  "tokens_in BS slots b = {t. t < length slots \<and> slots ! t div int BS = int b}"

definition picks_in :: "ids list \<Rightarrow> nat \<Rightarrow> int list \<Rightarrow> nat \<Rightarrow> nat \<Rightarrow> nat \<Rightarrow> nat" where
  "picks_in experts BS slots b l e = (\<Sum>t \<in> tokens_in BS slots b. count_list (experts ! l ! t) e)"

definition run_start :: "nat \<Rightarrow> int list \<Rightarrow> nat \<Rightarrow> bool" where
  "run_start BS slots t \<longleftrightarrow> t = 0 \<or> slots ! t div int BS \<noteq> slots ! (t - 1) div int BS"

lemma run_start_first:
  assumes "slots_ok BS slots" "s < length slots" "run_start BS slots s" "t \<in> tokens_in BS slots b" "slots ! s div int BS = int b"
  shows "s \<le> t"
proof (rule ccontr)
  assume "\<not> s \<le> t"
  then have ts: "t < s" by simp
  have e: "slots ! t div int BS = slots ! s div int BS" using assms(4,5) by (simp add: tokens_in_def)
  have "slots ! (s - 1) div int BS = slots ! t div int BS"
  proof (cases "t = s - 1")
    case False
    then have "t < s - 1" "s - 1 < s" using ts by simp_all
    then show ?thesis using slots_okD(3) [OF assms(1)] assms(2) e by blast
  qed simp
  then show False using assms(3) e ts by (simp add: run_start_def)
qed

lemma run_length:
  assumes "slots_ok BS slots" "0 < BS" "s \<in> tokens_in BS slots b" "t \<in> tokens_in BS slots b" "s \<le> t"
  shows "t < s + BS"
proof (rule ccontr)
  assume "\<not> t < s + BS"
  then have "s < t" "BS \<le> t - s" using assms(2) by simp_all
  then have "slots ! t = slots ! s + int (t - s)"
    using slots_okD(2) [OF assms(1), of s t] assms(3,4) by (simp add: tokens_in_def)
  then have "slots ! s + int BS \<le> slots ! t" using \<open>BS \<le> t - s\<close> by simp
  then have "(slots ! s + int BS) div int BS \<le> slots ! t div int BS" using assms(2) by (intro zdiv_mono1) simp_all
  moreover have "(slots ! s + int BS) div int BS = slots ! s div int BS + 1" using assms(2) by (intro div_add_self2) simp
  ultimately show False using assms(3,4) by (simp add: tokens_in_def)
qed

lemma histogram_exact:
  assumes ok: "slots_ok BS slots" and K: "0 < K" and BS: "0 < BS"
    and s: "s < length slots" "run_start BS slots s" "slots ! s div int BS = int b"
    and x: "\<forall>t < length slots. length (experts ! l ! t) = K"
  shows "length (filter (\<lambda>p. (p < BS * K \<and> s + p div K < length slots \<and> slots ! (s + p div K) div int BS = int b) \<and>
      experts ! l ! (s + p div K) ! (p mod K) = e) [0..<next_power_of_2 (BS * K)]) = picks_in experts BS slots b l e"
proof -
  let ?N = "length slots"
  define F where "F j k \<longleftrightarrow> s + j \<in> tokens_in BS slots b \<and> experts ! l ! (s + j) ! k = e" for j k
  define Q where "Q p \<longleftrightarrow> (p < BS * K \<and> s + p div K < ?N \<and> slots ! (s + p div K) div int BS = int b) \<and>
      experts ! l ! (s + p div K) ! (p mod K) = e" for p
  have "[0..<next_power_of_2 (BS * K)] = [0..<BS * K] @ [BS * K..<next_power_of_2 (BS * K)]"
    using next_power_of_2_ge [of "BS * K"] by (metis le_add_diff_inverse upt_add_eq_append zero_le)
  moreover have "filter Q [BS * K..<next_power_of_2 (BS * K)] = []" by (simp add: filter_empty_conv Q_def)
  moreover have "filter Q [0..<BS * K] = filter (\<lambda>p. F (p div K) (p mod K)) [0..<BS * K]"
    by (rule filter_cong) (auto simp: Q_def F_def tokens_in_def)
  ultimately have "length (filter Q [0..<next_power_of_2 (BS * K)]) = (\<Sum>j < BS. length (filter (F j) [0..<K]))"
    using grid_filter [OF K, of F BS] by simp
  also have "\<dots> = (\<Sum>j < BS. if s + j \<in> tokens_in BS slots b then count_list (experts ! l ! (s + j)) e else 0)"
  proof (rule sum.cong)
    fix j
    have "F j = (\<lambda>k. s + j \<in> tokens_in BS slots b \<and> experts ! l ! (s + j) ! k = e)" by (simp add: F_def fun_eq_iff)
    then show "length (filter (F j) [0..<K]) = (if s + j \<in> tokens_in BS slots b then count_list (experts ! l ! (s + j)) e else 0)"
      using count_list_filter_nth [of "experts ! l ! (s + j)" e] x by (auto simp: tokens_in_def)
  qed simp
  also have "\<dots> = (\<Sum>t \<in> {s..<s + BS}. if t \<in> tokens_in BS slots b then count_list (experts ! l ! t) e else 0)"
    by (rule sum.reindex_bij_witness [of _ "\<lambda>t. t - s" "\<lambda>j. s + j"]) auto
  also have "\<dots> = (\<Sum>t \<in> {s..<s + BS} \<inter> tokens_in BS slots b. count_list (experts ! l ! t) e)"
    by (simp add: sum.inter_restrict)
  also have "{s..<s + BS} \<inter> tokens_in BS slots b = tokens_in BS slots b"
    using run_start_first [OF ok s(1,2) _ s(3)] run_length [OF ok BS, of s b] s by (auto simp: tokens_in_def)
  finally show ?thesis by (simp add: picks_in_def Q_def)
qed

text \<open>The value a launch leaves in the cells of a block it touches.\<close>

definition new_cell :: "ids list \<Rightarrow> nat \<Rightarrow> int list \<Rightarrow> nat \<Rightarrow> cells \<Rightarrow> nat \<Rightarrow> nat \<Rightarrow> nat \<Rightarrow> 8 word" where
  "new_cell experts BS slots s cells b l e =
     of_nat (picks_in experts BS slots b l e) + (if slots ! s mod int BS = 0 then 0 else cells b l e)"

lemma histogram_blocks_eq:
  assumes ok: "slots_ok BS slots" "0 < K" "0 < BS" and s: "s < length slots"
    and x: "\<forall>t < length slots. length (experts ! l ! t) = K"
  shows "histogram_blocks experts slots (length slots) E K BS (s, l) cells =
     (if run_start BS slots s
      then let b = nat (slots ! s div int BS)
           in cells(b := (cells b)(l := \<lambda>e. if e < E then new_cell experts BS slots s cells b l e else cells b l e))
      else cells)"
proof (cases "run_start BS slots s")
  case False
  then show ?thesis by (simp add: histogram_blocks_def run_start_def Let_def)
next
  case True
  have "0 \<le> slots ! s div int BS" using slots_okD(1) [OF ok(1) s] ok(3) by (simp add: pos_imp_zdiv_nonneg_iff)
  then obtain b where b: "slots ! s div int BS = int b" using nonneg_int_cases by blast
  note h = histogram_exact [OF ok s True b x]
  have "s = 0 \<or> slots ! s div int BS \<noteq> (if 0 < s then slots ! (s - 1) else - int BS) div int BS"
    using True by (auto simp: run_start_def)
  then show ?thesis
    unfolding histogram_blocks_def Let_def prod.case
    using True h by (simp add: b new_cell_def fun_eq_iff of_int_sint)
qed

text \<open>
  Programs that write write different cells, and each reads only the cell it writes, so the order
  does not matter.
\<close>

lemma run_programs_cell:
  assumes ok: "slots_ok BS slots" "0 < K" "0 < BS"
    and x: "\<forall>l < L. \<forall>t < length slots. length (experts ! l ! t) = K"
    and d: "distinct progs" "set progs \<subseteq> {..<length slots} \<times> {..<L}"
  shows "run_programs experts slots (length slots) E K BS progs cells b l e =
     (case filter (\<lambda>(s, l'). l' = l \<and> run_start BS slots s \<and> s \<in> tokens_in BS slots b) progs of
        [] \<Rightarrow> cells b l e
      | (s, _) # _ \<Rightarrow> if e < E then new_cell experts BS slots s cells b l e else cells b l e)"
  using d
proof (induction progs rule: rev_induct)
  case Nil
  then show ?case by (simp add: run_programs_def)
next
  case (snoc p progs)
  obtain s l' where p: "p = (s, l')" by (cases p)
  let ?P = "\<lambda>(s, l'). l' = l \<and> run_start BS slots s \<and> s \<in> tokens_in BS slots b"
  let ?c = "run_programs experts slots (length slots) E K BS progs cells"
  have IH: "?c b l e = (case filter ?P progs of [] \<Rightarrow> cells b l e
      | (s, _) # _ \<Rightarrow> if e < E then new_cell experts BS slots s cells b l e else cells b l e)"
    using snoc by simp
  have s: "s < length slots" "l' < L" using snoc.prems(2) p by auto
  have step: "run_programs experts slots (length slots) E K BS (progs @ [p]) cells =
      histogram_blocks experts slots (length slots) E K BS (s, l') ?c"
    by (simp add: run_programs_def p)
  have b: "s \<in> tokens_in BS slots b \<longleftrightarrow> nat (slots ! s div int BS) = b"
    using slots_okD(1) [OF ok(1) s(1)] s(1) ok(3) by (auto simp: tokens_in_def pos_imp_zdiv_nonneg_iff)
  have he: "histogram_blocks experts slots (length slots) E K BS (s, l') ?c b l e =
      (if ?P (s, l') \<and> e < E then new_cell experts BS slots s ?c b l e else ?c b l e)"
    using histogram_blocks_eq [OF ok s(1), of experts l' E ?c] x s(2) b by (auto simp: Let_def)
  show ?case
  proof (cases "?P (s, l')")
    case True
    have "filter ?P progs = []"
    proof -
      have False if q0: "q \<in> set progs" "?P q" for q
      proof -
        obtain s2 where q: "q = (s2, l)" using q0(2) by (cases q) auto
        have t: "s2 \<in> tokens_in BS slots b" "s \<in> tokens_in BS slots b" "run_start BS slots s2" "run_start BS slots s"
          using q0(2) True q by auto
        then have "s2 \<le> s" "s \<le> s2"
          using run_start_first [OF ok(1)] by (auto simp: tokens_in_def)
        then have "p \<in> set progs" using q0(1) q p True by simp
        then show False using snoc.prems(1) by simp
      qed
      then show ?thesis by (auto simp: filter_empty_conv)
    qed
    then show ?thesis using True IH unfolding step he by (simp add: p new_cell_def)
  next
    case False
    have "filter ?P (progs @ [p]) = filter ?P progs" using False by (auto simp: p)
    moreover have "\<not> (?P (s, l') \<and> e < E)" using False by blast
    ultimately show ?thesis using IH unfolding step he by (simp only: if_False)
  qed
qed

text \<open>
  The tokens a block holds since its last reset, each with its picks per layer; a batch appends
  to a block, or replaces its contents if it starts at offset zero.
\<close>

type_synonym contents = "nat \<Rightarrow> nat list list list"

definition token_picks :: "ids list \<Rightarrow> nat \<Rightarrow> nat list list" where
  "token_picks experts t = map (\<lambda>l. experts ! l ! t) [0..<length experts]"

definition batch_tokens :: "nat \<Rightarrow> int list \<Rightarrow> nat \<Rightarrow> nat list" where
  "batch_tokens BS slots b = filter (\<lambda>t. slots ! t div int BS = int b) [0..<length slots]"

definition new_contents :: "ids list \<Rightarrow> nat \<Rightarrow> int list \<Rightarrow> contents \<Rightarrow> contents" where
  "new_contents experts BS slots content b =
     (case batch_tokens BS slots b of
        [] \<Rightarrow> content b
      | t # ts \<Rightarrow> (if slots ! t mod int BS = 0 then [] else content b) @ map (token_picks experts) (t # ts))"

definition layer_count :: "nat list list list \<Rightarrow> nat \<Rightarrow> nat \<Rightarrow> nat" where
  "layer_count ts l e = sum_list (map (\<lambda>tk. count_list (tk ! l) e) ts)"

definition exact_cells :: "nat \<Rightarrow> nat \<Rightarrow> cells \<Rightarrow> contents \<Rightarrow> bool" where
  "exact_cells L E cells content \<longleftrightarrow>
     (\<forall>b l e. l < L \<longrightarrow> e < E \<longrightarrow> cells b l e = of_nat (layer_count (content b) l e))"

lemma batch_tokens_set: "set (batch_tokens BS slots b) = tokens_in BS slots b"
  by (auto simp: batch_tokens_def tokens_in_def)

lemma picks_in_list:
  assumes "l < length experts"
  shows "picks_in experts BS slots b l e = layer_count (map (token_picks experts) (batch_tokens BS slots b)) l e"
proof -
  have "distinct (batch_tokens BS slots b)" by (simp add: batch_tokens_def)
  then have "picks_in experts BS slots b l e = sum_list (map (\<lambda>t. count_list (experts ! l ! t) e) (batch_tokens BS slots b))"
    unfolding picks_in_def batch_tokens_set [symmetric] by (simp add: sum_list_distinct_conv_sum_set)
  then show ?thesis using assms by (simp add: layer_count_def comp_def token_picks_def)
qed

lemma run_start_hd:
  assumes ok: "slots_ok BS slots" and t: "batch_tokens BS slots b = t # ts"
  shows "run_start BS slots t" "t \<in> tokens_in BS slots b"
proof -
  show mem: "t \<in> tokens_in BS slots b" using batch_tokens_set [of BS slots b] t by auto
  have "sorted_wrt (<) (batch_tokens BS slots b)" by (simp add: batch_tokens_def sorted_wrt_filter)
  then have "\<forall>u \<in> tokens_in BS slots b. t \<le> u"
    unfolding batch_tokens_set [symmetric] using t by auto
  moreover have "t - 1 \<in> tokens_in BS slots b" if "\<not> run_start BS slots t"
    using that mem by (auto simp: run_start_def tokens_in_def)
  ultimately show "run_start BS slots t" by (fastforce simp: run_start_def)
qed

lemma run_programs_exact:
  assumes ok: "slots_ok BS slots" "0 < K" "0 < BS"
    and x: "\<forall>l < length experts. \<forall>t < length slots. length (experts ! l ! t) = K"
    and progs: "distinct progs" "set progs = {..<length slots} \<times> {..<length experts}"
    and c: "exact_cells (length experts) E cells content"
  shows "exact_cells (length experts) E (run_programs experts slots (length slots) E K BS progs cells)
     (new_contents experts BS slots content)"
  unfolding exact_cells_def
proof (intro allI impI)
  fix b l e
  assume l: "l < length experts" "e < E"
  let ?P = "\<lambda>(s, l'). l' = l \<and> run_start BS slots s \<and> s \<in> tokens_in BS slots b"
  have old: "cells b l e = of_nat (layer_count (content b) l e)" using c l by (simp add: exact_cells_def)
  note cell = run_programs_cell [OF ok x progs(1) equalityD1 [OF progs(2)], of E cells b l e]
  show "run_programs experts slots (length slots) E K BS progs cells b l e =
      of_nat (layer_count (new_contents experts BS slots content b) l e)"
  proof (cases "batch_tokens BS slots b")
    case Nil
    then have "tokens_in BS slots b = {}" using batch_tokens_set [of BS slots b] by simp
    then have "filter ?P progs = []" by (auto simp: filter_empty_conv)
    then show ?thesis unfolding cell using Nil old by (simp add: new_contents_def)
  next
    case (Cons t ts)
    note r = run_start_hd [OF ok(1) Cons]
    have "(t, l) \<in> set (filter ?P progs)" using r l progs(2) by (auto simp: tokens_in_def)
    then obtain s l2 qs where q: "filter ?P progs = (s, l2) # qs" by (cases "filter ?P progs") auto
    then have "(s, l2) \<in> set (filter ?P progs)" by (metis list.set_intros(1))
    then have "run_start BS slots s" "s \<in> tokens_in BS slots b" by auto
    then have "s \<le> t" "t \<le> s" using run_start_first [OF ok(1)] r by (auto simp: tokens_in_def)
    then have "s = t" by simp
    then have "run_programs experts slots (length slots) E K BS progs cells b l e = new_cell experts BS slots t cells b l e"
      unfolding cell q using l by simp
    then show ?thesis
      using old picks_in_list [OF l(1), of BS slots b e] Cons
      by (simp add: new_cell_def new_contents_def layer_count_def add.commute)
  qed
qed

subsection \<open>The sum over a request's blocks\<close>

text \<open>
  The blocks of a table hold a token history: each block a full slice, the last one the rest.
\<close>

definition holds :: "nat \<Rightarrow> contents \<Rightarrow> nat list \<Rightarrow> nat list list list \<Rightarrow> bool" where
  "holds BS content blocks P \<longleftrightarrow> (\<forall>i. i * BS < length P \<longrightarrow> content (blocks ! i) = take BS (drop (i * BS) P))"

lemma cdiv_less: "0 < BS \<Longrightarrow> i < cdiv n BS \<longleftrightarrow> i * BS < n"
proof -
  assume BS: "0 < BS"
  have "i < (n + BS - 1) div BS \<longleftrightarrow> Suc i * BS \<le> n + BS - 1"
    using less_eq_div_iff_mult_less_eq [OF BS, of "Suc i" "n + BS - 1"] by (simp add: Suc_le_eq)
  also have "\<dots> \<longleftrightarrow> i * BS < n" using BS by (simp, linarith)
  finally show ?thesis by (simp add: cdiv_def)
qed

lemma concat_slices: "concat (map (\<lambda>i. take BS (drop (i * BS) P)) [0..<n]) = take (n * BS) P"
proof (induction n)
  case 0
  then show ?case by simp
next
  case (Suc n)
  have "take (n * BS + BS) P = take (n * BS) P @ take BS (drop (n * BS) P)" by (rule take_add)
  then show ?case using Suc by (simp add: add.commute)
qed

lemma holds_concat:
  assumes "holds BS content blocks P" "0 < BS"
  shows "concat (map (\<lambda>i. content (blocks ! i)) [0..<cdiv (length P) BS]) = P"
proof -
  have "map (\<lambda>i. content (blocks ! i)) [0..<cdiv (length P) BS] = map (\<lambda>i. take BS (drop (i * BS) P)) [0..<cdiv (length P) BS]"
    using assms cdiv_less [OF assms(2)] by (auto simp: holds_def)
  moreover have "length P \<le> cdiv (length P) BS * BS" using cdiv_less [OF assms(2), of "cdiv (length P) BS" "length P"] by simp
  ultimately show ?thesis using concat_slices [of BS P "cdiv (length P) BS"] by (metis take_all)
qed

lemma layer_count_concat: "sum_list (map (\<lambda>i. layer_count (f i) l e) xs) = layer_count (concat (map f xs)) l e"
  by (induction xs) (simp_all add: layer_count_def)

lemma layer_count_le: "\<forall>tk \<in> set ts. distinct (tk ! l) \<Longrightarrow> layer_count ts l e = length (filter (\<lambda>tk. e \<in> set (tk ! l)) ts)"
proof (induction ts)
  case Nil
  then show ?case by (simp add: layer_count_def)
next
  case (Cons tk ts)
  have "count_list (tk ! l) e = (if e \<in> set (tk ! l) then 1 else 0)"
    using Cons.prems count_list_distinct_filter [of "\<lambda>_. True" "tk ! l" e] by (auto simp: count_list_0_iff)
  then show ?case using Cons by (simp add: layer_count_def)
qed

lemma sum_list_int: "int (sum_list xs) = sum_list (map int xs)"
  by (induction xs) simp_all

lemma sum_row_exact:
  assumes c: "exact_cells L E cells content" and h: "holds BS content blocks P"
    and BS: "0 < BS" "BS < 128" and len: "length P \<le> 32767" and d: "\<forall>tk \<in> set P. distinct (tk ! l)" and le: "l < L" "e < E"
  shows "sint (sum_row cells blocks (length P) False BS l e) = int (length (filter (\<lambda>tk. e \<in> set (tk ! l)) P))"
proof -
  let ?n = "cdiv (length P) BS"
  have "sint (cells (blocks ! i) l e) = int (layer_count (content (blocks ! i)) l e)" if "i \<in> set [0..<?n]" for i
  proof -
    have t: "content (blocks ! i) = take BS (drop (i * BS) P)"
      using h that cdiv_less [OF BS(1)] by (simp add: holds_def)
    have "\<forall>tk \<in> set (content (blocks ! i)). distinct (tk ! l)"
      unfolding t using d by (meson in_set_dropD in_set_takeD)
    then have "layer_count (content (blocks ! i)) l e \<le> length (content (blocks ! i))"
      using layer_count_le length_filter_le by metis
    then have "layer_count (content (blocks ! i)) l e < 128" unfolding t using BS(2) by simp
    then show ?thesis
      using c le sint_of_int_exact(2) [of "int (layer_count (content (blocks ! i)) l e)"] by (simp add: exact_cells_def)
  qed
  then have "map (\<lambda>i. sint (cells (blocks ! i) l e)) [0..<?n] = map int (map (\<lambda>i. layer_count (content (blocks ! i)) l e) [0..<?n])"
    by simp
  then have "sum_list (map (\<lambda>i. sint (cells (blocks ! i) l e)) [0..<?n]) = int (layer_count P l e)"
    using layer_count_concat [of "\<lambda>i. content (blocks ! i)" l e "[0..<?n]"] holds_concat [OF h BS(1)]
    by (simp add: sum_list_int [symmetric] del: map_map)
  moreover have "layer_count P l e = length (filter (\<lambda>tk. e \<in> set (tk ! l)) P)" using layer_count_le [OF d] .
  moreover have "length (filter (\<lambda>tk. e \<in> set (tk ! l)) P) \<le> 32767" using length_filter_le len le_trans by blast
  ultimately show ?thesis
    using sint_of_int_exact(1) [of "int (layer_count P l e)"] by (simp add: sum_row_eq)
qed

subsection \<open>Chunked prefill\<close>

text \<open>
  A batch in which the tokens \<open>s, ..., s + n - 1\<close> continue, at position \<open>c\<close>, the request whose block
  table is \<open>blocks\<close>, and no other token is written to its blocks.
\<close>

definition own_window :: "nat \<Rightarrow> int list \<Rightarrow> nat list \<Rightarrow> nat \<Rightarrow> nat \<Rightarrow> nat \<Rightarrow> bool" where
  "own_window BS slots blocks c s n \<longleftrightarrow> s + n \<le> length slots \<and> cdiv (c + n) BS \<le> length blocks \<and>
     (\<forall>j < n. slots ! (s + j) = int (blocks ! ((c + j) div BS) * BS + (c + j) mod BS)) \<and>
     (\<forall>t < length slots. t < s \<or> s + n \<le> t \<longrightarrow> (\<forall>b \<in> set blocks. slots ! t div int BS \<noteq> int b))"

lemma own_tokens:
  assumes BS: "0 < BS" and d: "distinct blocks" and w: "own_window BS slots blocks c s n" and i: "i < length blocks"
  shows "batch_tokens BS slots (blocks ! i) =
     [s + (max c (i * BS) - c)..<s + (min (c + n) (Suc i * BS) - c)]"
proof (rule sorted_distinct_set_unique)
  have blk: "slots ! (s + j) div int BS = int (blocks ! ((c + j) div BS))" "(c + j) div BS < length blocks" if "j < n" for j
  proof -
    have "slots ! (s + j) = int (blocks ! ((c + j) div BS) * BS + (c + j) mod BS)" using w that by (simp add: own_window_def)
    then have "slots ! (s + j) div int BS = int ((blocks ! ((c + j) div BS) * BS + (c + j) mod BS) div BS)" by (simp add: zdiv_int)
    then show "slots ! (s + j) div int BS = int (blocks ! ((c + j) div BS))" using BS by simp
    have "(c + j) div BS * BS < c + n" using that BS by (metis add_less_cancel_left div_times_less_eq_dividend order_le_less_trans)
    then have "(c + j) div BS < cdiv (c + n) BS" using cdiv_less [OF BS] by blast
    then show "(c + j) div BS < length blocks" using w by (simp add: own_window_def)
  qed
  have "t \<in> set (batch_tokens BS slots (blocks ! i)) \<longleftrightarrow> s + (max c (i * BS) - c) \<le> t \<and> t < s + (min (c + n) (Suc i * BS) - c)" for t
  proof (cases "s \<le> t \<and> t < s + n")
    case True
    then obtain j where j: "t = s + j" "j < n" by (metis add_less_cancel_left le_Suc_ex)
    have "t \<in> set (batch_tokens BS slots (blocks ! i)) \<longleftrightarrow> blocks ! ((c + j) div BS) = blocks ! i"
      using blk(1) [OF j(2)] w j by (auto simp: batch_tokens_def own_window_def)
    also have "\<dots> \<longleftrightarrow> (c + j) div BS = i" using d i blk(2) [OF j(2)] by (simp add: nth_eq_iff_index_eq)
    also have "\<dots> \<longleftrightarrow> i * BS \<le> c + j \<and> c + j < Suc i * BS"
      using BS by (metis div_nat_eqI dividend_less_times_div div_times_less_eq_dividend mult.commute mult_Suc add.commute)
    finally show ?thesis using j by auto
  next
    case False
    have "t \<notin> set (batch_tokens BS slots (blocks ! i))"
    proof
      assume "t \<in> set (batch_tokens BS slots (blocks ! i))"
      then have "t < length slots" "slots ! t div int BS = int (blocks ! i)" by (auto simp: batch_tokens_def)
      moreover have "blocks ! i \<in> set blocks" using i by simp
      ultimately show False using False w by (auto simp: own_window_def)
    qed
    then show ?thesis using False by auto
  qed
  then show "set (batch_tokens BS slots (blocks ! i)) = set [s + (max c (i * BS) - c)..<s + (min (c + n) (Suc i * BS) - c)]"
    unfolding set_eq_iff set_upt atLeastLessThan_iff by blast
qed (simp_all add: batch_tokens_def sorted_wrt_filter)

lemma holds_step:
  assumes BS: "0 < BS" and d: "distinct blocks" and h: "holds BS content blocks P"
    and w: "own_window BS slots blocks (length P) s n"
  shows "holds BS (new_contents experts BS slots content) blocks (P @ map (token_picks experts) [s..<s + n])"
  unfolding holds_def
proof (intro allI impI)
  fix i
  let ?c = "length P" and ?X = "map (token_picks experts) [s..<s + n]"
  assume "i * BS < length (P @ ?X)"
  then have lt: "i * BS < ?c + n" by simp
  then have "i < length blocks" using cdiv_less [OF BS, of i "?c + n"] w by (simp add: own_window_def)
  note bt = own_tokens [OF BS d w this]
  consider (old) "Suc i * BS \<le> ?c" | (fresh) "?c \<le> i * BS" | (part) "i * BS < ?c" "?c < Suc i * BS" by linarith
  then show "new_contents experts BS slots content (blocks ! i) = take BS (drop (i * BS) (P @ ?X))"
  proof cases
    case old
    then have "batch_tokens BS slots (blocks ! i) = []" unfolding bt by simp
    moreover have "content (blocks ! i) = take BS (drop (i * BS) P)" using h old BS by (simp add: holds_def)
    ultimately show ?thesis using old by (simp add: new_contents_def)
  next
    case fresh
    define k where "k = min (?c + n) (Suc i * BS) - ?c"
    have k: "i * BS - ?c < k" "k \<le> n" using lt fresh BS by (auto simp: k_def)
    have bt': "batch_tokens BS slots (blocks ! i) = [s + (i * BS - ?c)..<s + k]" unfolding bt k_def using fresh by (simp add: max_def)
    have "\<forall>j < n. slots ! (s + j) = int (blocks ! ((?c + j) div BS) * BS + (?c + j) mod BS)" using w by (simp add: own_window_def)
    then have "slots ! (s + (i * BS - ?c)) = int (blocks ! ((?c + (i * BS - ?c)) div BS) * BS + (?c + (i * BS - ?c)) mod BS)"
      using k by simp
    then have off: "slots ! (s + (i * BS - ?c)) mod int BS = 0" using BS fresh by simp
    have "new_contents experts BS slots content (blocks ! i) = map (token_picks experts) [s + (i * BS - ?c)..<s + k]"
      unfolding new_contents_def bt' using off k by (simp add: upt_conv_Cons)
    also have "[s + (i * BS - ?c)..<s + k] = take BS (drop (i * BS - ?c) [s..<s + n])"
      using fresh lt by (simp add: k_def take_upt min_def add.commute add.left_commute)
    finally show ?thesis using fresh by (simp add: take_map drop_map)
  next
    case part
    define k where "k = min (?c + n) (Suc i * BS) - ?c"
    have bt': "batch_tokens BS slots (blocks ! i) = [s..<s + k]" unfolding bt k_def using part by simp
    have old: "content (blocks ! i) = drop (i * BS) P" using h part by (simp add: holds_def)
    have "k = min n (BS - (?c - i * BS))" using part by (auto simp: k_def min_def)
    then have "take (BS - (?c - i * BS)) ?X = take k ?X" by (simp add: min_def)
    moreover have "take BS (drop (i * BS) P) = drop (i * BS) P" using part by simp
    ultimately have t: "take BS (drop (i * BS) (P @ ?X)) = drop (i * BS) P @ take k ?X" using part by simp
    show ?thesis
    proof (cases "k = 0")
      case True
      then show ?thesis using bt' old t by (simp add: new_contents_def)
    next
      case False
      then have "0 < n" by (simp add: k_def min_def split: if_splits)
      then have "slots ! s = int (blocks ! (?c div BS) * BS + ?c mod BS)" using w by (auto simp: own_window_def)
      moreover have "?c mod BS \<noteq> 0"
      proof -
        define r where "r = ?c - i * BS"
        then have r: "?c = i * BS + r" "0 < r" "r < BS" using part by simp_all
        then show ?thesis by simp
      qed
      ultimately have off: "slots ! s mod int BS \<noteq> 0" by (simp add: zmod_int [symmetric] del: of_nat_add of_nat_mult)
      have "k \<le> n" by (simp add: k_def)
      then have "map (token_picks experts) [s..<s + k] = take k ?X" by (simp add: take_map take_upt)
      then show ?thesis
        unfolding t new_contents_def bt' using off False old by (simp add: upt_conv_Cons)
    qed
  qed
qed

text \<open>
  The history of the block cache as a request sees it: it starts with the blocks of its cached
  prefix (none for a cold prompt), and goes on with batches of the producer, each holding any
  number of its next tokens and whatever tokens of other requests.
\<close>

inductive prefilled ::
  "nat \<Rightarrow> nat \<Rightarrow> nat \<Rightarrow> nat \<Rightarrow> nat list \<Rightarrow> cells \<Rightarrow> contents \<Rightarrow> nat list list list \<Rightarrow> bool"
  for L E K BS blocks where
  cached: "exact_cells L E cells content \<Longrightarrow> holds BS content blocks P \<Longrightarrow> prefilled L E K BS blocks cells content P"
| batch: "prefilled L E K BS blocks cells content P \<Longrightarrow> length experts = L \<Longrightarrow> slots_ok BS slots \<Longrightarrow>
    \<forall>l < L. \<forall>t < length slots. length (experts ! l ! t) = K \<Longrightarrow> own_window BS slots blocks (length P) s n \<Longrightarrow>
    reduce_counts True True experts (length slots) K slots E BS cells = Inr cells' \<Longrightarrow>
    prefilled L E K BS blocks cells' (new_contents experts BS slots content) (P @ map (token_picks experts) [s..<s + n])"

lemma reduce_counts_exact:
  assumes ok: "slots_ok BS slots" "0 < K"
    and x: "\<forall>l < length experts. \<forall>t < length slots. length (experts ! l ! t) = K"
    and c: "exact_cells (length experts) E cells content"
    and r: "reduce_counts True True experts (length slots) K slots E BS cells = Inr cells'"
  shows "0 < BS" "BS < 128" "exact_cells (length experts) E cells' (new_contents experts BS slots content)"
proof -
  show BS: "0 < BS" "BS < 128" using r by (auto simp: reduce_counts_def split: if_splits)
  have r': "cells' = (if slots = [] then cells
      else run_programs experts slots (length slots) E K BS (List.product [0..<length slots] [0..<length experts]) cells)"
    using r by (auto simp: reduce_counts_def split: if_splits)
  have e: "new_contents experts BS [] content = content" by (simp add: new_contents_def batch_tokens_def fun_eq_iff)
  have "distinct (List.product [0..<length slots] [0..<length experts])" by (simp add: distinct_product)
  moreover have "set (List.product [0..<length slots] [0..<length experts]) = {..<length slots} \<times> {..<length experts}" by auto
  ultimately have "exact_cells (length experts) E
      (run_programs experts slots (length slots) E K BS (List.product [0..<length slots] [0..<length experts]) cells)
      (new_contents experts BS slots content)"
    by (rule run_programs_exact [OF ok BS(1) x _ _ c])
  then show "exact_cells (length experts) E cells' (new_contents experts BS slots content)"
    using r' c e by (cases "slots = []") simp_all
qed

lemma prefilled_ok:
  assumes "prefilled L E K BS blocks cells content P" "0 < K" "0 < BS" "distinct blocks"
  shows "exact_cells L E cells content \<and> holds BS content blocks P"
  using assms(1)
proof (induction rule: prefilled.induct)
  case (cached cells content P)
  then show ?case by simp
next
  case (batch cells content P experts slots s n cells')
  then show ?case
    using reduce_counts_exact(3) [of BS slots K experts E cells content cells'] holds_step [OF assms(3,4)] assms(2) by auto
qed

text \<open>
  C2. The signature of a completed prefill is exact. Whatever prefix of the prompt was found in the
  cache, however the rest was split into batches and mixed with other requests' tokens, the
  16-bit counter the sum kernel returns for a layer and an expert is the number of prompt tokens
  that selected this expert in this layer: neither the byte counters of the blocks nor the 16-bit
  sums overflow, given the block size and prompt length the configuration check enforces and
  distinct experts per token and layer.
\<close>

theorem signature_counts_prompt:
  assumes run: "prefilled L E K BS blocks cells content P" and K: "0 < K" "distinct blocks"
    and cfg: "validate_config True True cfg = Inr ()" "cfg_block_size cfg = int BS" "int (length P) \<le> max_model_len cfg"
    and d: "\<forall>tk \<in> set P. distinct (tk ! l)" and le: "l < L" "e < E"
  shows "sint (sum_row cells blocks (length P) False BS l e) = int (length (filter (\<lambda>tk. e \<in> set (tk ! l)) P))"
proof -
  have c: "0 < BS" "BS < 128" "length P \<le> 32767" using cfg by (auto simp: validate_config_def split: if_splits)
  note ok = prefilled_ok [OF run K(1) c(1) K(2)]
  show ?thesis using ok c d le by (intro sum_row_exact) auto
qed

text \<open>
  C28. The counting kernel is free of races. If the tokens of a block are adjacent in the batch, the
  programs of a launch can run in any order: the result is that of the launch order, and each
  touched block holds its earlier counts (or none, if the batch starts the block) plus the picks of
  the batch.
\<close>

theorem count_launch_order_free:
  assumes "slots_ok BS slots" "0 < K" "\<forall>l < length experts. \<forall>t < length slots. length (experts ! l ! t) = K"
    "exact_cells (length experts) E cells content"
    "reduce_counts True True experts (length slots) K slots E BS cells = Inr cells'"
    "distinct progs" "set progs = {..<length slots} \<times> {..<length experts}" "l < length experts" "e < E"
  shows "run_programs experts slots (length slots) E K BS progs cells b l e = cells' b l e \<and>
     cells' b l e = of_nat (layer_count (new_contents experts BS slots content b) l e)"
proof -
  note r = reduce_counts_exact [OF assms(1-5)]
  show ?thesis
    using run_programs_exact [OF assms(1,2) r(1) assms(3,6,7,4)] r(3) assms(8,9) by (simp add: exact_cells_def)
qed

subsection \<open>Bytes\<close>

text \<open>Reading little-endian signed 16-bit integers, as the receiving side does with dtype \<^verbatim>\<open><i2\<close>.\<close>

fun frombuffer_i2 :: "bytes \<Rightarrow> int list res" where
  "frombuffer_i2 [] = Inr []"
| "frombuffer_i2 [b] = Inl (ValueError ''buffer size must be a multiple of element size'')"
| "frombuffer_i2 (a # b # bs) =
     res_bind (frombuffer_i2 bs) (\<lambda>ns. Inr (sint (ucast a OR push_bit 8 (ucast b) :: 16 word) # ns))"

lemma le16_join: "ucast (ucast w :: 8 word) OR push_bit 8 (ucast (ucast (drop_bit 8 w) :: 8 word)) = (w :: 16 word)"
  by (rule bit_word_eqI) (auto simp: bit_simps not_le less_diff_conv2)

lemma frombuffer_le16: "frombuffer_i2 (concat (map le16 ws)) = Inr (map sint ws)"
  by (induction ws) (simp_all add: le16_def le16_join)

lemma fold_rids_other:
  "Some r \<notin> fst ` set ps \<Longrightarrow>
     od_get (fold (\<lambda>(rid, row) d. case rid of None \<Rightarrow> d | Some r \<Rightarrow> od_set r (g row) d) ps d) r = od_get d r"
  by (induction ps arbitrary: d) (auto simp: od_simps split: option.splits prod.splits)

lemma fold_rids_mem:
  "distinct (filter (\<lambda>x. x \<noteq> None) (map fst ps)) \<Longrightarrow> (Some r, row) \<in> set ps \<Longrightarrow>
     od_get (fold (\<lambda>(rid, row) d. case rid of None \<Rightarrow> d | Some r \<Rightarrow> od_set r (g row) d) ps d) r = Some (g row)"
proof (induction ps arbitrary: d)
  case Nil
  then show ?case by simp
next
  case (Cons x ps)
  obtain rid row' where x: "x = (rid, row')" by (cases x)
  show ?case
  proof (cases "x = (Some r, row)")
    case True
    then have "Some r \<notin> fst ` set ps" using Cons.prems(1) by auto
    from fold_rids_other [OF this, of g "od_set r (g row) d"] show ?thesis using True by (simp add: od_simps)
  next
    case False
    then have "(Some r, row) \<in> set ps" using Cons.prems(2) by auto
    moreover have "distinct (filter (\<lambda>x. x \<noteq> None) (map fst ps))" using Cons.prems(1) by (auto split: if_splits)
    ultimately show ?thesis using Cons.IH by simp
  qed
qed

text \<open>
  A pending copy delivers each finished row once. Completing the copy of a batch yields, for
  every request that finished in it, bytes that read back as exactly its counters, and nothing for
  other requests; afterwards the copy can be neither enqueued nor consumed again.
\<close>

lemma pending_copy_roundtrip:
  assumes "make_pending rids counts = Inr p" "distinct (filter (\<lambda>x. x \<noteq> None) rids)"
  shows "\<exists>d p'. finish_synchronously p = Inr (d, p') \<and>
     (\<forall>i r. i < length rids \<and> rids ! i = Some r \<longrightarrow>
        (\<exists>bs. od_get d r = Some bs \<and> frombuffer_i2 bs = Inr (map sint (concat (counts ! i))))) \<and>
     (\<forall>r. Some r \<notin> set rids \<longrightarrow> od_get d r = None) \<and>
     (\<exists>m. enqueue_copy p' = Inl (RuntimeError m)) \<and> (\<exists>m. finish_after_sync p' = Inl (RuntimeError m))"
proof -
  have p: "p = \<lparr>p_req_ids = rids, p_counts = Some counts, p_host = None\<rparr>" "length counts = length rids"
    using assms(1) by (auto simp: make_pending_def split: if_splits)
  define d where "d = fold (\<lambda>(rid, row) d. case rid of None \<Rightarrow> d | Some r \<Rightarrow> od_set r (tobytes row) d) (zip rids counts) []"
  let ?p' = "\<lparr>p_req_ids = rids, p_counts = None, p_host = None\<rparr>"
  have f: "finish_synchronously p = Inr (d, ?p')"
    by (simp add: finish_synchronously_def enqueue_copy_def finish_after_sync_def p d_def)
  have m: "map fst (zip rids counts) = rids" using p(2) by simp
  have "\<exists>bs. od_get d r = Some bs \<and> frombuffer_i2 bs = Inr (map sint (concat (counts ! i)))"
    if "i < length rids" "rids ! i = Some r" for i r
  proof -
    have "(Some r, counts ! i) \<in> set (zip rids counts)" using that p(2) by (metis in_set_zip fst_conv snd_conv)
    then have "od_get d r = Some (tobytes (counts ! i))"
      unfolding d_def using assms(2) m by (intro fold_rids_mem) simp_all
    then show ?thesis by (simp add: tobytes_def frombuffer_le16)
  qed
  moreover have "od_get d r = None" if "Some r \<notin> set rids" for r
    unfolding d_def using that m fold_rids_other [of r "zip rids counts" tobytes "[]"] by (metis list.set_map map_of.simps(1))
  ultimately show ?thesis
    using f by (intro exI [of _ d] exI [of _ ?p']) (simp add: enqueue_copy_def finish_after_sync_def)
qed

section \<open>Witnesses\<close>

definition ex_config :: eldr_config where
  "ex_config = \<lparr>kv_role = Some ''kv_producer'', kv_connector = ''NixlConnector'', tensor_parallel_size = 1,
     pipeline_parallel_size = 1, enable_expert_parallel = False, speculative = False, runner_type = ''generate'',
     enforce_eager = True, cfg_block_size = 2, max_model_len = 64\<rparr>"

lemma ex_slots: "slots_ok 2 [6, 7]" "own_window 2 [6, 7] [3] 0 0 2"
  by (auto simp: slots_ok_def own_window_def cdiv_def less_2_cases_iff less_Suc_eq)

definition ex_cells :: cells where
  "ex_cells = run_programs [[[0], [1]]] [6, 7] 2 2 1 2 (List.product [0..<2] [0..<1]) (\<lambda>_ _ _. 0)"

lemma ex_reduce: "reduce_counts True True [[[0], [1]]] (length [6, 7 :: int]) 1 [6, 7] 2 2 (\<lambda>_ _ _. 0) = Inr ex_cells"
  by (simp add: reduce_counts_def ex_cells_def numeral_2_eq_2)

lemma ex_picks: "\<forall>l < length [[[0], [1]]]. \<forall>t < length [6, 7 :: int]. length ([[[0], [1 :: nat]]] ! l ! t) = 1"
  by (auto simp: less_Suc_eq numeral_2_eq_2 nth_Cons split: nat.splits)

lemma ex_exact: "exact_cells n 2 (\<lambda>_ _ _. 0) (\<lambda>_. [])"
  by (simp add: exact_cells_def layer_count_def)

theorem signature_counts_prompt_witness:
  "sint (sum_row ex_cells [3] 2 False 2 0 1) = 1"
proof -
  have "prefilled 1 2 1 2 [3] (\<lambda>_ _ _. 0) (\<lambda>_. []) []" by (intro prefilled.cached ex_exact) (simp add: holds_def)
  from prefilled.batch [OF this, of "[[[0], [1]]]" "[6, 7]" 0 2 ex_cells]
  have r: "prefilled 1 2 1 2 [3] ex_cells (new_contents [[[0], [1]]] 2 [6, 7] (\<lambda>_. [])) [[[0]], [[1]]]"
    using ex_slots ex_reduce ex_picks by (simp add: token_picks_def numeral_2_eq_2)
  show ?thesis
    using signature_counts_prompt [OF r, of ex_config 0 1] by (simp add: validate_config_def ex_config_def numeral_2_eq_2)
qed

theorem count_launch_order_free_witness:
  "run_programs [[[0], [1]]] [6, 7] 2 2 1 2 [(1, 0), (0, 0)] (\<lambda>_ _ _. 0) 3 0 1 = ex_cells 3 0 1"
proof -
  have "set [(1, 0), (0, 0)] = {..<length [6, 7 :: int]} \<times> {..<length [[[0], [1 :: nat]]]}" by auto
  from count_launch_order_free [OF ex_slots(1) _ ex_picks ex_exact ex_reduce _ this, of 0 1 3]
  show ?thesis by (simp add: numeral_2_eq_2)
qed

end
