(* ===== verification/Handoff.thy ===== *)
theory Handoff
  imports Stop_Check Nixl_Safety Proxy Signature
begin

text \<open>
  The prefill-first hand-off (\<^verbatim>\<open>vllm/eldr/prefill_first.py\<close>) and what joins the prefiller, the proxy and
  the decoder: the prefiller stops after one sampled token and its connector describes the finished
  request, the proxy accepts that description and posts it to a decoder, the decoder validates it
  and seeds a request with the token. The properties follow a request and its expert signature
  through all three.
\<close>

section \<open>Parameters of a hand-off\<close>

text \<open>The fields of \<^verbatim>\<open>VllmConfig\<close> and \<^verbatim>\<open>SamplingParams\<close> the checks read; a flag says that an optional field is set.\<close>

record handoff_config =
  hc_connector :: "string option"
  hc_speculative :: bool
  hc_pp_size :: int
  hc_v2_runner :: bool
  hc_encoder_decoder :: bool
  hc_hybrid :: bool
  hc_logits_processors :: bool
  hc_vocab_size :: int

record sampling_params =
  extra_args :: "obj option"
  sp_n :: int
  sp_logprobs :: bool
  sp_prompt_logprobs :: bool
  sp_structured :: bool
  sp_thinking_budget :: bool
  sp_max_tokens :: "int option"

definition transfer_params :: "sampling_params option \<Rightarrow> json" where
  "transfer_params po =
     (case po of
        None \<Rightarrow> JObj []
      | Some p \<Rightarrow> (case extra_args p of None \<Rightarrow> JObj [] | Some d \<Rightarrow> jget_or (JObj []) d ''kv_transfer_params''))"

definition first_token_ids :: "sampling_params option \<Rightarrow> json list res" where
  "first_token_ids po =
     res_bind (as_obj (transfer_params po)) (\<lambda>t.
       let token = jget t ''prefill_first_token_id'' in Inr (if token \<noteq> JNull then [token] else []))"

definition validate_seeded :: "handoff_config \<Rightarrow> sampling_params \<Rightarrow> obj \<Rightarrow> int list \<Rightarrow> json \<Rightarrow> unit res" where
  "validate_seeded cfg p t prompt token =
     (if \<not> truthy (jget t ''do_remote_prefill'') \<or> truthy (jget t ''prefill_first'')
      then Inl (ValueError ''A seeded first token is a consumer-only parameter'')
      else if (case token of JInt k \<Rightarrow> \<not> (0 \<le> k \<and> k < hc_vocab_size cfg) | _ \<Rightarrow> True)
      then Inl (ValueError ''Invalid prefill first token'')
      else if \<not> py_eq (jget t ''prefill_prompt_tokens'') (JInt (int (length prompt)))
      then Inl (ValueError ''Prefill/decode prompt length mismatch'')
      else if \<not> truthy (jget t ''prefill_continues'')
      then Inl (ValueError ''A completed prefill must not start decode generation'')
      else case sp_max_tokens p of
        None \<Rightarrow> Inl TypeError
      | Some m \<Rightarrow> if m \<le> 1 then Inl (ValueError ''A completed prefill must not start decode generation'') else Inr ())"

definition validate_prefill_first ::
  "handoff_config \<Rightarrow> sampling_params option \<Rightarrow> int list option \<Rightarrow> bool \<Rightarrow> unit res" where
  "validate_prefill_first cfg po prompt_ids has_embeds =
     res_bind (as_obj (transfer_params po)) (\<lambda>t. res_bind (first_token_ids po) (\<lambda>tokens.
       if \<not> (truthy (jget t ''prefill_first'') \<or> tokens \<noteq> []) then Inr ()
       else case po of
         None \<Rightarrow> Inl AttributeError
       | Some p \<Rightarrow>
           let prompt = (case prompt_ids of None \<Rightarrow> [] | Some ts \<Rightarrow> ts) in
           if hc_connector cfg \<noteq> Some ''NixlConnector'' \<or> hc_speculative cfg \<or> hc_pp_size cfg \<noteq> 1 \<or> hc_v2_runner cfg
             \<or> hc_encoder_decoder cfg \<or> hc_hybrid cfg \<or> has_embeds \<or> prompt = []
           then Inl (ValueError ''Prefill-first requires text-only V1 NIXL without PP/speculation'')
           else if sp_n p \<noteq> 1 \<or> sp_logprobs p \<or> sp_prompt_logprobs p \<or> sp_structured p \<or> hc_logits_processors cfg
             \<or> sp_thinking_budget p
           then Inl (ValueError ''Prefill-first supports one plain-text completion without logprobs'')
           else if truthy (jget t ''prefill_first'') \<and> \<not> truthy (jget t ''do_remote_decode'')
           then Inl (ValueError ''prefill_first is a producer-only parameter'')
           else (case tokens of [] \<Rightarrow> Inr () | token # _ \<Rightarrow> validate_seeded cfg p t prompt token)))"

text \<open>
  The decoder's incremental detokenizer is a parameter: feeding it tokens returns the stop string it
  met, if any, and asking for the next text moves its state.
\<close>

definition prime_detokenizer ::
  "('d \<Rightarrow> json list \<Rightarrow> bool \<Rightarrow> string option \<times> 'd) \<Rightarrow> ('d \<Rightarrow> bool \<Rightarrow> bool \<Rightarrow> string \<times> 'd) \<Rightarrow> 'd \<Rightarrow>
     sampling_params option \<Rightarrow> (nat \<times> 'd) res" where
  "prime_detokenizer upd next_text d po =
     res_bind (first_token_ids po) (\<lambda>tokens.
       if tokens \<noteq> [] then
         (let (stop, d1) = upd d tokens False in
          if stop \<noteq> None then Inl (ValueError ''A stopped prefill must not start decode generation'')
          else Inr (length tokens, snd (next_text d1 False True)))
       else Inr (0, d))"

section \<open>Requests\<close>

text \<open>
  \<^verbatim>\<open>Request.__init__\<close> for a generative text request: the API admits a dict or nothing as transfer
  parameters, and \<^const>\<open>validate_prefill_first\<close> has let only an integer token through.
\<close>

definition request_init :: "string \<Rightarrow> sampling_params \<Rightarrow> int list \<Rightarrow> bool \<Rightarrow> nreq res" where
  "request_init rid p prompt abort_immediately =
     (case sp_max_tokens p of
        None \<Rightarrow> Inl AssertionError
      | Some m \<Rightarrow>
          let kv = (case extra_args p of None \<Rightarrow> JNull | Some d \<Rightarrow> jget d ''kv_transfer_params'') in
          res_bind (case kv of JNull \<Rightarrow> Inr None | JObj d \<Rightarrow> Inr (Some d) | _ \<Rightarrow> Inl TypeError) (\<lambda>params.
          let r = \<lparr>request_id = rid, kv_transfer_params = params, prompt_token_ids = Some prompt, prompt_embeds = None,
                  all_token_ids = prompt, output_token_ids = [], num_prompt_tokens = int (length prompt), max_tokens = m,
                  num_computed_tokens = 0, status = WAITING, stop_reason = JNull, eldr_signature = None\<rparr> in
          if abort_immediately then Inr r
          else res_bind (first_token_ids (Some p)) (\<lambda>tokens.
            case tokens of
              [] \<Rightarrow> Inr r
            | token # _ \<Rightarrow> (case token of JInt k \<Rightarrow> Inr (append_token k r) | _ \<Rightarrow> Inl TypeError))))"

text \<open>The output processor's last word on whether the request goes on.\<close>

definition settle_continues :: "bool \<Rightarrow> obj \<Rightarrow> obj res" where
  "settle_continues finish_is_stop kv =
     (if kv \<noteq> [] \<and> ''prefill_first_token_id'' \<in> set (od_keys kv) then
        res_bind (jitem kv ''prefill_continues'') (\<lambda>v.
          Inr (od_set ''prefill_continues'' (if truthy v then JBool (\<not> finish_is_stop) else v) kv))
      else Inr kv)"

section \<open>Releasing a transfer\<close>

definition release_transfer :: "json \<Rightarrow> obj res" where
  "release_transfer v =
     (case v of
        JObj t \<Rightarrow> if truthy (jget t ''do_remote_prefill'') then Inr t else Inl (HTTPBadRequest ''Expected a pending prefill KV transfer'')
      | _ \<Rightarrow> Inl (HTTPBadRequest ''Expected a pending prefill KV transfer''))"

definition notify_kv_transfer_request_rejected :: "string \<Rightarrow> obj \<Rightarrow> nreq res" where
  "notify_kv_transfer_request_rejected rid t =
     request_init rid \<lparr>extra_args = Some [(''kv_transfer_params'', JObj t)], sp_n = 1, sp_logprobs = False,
       sp_prompt_logprobs = False, sp_structured = False, sp_thinking_budget = False, sp_max_tokens = Some 1\<rparr> [0] True"

text \<open>
  C38. A release request that names no remote blocks stops the engine. The release endpoint accepts
  any object with a true \<^verbatim>\<open>do_remote_prefill\<close>; the aborted request made from it is queued without a
  check of the fields the worker metadata needs, and from then on building the metadata of a step
  raises, whatever else is scheduled.
\<close>

theorem release_without_fields_fails:
  "\<exists>t r h' n'. release_transfer (JObj [(''do_remote_prefill'', JBool True)]) = Inr t \<and>
     notify_kv_transfer_request_rejected rid t = Inr r \<and>
     request_finished expiry eldr i ids (h(i := r\<lparr>status := FINISHED_ABORTED\<rparr>)) n = Inr ((False, None), h', n') \<and>
     (\<forall>so. \<exists>e. build_connector_meta h' so n' = Inl e)"
proof -
  define t :: obj where "t = [(''do_remote_prefill'', JBool True)]"
  have "\<exists>r. notify_kv_transfer_request_rejected rid t = Inr r \<and> kv_transfer_params r = Some t"
    by (simp add: notify_kv_transfer_request_rejected_def request_init_def Let_def jget_or_def)
  then obtain r where r: "notify_kv_transfer_request_rejected rid t = Inr r" "kv_transfer_params r = Some t" by blast
  have "release_transfer (JObj t) = Inr t" by (simp add: release_transfer_def t_def jget_or_def)
  moreover have "\<exists>h' n'. request_finished expiry eldr i ids (h(i := r\<lparr>status := FINISHED_ABORTED\<rparr>)) n = Inr ((False, None), h', n') \<and>
      (\<forall>so. \<exists>e. build_connector_meta h' so n' = Inl e)"
    using r(2) by (intro incomplete_release_fails [where k = "''remote_block_ids''" and p = t]) (simp_all add: t_def jget_or_def)
  ultimately show ?thesis using r(1) unfolding t_def by blast
qed

section \<open>From the prefiller to the decoder\<close>

text \<open>A decode request the proxy posts for a prefiller's result, directly or after streaming the first token.\<close>

definition decode_posted :: "('f, 's) proxy_env \<Rightarrow> obj \<Rightarrow> json \<Rightarrow> obj \<Rightarrow> bool" where
  "decode_posted env payload result body \<longleftrightarrow>
     (\<exists>now a ph a' acts url. accept_prefill env now payload result a = (ph, a', acts) \<and> PostDecode url body \<in> set acts) \<or>
     (\<exists>now now2 a a1 a2 as c ph a' acts url. accept_prefill env now payload result a = (WaitStream c, a1, as) \<and>
        continue_request env now2 c a2 = (ph, a', acts) \<and> PostDecode url body \<in> set acts)"

lemma leave_no_decode: "leave_handler c d s out a = (ph, a', acts) \<Longrightarrow> PostDecode url body \<notin> set acts"
  by (auto simp: leave_handler_def Let_def split: if_splits)

lemma fail_no_decode: "fail_request c d s f a = (ph, a', acts) \<Longrightarrow> PostDecode url body \<notin> set acts"
  by (auto simp: fail_request_def Let_def dest: leave_no_decode split: if_splits)

lemma continue_posts:
  assumes "continue_request env now c a = (ph, a', acts)" "PostDecode url body \<in> set acts"
  shows "c_continues c \<and> (\<exists>created. body = decode_body (c_payload c) (c_prompt c) (od_set ''prefill_created'' created (c_transfer c)))"
  using assms unfolding continue_request_def
  by (auto simp: Let_def split: sum.splits if_splits prod.splits dest: fail_no_decode leave_no_decode)

lemma continue_not_stream: "continue_request env now c a \<noteq> (WaitStream c', a', acts)"
proof -
  have l: "leave_handler c d s out b \<noteq> (WaitStream c', a', acts)" for c :: ctx and d s out b
    by (auto simp: leave_handler_def Let_def split: if_splits)
  have f: "fail_request c d s f b \<noteq> (WaitStream c', a', acts)" for c :: ctx and d s f b
    by (auto simp: fail_request_def Let_def l split: if_splits)
  show ?thesis
    unfolding continue_request_def Let_def by (auto simp: l f split: sum.splits if_splits prod.splits)
qed

lemma decode_posted_body:
  assumes posted: "decode_posted env payload result body" and u: "unpack_prefill result = Inr (t, ps)"
  shows "jget t ''prefill_continues'' = JBool True \<and>
     (\<exists>created. body = decode_body payload ps (od_set ''prefill_created'' created (od_del ''eldr_sig'' t)))"
proof -
  define c where "c = \<lparr>c_payload = payload,
       c_result = (case result of JObj d \<Rightarrow> od_set ''kv_transfer_params'' (JObj (od_del ''eldr_sig'' t)) d | _ \<Rightarrow> []),
       c_transfer = od_del ''eldr_sig'' t, c_prompt = ps, c_signature = jget t ''eldr_sig'',
       c_continues = (jget t ''prefill_continues'' = JBool True), c_stream = truthy (jget payload ''stream'')\<rparr>"
  have acc: "accept_prefill env now payload result a =
      (if c_stream c then (WaitStream c, a, [Accepted (od_del ''eldr_sig'' t) ps])
       else let (ph, a', acts) = continue_request env now c a in (ph, a', Accepted (od_del ''eldr_sig'' t) ps # acts))" for now a
    by (simp add: accept_prefill_def u c_def Let_def)
  obtain now a ph a' acts url where "continue_request env now c a = (ph, a', acts)" "PostDecode url body \<in> set acts"
    using posted unfolding decode_posted_def acc by (auto simp: continue_not_stream split: if_splits prod.splits)
  from continue_posts [OF this] show ?thesis by (simp add: c_def)
qed

text \<open>What the prefiller's scheduler leaves in a request whose first token was sampled.\<close>

lemma first_token_update:
  assumes upd: "update_request_with_output sp mml [t] r = Inr (kept, stopped, r1)"
    and r: "kv_transfer_params r = Some p" "truthy (jget p ''prefill_first'')" "output_token_ids r = []"
  shows "kept = [t] \<and> stopped \<and> output_token_ids r1 = [t] \<and> all_token_ids r1 = all_token_ids r @ [t] \<and>
     nreq.num_prompt_tokens r1 = nreq.num_prompt_tokens r \<and> max_tokens r1 = max_tokens r \<and>
     (kv_transfer_params r1 = Some p \<or>
      kv_transfer_params r1 = Some (od_set ''prefill_continues'' (JBool True) p) \<and> (min_tokens sp \<le> max_tokens r \<longrightarrow> 1 < max_tokens r))"
proof -
  have p: "p \<noteq> []" using r(2) by (auto simp: jget_or_def)
  define r0 where "r0 = append_token t r"
  have r0: "output_token_ids r0 = [t]" "all_token_ids r0 = all_token_ids r @ [t]" "kv_transfer_params r0 = Some p"
    "nreq.num_prompt_tokens r0 = nreq.num_prompt_tokens r" "max_tokens r0 = max_tokens r"
    using r by (simp_all add: r0_def append_token_def)
  obtain st r2 where c: "check_stop sp mml r0 = Inr (st, r2)" using upd by (auto simp: r0_def res_simps)
  have same: "output_token_ids r2 = [t]" "all_token_ids r2 = all_token_ids r @ [t]" "kv_transfer_params r2 = Some p"
    "nreq.num_prompt_tokens r2 = nreq.num_prompt_tokens r" "max_tokens r2 = max_tokens r"
    using c r0 by (auto simp: check_stop_def Let_def split: if_splits option.splits)
  have go: "1 < max_tokens r" if "\<not> st" "min_tokens sp \<le> max_tokens r"
    using c r0 that by (auto simp: check_stop_def Let_def split: if_splits option.splits)
  have "stop_prefill_first (st, r2) = (True, if st then r2
      else r2\<lparr>kv_transfer_params := Some (od_set ''prefill_continues'' (JBool True) p), status := FINISHED_LENGTH_CAPPED\<rparr>)"
    using same(3) p r(2) by (simp add: stop_prefill_first_def)
  then have "kept = [t] \<and> stopped \<and> r1 = (if st then r2
      else r2\<lparr>kv_transfer_params := Some (od_set ''prefill_continues'' (JBool True) p), status := FINISHED_LENGTH_CAPPED\<rparr>)"
    using upd c by (auto simp: r0_def res_simps)
  then show ?thesis using same go by (cases st) auto
qed

text \<open>The description of a finished producer request.\<close>

lemma finished_producer:
  assumes fin: "request_finished expiry eldr i ids h n = Inr ((delay, Some kvt), h', n')"
    and p: "kv_transfer_params (h i) = Some p" "truthy (jget p ''do_remote_decode'')" "truthy (jget p ''prefill_first'')"
    and out: "output_token_ids (h i) = [t]"
  shows "od_get kvt ''do_remote_prefill'' = Some (JBool True) \<and> od_get kvt ''prefill_first_token_id'' = Some (JInt t) \<and>
     od_get kvt ''prefill_prompt_tokens'' = Some (JInt (nreq.num_prompt_tokens (h i))) \<and>
     od_get kvt ''prefill_continues'' = Some (jget_or (JBool False) p ''prefill_continues'') \<and> od_get kvt ''prefill_first'' = None \<and>
     od_get kvt ''eldr_sig'' = (if delay \<and> eldr then map_option (\<lambda>s. JStr (b64encode s)) (eldr_signature (h i)) else None)"
proof -
  have "p \<noteq> []" using p(2) by (auto simp: jget_or_def)
  then show ?thesis
    using fin p out
    by (auto simp: request_finished_def handoff_fields_def Let_def res_simps split: if_splits option.splits)
qed

lemma settle_producer:
  assumes "settle_continues stop kvt = Inr kvt'" "od_get kvt ''prefill_first_token_id'' = Some v"
    and "od_get kvt ''prefill_continues'' = Some (JBool b)"
  shows "kvt' = od_set ''prefill_continues'' (JBool (b \<and> \<not> stop)) kvt"
proof -
  have "''prefill_first_token_id'' \<in> set (od_keys kvt)" using assms(2) od_get_None [of kvt "''prefill_first_token_id''"] by auto
  moreover have "kvt \<noteq> []" using assms(2) by auto
  ultimately show ?thesis using assms(1,3) by (cases b) (simp_all add: settle_continues_def jitem_def)
qed

text \<open>A decoder and a sampling configuration the hand-off supports.\<close>

definition handoff_supported :: "handoff_config \<Rightarrow> bool" where
  "handoff_supported cfg \<longleftrightarrow> hc_connector cfg = Some ''NixlConnector'' \<and> \<not> hc_speculative cfg \<and> hc_pp_size cfg = 1 \<and>
     \<not> hc_v2_runner cfg \<and> \<not> hc_encoder_decoder cfg \<and> \<not> hc_hybrid cfg \<and> \<not> hc_logits_processors cfg"

definition plain_params :: "sampling_params \<Rightarrow> bool" where
  "plain_params p \<longleftrightarrow> sp_n p = 1 \<and> \<not> sp_logprobs p \<and> \<not> sp_prompt_logprobs p \<and> \<not> sp_structured p \<and> \<not> sp_thinking_budget p"

lemma seeded_accepted:
  assumes cfg: "handoff_supported cfg" "plain_params p" "0 \<le> k" "k < hc_vocab_size cfg" "prompt \<noteq> []" "sp_max_tokens p = Some m" "1 < m"
    and x: "extra_args p = Some [(''kv_transfer_params'', JObj x)]" "od_get x ''do_remote_prefill'' = Some (JBool True)"
      "od_get x ''prefill_first'' = None" "od_get x ''prefill_first_token_id'' = Some (JInt k)"
      "od_get x ''prefill_prompt_tokens'' = Some (JInt (int (length prompt)))" "od_get x ''prefill_continues'' = Some (JBool True)"
  shows "validate_prefill_first cfg (Some p) (Some prompt) False = Inr () \<and>
     (\<exists>r. request_init rid p prompt False = Inr r \<and> all_token_ids r = prompt @ [k] \<and> output_token_ids r = [k])"
proof -
  have t: "transfer_params (Some p) = JObj x" by (simp add: transfer_params_def x(1) jget_or_def)
  have f: "first_token_ids (Some p) = Inr [JInt k]" by (simp add: first_token_ids_def t Let_def jget_or_def x(4))
  have v: "validate_seeded cfg p x prompt (JInt k) = Inr ()"
    using cfg(3,4,6,7) by (simp add: validate_seeded_def jget_or_def x)
  have "validate_prefill_first cfg (Some p) (Some prompt) False = Inr ()"
    using cfg(1,2,5) v unfolding handoff_supported_def plain_params_def
    by (simp add: validate_prefill_first_def t f Let_def jget_or_def x(3))
  moreover have "\<exists>r. request_init rid p prompt False = Inr r \<and> all_token_ids r = prompt @ [k] \<and> output_token_ids r = [k]"
    by (simp add: request_init_def cfg(6) x(1) f Let_def jget_or_def append_token_def)
  ultimately show ?thesis by blast
qed

lemma unpack_accepts:
  assumes d: "jget d ''kv_transfer_params'' = JObj t" "jget d ''choices'' = JArr [JObj ch]"
    and ch: "jget ch ''token_ids'' = JArr [JInt k]" "jget ch ''prompt_token_ids'' = JArr (map JInt prompt)"
    and t: "od_get t ''prefill_first_token_id'' = Some (JInt k)" "od_get t ''prefill_prompt_tokens'' = Some (JInt (int (length prompt)))"
      "od_get t ''prefill_continues'' = Some (JBool b)"
  shows "unpack_prefill (JObj d) = Inr (t, map JInt prompt)"
proof -
  have c: "jget_or (JArr []) d ''choices'' = JArr [JObj ch]" using d(2) by (auto simp: jget_or_def split: option.splits)
  show ?thesis by (simp add: unpack_prefill_def c d ch t jget_or_def [of _ t] Let_def is_int_def is_bool_def)
qed

text \<open>
  C7. A continued prefill is accepted by the decoder and goes on from the same history. Take a
  prefill request the proxy posted. Its prefiller samples one token, the scheduler cuts the request
  there, and the connector and the output processor describe it. Then the proxy accepts the
  description; and whenever the proxy posts to a decoder for it, that request carries the prompt
  the prefiller ran, passes the decoder's checks (given a supported decoder with the prefiller's
  vocabulary and token budget), and the decoder's request starts with exactly the prefiller's
  tokens: the prompt and the one sampled token.
\<close>

theorem handoff_accepted:
  assumes sent: "od_get (prefill_body payload rid) ''kv_transfer_params'' = Some (JObj p)"
    and r: "kv_transfer_params r = Some p" "output_token_ids r = []" "all_token_ids r = prompt"
      "nreq.num_prompt_tokens r = int (length prompt)" "min_tokens sp \<le> max_tokens r"
    and upd: "update_request_with_output sp mml [t] r = Inr (kept, stopped, h i)"
    and fin: "request_finished expiry eldr i ids h n = Inr ((delay, Some kvt), h', n')"
    and settle: "settle_continues finish_is_stop kvt = Inr kvt'"
    and d: "jget d ''kv_transfer_params'' = JObj kvt'" "jget d ''choices'' = JArr [JObj ch]"
      "jget ch ''token_ids'' = JArr [JInt t]" "jget ch ''prompt_token_ids'' = JArr (map JInt prompt)"
  shows "unpack_prefill (JObj d) = Inr (kvt', map JInt prompt) \<and>
     (\<forall>body x cfg q rid2.
        decode_posted env payload (JObj d) body \<and> od_get body ''kv_transfer_params'' = Some (JObj x) \<and>
        extra_args q = Some [(''kv_transfer_params'', JObj x)] \<and> sp_max_tokens q = Some (max_tokens r) \<and>
        plain_params q \<and> handoff_supported cfg \<and> 0 \<le> t \<and> t < hc_vocab_size cfg \<and> prompt \<noteq> [] \<longrightarrow>
        od_get body ''prompt'' = Some (JArr (map JInt prompt)) \<and>
        validate_prefill_first cfg (Some q) (Some prompt) False = Inr () \<and>
        (\<exists>r2. request_init rid2 q prompt False = Inr r2 \<and> all_token_ids r2 = all_token_ids (h i) \<and>
           output_token_ids r2 = output_token_ids (h i)))"
proof -
  have p: "jget p ''do_remote_decode'' = JBool True" "jget p ''prefill_first'' = JBool True" "od_get p ''prefill_continues'' = None"
    using sent by (auto simp: prefill_body_def od_simps jget_or_def)
  define q1 where "q1 = the (kv_transfer_params (h i))"
  have u: "output_token_ids (h i) = [t]" "all_token_ids (h i) = prompt @ [t]" "nreq.num_prompt_tokens (h i) = int (length prompt)"
    and q1: "kv_transfer_params (h i) = Some q1" "q1 = p \<or> q1 = od_set ''prefill_continues'' (JBool True) p \<and> 1 < max_tokens r"
    using first_token_update [OF upd r(1) _ r(2)] p(2) r(3-5) by (auto simp: q1_def)
  have q1': "truthy (jget q1 ''do_remote_decode'')" "truthy (jget q1 ''prefill_first'')"
    using q1(2) p(1,2) by (auto simp: jget_or_def od_simps)
  define go where "go = (q1 \<noteq> p)"
  have cont: "jget_or (JBool False) q1 ''prefill_continues'' = JBool go"
  proof (cases go)
    case True
    then show ?thesis using q1(2) by (simp add: go_def jget_or_def od_simps)
  next
    case False
    then show ?thesis using p(3) by (simp add: go_def jget_or_def)
  qed
  note k = finished_producer [OF fin q1(1) q1' u(1), unfolded cont u(3)]
  then have "kvt' = od_set ''prefill_continues'' (JBool (go \<and> \<not> finish_is_stop)) kvt"
    using settle by (intro settle_producer) auto
  then have kv: "od_get kvt' key = (if key = ''prefill_continues'' then Some (JBool (go \<and> \<not> finish_is_stop)) else od_get kvt key)" for key
    by (simp add: od_simps)
  have unpack: "unpack_prefill (JObj d) = Inr (kvt', map JInt prompt)"
    using k by (intro unpack_accepts [OF d]) (simp_all add: kv)
  have "od_get body ''prompt'' = Some (JArr (map JInt prompt)) \<and> validate_prefill_first cfg (Some q) (Some prompt) False = Inr () \<and>
        (\<exists>r2. request_init rid2 q prompt False = Inr r2 \<and> all_token_ids r2 = all_token_ids (h i) \<and> output_token_ids r2 = output_token_ids (h i))"
    if post: "decode_posted env payload (JObj d) body" and x: "od_get body ''kv_transfer_params'' = Some (JObj x)"
      and q: "extra_args q = Some [(''kv_transfer_params'', JObj x)]" "sp_max_tokens q = Some (max_tokens r)" "plain_params q"
      and cfg: "handoff_supported cfg" "0 \<le> t" "t < hc_vocab_size cfg" "prompt \<noteq> []" for body x cfg q rid2
  proof -
    obtain created where go': "jget kvt' ''prefill_continues'' = JBool True"
      and b: "body = decode_body payload (map JInt prompt) (od_set ''prefill_created'' created (od_del ''eldr_sig'' kvt'))"
      using decode_posted_body [OF post unpack] by blast
    have "go" using go' by (simp add: jget_or_def kv)
    then have m: "1 < max_tokens r" using q1(2) by (simp add: go_def)
    have x': "x = od_set ''prefill_created'' created (od_del ''eldr_sig'' kvt')" using x b by (simp add: decode_body_def od_simps)
    have "od_get body ''prompt'' = Some (JArr (map JInt prompt))" using b by (simp add: decode_body_def od_simps)
    moreover have "od_get x ''prefill_continues'' = Some (JBool True)" using go' by (auto simp: x' od_simps jget_or_def split: option.splits)
    ultimately show ?thesis
      using seeded_accepted [OF cfg(1) q(3) cfg(2-4) q(2) m q(1), of rid2] k by (simp add: x' od_simps kv u)
  qed
  with unpack show ?thesis by blast
qed

section \<open>The signature from the kernels to the router\<close>

text \<open>The two codecs a signature passes through, as one interface: what is encoded can be read back.\<close>

locale codec =
  fixes enc :: "'a \<Rightarrow> 'b" and dec :: "'b \<Rightarrow> 'e + 'c" and view :: "'a \<Rightarrow> 'c"
  assumes dec_enc: "dec (enc x) = Inr (view x)"
begin

lemma enc_inj: "enc x = enc y \<Longrightarrow> view x = view y"
  using dec_enc [of x] dec_enc [of y] by simp

lemma dec_then: "dec (enc x) \<noteq> Inl e \<and> res_bind (dec (enc x)) f = f (view x)"
  by (simp add: dec_enc)

end

interpretation b64: codec "\<lambda>bs. JStr (b64encode bs)" b64decode "\<lambda>bs. bs"
  by unfold_locales (rule b64decode_encode)

interpretation counts: codec tobytes frombuffer_i2 "\<lambda>row. map sint (concat row)"
  by unfold_locales (simp add: tobytes_def frombuffer_le16)

lemma pending_get:
  assumes "make_pending rids counts = Inr p" "finish_synchronously p = Inr (d, p')" "distinct (filter (\<lambda>x. x \<noteq> None) rids)"
    and "j < length rids" "rids ! j = Some rid"
  shows "od_get d rid = Some (tobytes (counts ! j))"
proof -
  have p: "p = \<lparr>p_req_ids = rids, p_counts = Some counts, p_host = None\<rparr>" "length counts = length rids"
    using assms(1) by (auto simp: make_pending_def split: if_splits)
  have d: "d = fold (\<lambda>(rid, row) d. case rid of None \<Rightarrow> d | Some r \<Rightarrow> od_set r (tobytes row) d) (zip rids counts) []"
    using assms(2) by (simp add: finish_synchronously_def enqueue_copy_def finish_after_sync_def p)
  have "(Some rid, counts ! j) \<in> set (zip rids counts)" using assms(4,5) p(2) by (metis in_set_zip fst_conv snd_conv)
  then show ?thesis unfolding d using assms(3) p(2) by (intro fold_rids_mem) simp_all
qed

definition prompt_count :: "nat list list list \<Rightarrow> nat \<Rightarrow> nat \<Rightarrow> nat" where
  "prompt_count P l e = length (filter (\<lambda>tk. e \<in> set (tk ! l)) P)"

text \<open>What the proxy reads back from a row of counters.\<close>

lemma decode_row:
  assumes env: "e_b64decode env = b64decode" "\<forall>bs. e_frombuffer env (JStr ''<i2'') bs = res_bind (frombuffer_i2 bs) (\<lambda>ns. Inr (map emb ns))"
    and emb: "\<forall>m. 0 \<le> m \<longrightarrow> \<not> np_lt (e_np env) (emb m) (np_zero (e_np env)) \<and> np_isfinite (e_np env) (emb m)"
    and cd: "jget_or (JStr ''<i2'') (cd_json cd) ''sig_dtype'' = JStr ''<i2''" "jitem (cd_json cd) ''L'' = Inr (JInt (int L))"
      "jitem (cd_json cd) ''e'' = Inr (JInt (int E))"
    and row: "length (concat row) = L * E" "0 < L" "0 < E" "map sint (concat row) = ns" "\<forall>m \<in> set ns. 0 \<le> m"
  shows "decode_signature env (Some cd) (JStr (b64encode (tobytes row))) = Inr (Nd [L, E] (map emb ns))"
proof -
  have "tobytes row \<noteq> []" using row(1-3) by (cases "concat row") (auto simp: tobytes_def le16_def)
  then have t: "truthy (JStr (b64encode (tobytes row)))" by simp
  have b: "e_b64decode env (JStr (b64encode (tobytes row))) = Inr (tobytes row)" by (simp add: env(1) b64.dec_enc)
  have f: "e_frombuffer env (JStr ''<i2'') (tobytes row) = Inr (map emb ns)" by (simp add: env(2) counts.dec_enc row(4))
  have ok: "\<not> list_ex (\<lambda>c. np_lt (e_np env) c (np_zero (e_np env))) (map emb ns)" "list_all (np_isfinite (e_np env)) (map emb ns)"
    using emb row(5) by (auto simp: list_ex_iff list_all_iff)
  have l: "int (length (map emb ns)) = int L * int E" using row(1,4) by (metis length_map of_nat_mult)
  show ?thesis unfolding decode_signature_def Let_def using t b f ok l cd by simp
qed


section \<open>Witnesses\<close>

text \<open>The example proxy posts to its first decoder.\<close>

lemma example_posts:
  assumes u: "unpack_prefill (JObj d) = Inr (t, ps)" and t: "jget t ''prefill_continues'' = JBool True"
    and created: "od_get d ''created'' = Some v"
  shows "decode_posted ex_env ex_payload (JObj d) (decode_body ex_payload ps (od_set ''prefill_created'' v (od_del ''eldr_sig'' t)))"
proof -
  have c: "choose_decode ex_env 0 sg ex_payload ex_app =
      (Inr ''http://d:1'', ex_app\<lparr>decode_router := BaselineR \<lparr>b_policy = RR, b_workers = 2, b_rng = 0, b_next = 1\<rparr>\<rparr>)" for sg
    by (simp add: choose_decode_def ex_app_def router_select_def baseline_select_def py_nth_def Let_def)
  have w: "write_capture ex_env sg ex_app = Inr ex_app" for sg by (simp add: write_capture_def ex_app_def)
  have s: "truthy (jget ex_payload ''stream'') = False" by (simp add: ex_payload_def jget_or_def)
  have "\<exists>ph a' acts url. accept_prefill ex_env 0 ex_payload (JObj d) ex_app = (ph, a', acts) \<and>
      PostDecode url (decode_body ex_payload ps (od_set ''prefill_created'' v (od_del ''eldr_sig'' t))) \<in> set acts"
    by (simp add: accept_prefill_def u t s continue_request_def w c Let_def jitem_def od_simps created)
  then show ?thesis unfolding decode_posted_def by blast
qed

definition demo_nixl :: "nat nixl" where
  "demo_nixl = (case make_nixl demo_args of Inr n \<Rightarrow> n | Inl _ \<Rightarrow> undefined)"

lemma demo_nixl_fields:
  "engine_id demo_nixl = ''d''" "side_channel_host demo_nixl = ''h''" "side_channel_port demo_nixl = 5600" "tp_size demo_nixl = 1"
  "is_hma_required demo_nixl = False" "bidirectional demo_nixl = False"
  by (simp_all add: demo_nixl_def make_nixl_def demo_args_def)

definition demo_stop :: stop_params where
  "demo_stop = \<lparr>min_tokens = 0, eos_token_id = None, stop_token_ids = [], repetition_detection = None\<rparr>"

definition demo_prefill_params :: obj where
  "demo_prefill_params = [(''do_remote_decode'', JBool True), (''do_remote_prefill'', JBool False),
     (''transfer_id'', JStr ''xfer-r''), (''prefill_first'', JBool True)]"

definition demo_prefilled :: "bytes option \<Rightarrow> nreq" where
  "demo_prefilled sig = (append_token 5 (demo_nreq ''r'' demo_prefill_params))\<lparr>status := FINISHED_LENGTH_CAPPED,
     kv_transfer_params := Some (od_set ''prefill_continues'' (JBool True) demo_prefill_params), eldr_signature := sig\<rparr>"

definition demo_kvt :: "obj" where
  "demo_kvt = [(''do_remote_prefill'', JBool True), (''do_remote_decode'', JBool False), (''remote_block_ids'', jblocks [[4]]),
     (''remote_engine_id'', JStr ''d''), (''remote_request_id'', JStr ''r''), (''remote_host'', JStr ''h''), (''remote_port'', JInt 5600),
     (''tp_size'', JInt 1), (''remote_num_tokens'', JInt 0), (''prefill_first_token_id'', JInt 5), (''prefill_prompt_tokens'', JInt 2),
     (''prefill_continues'', JBool True)]"

lemma demo_finished:
  "request_finished 0 False 0 [[4]] (\<lambda>_. demo_prefilled sig) demo_nixl =
     Inr ((True, Some demo_kvt), \<lambda>_. demo_prefilled sig, demo_nixl\<lparr>need_send := od_set ''r'' 0 (need_send demo_nixl)\<rparr>)"
  by (simp add: request_finished_def demo_prefilled_def append_token_def demo_nreq_def demo_prefill_params_def demo_nixl_fields
      get_sw_clipped_blocks_def handoff_fields_def demo_kvt_def jget_or_def Let_def)

definition demo_decoder :: handoff_config where
  "demo_decoder = \<lparr>hc_connector = Some ''NixlConnector'', hc_speculative = False, hc_pp_size = 1, hc_v2_runner = False,
     hc_encoder_decoder = False, hc_hybrid = False, hc_logits_processors = False, hc_vocab_size = 10\<rparr>"

definition demo_sampling :: "obj \<Rightarrow> sampling_params" where
  "demo_sampling x = \<lparr>extra_args = Some [(''kv_transfer_params'', JObj x)], sp_n = 1, sp_logprobs = False, sp_prompt_logprobs = False,
     sp_structured = False, sp_thinking_budget = False, sp_max_tokens = Some 8\<rparr>"

theorem handoff_accepted_witness:
  "\<exists>d body x. unpack_prefill (JObj d) = Inr (demo_kvt, [JInt 1, JInt 2]) \<and> decode_posted ex_env ex_payload (JObj d) body \<and>
     od_get body ''kv_transfer_params'' = Some (JObj x) \<and>
     validate_prefill_first demo_decoder (Some (demo_sampling x)) (Some [1, 2]) False = Inr ()"
proof -
  define ch :: obj where "ch = [(''token_ids'', JArr [JInt 5]), (''prompt_token_ids'', JArr [JInt 1, JInt 2])]"
  define d :: obj where "d = [(''created'', JInt 7), (''kv_transfer_params'', JObj demo_kvt), (''choices'', JArr [JObj ch])]"
  have 1: "od_get (prefill_body ex_payload ''r'') ''kv_transfer_params'' = Some (JObj demo_prefill_params)"
    by (simp add: prefill_body_def od_simps demo_prefill_params_def)
  have 2: "update_request_with_output demo_stop 100 [5] (demo_nreq ''r'' demo_prefill_params) = Inr ([5], True, demo_prefilled None)"
    by (simp add: check_stop_def stop_prefill_first_def demo_stop_def append_token_def demo_nreq_def demo_prefilled_def
        demo_prefill_params_def jget_or_def Let_def)
  have 3: "settle_continues False demo_kvt = Inr demo_kvt" by (simp add: settle_continues_def demo_kvt_def jitem_def)
  have 4: "jget d ''kv_transfer_params'' = JObj demo_kvt" "jget d ''choices'' = JArr [JObj ch]" "jget ch ''token_ids'' = JArr [JInt 5]"
    "jget ch ''prompt_token_ids'' = JArr (map JInt [1, 2])" by (simp_all add: d_def ch_def jget_or_def)
  have r: "kv_transfer_params (demo_nreq ''r'' demo_prefill_params) = Some demo_prefill_params"
    "output_token_ids (demo_nreq ''r'' demo_prefill_params) = []" "all_token_ids (demo_nreq ''r'' demo_prefill_params) = [1, 2]"
    "nreq.num_prompt_tokens (demo_nreq ''r'' demo_prefill_params) = int (length [1, 2 :: int])"
    "min_tokens demo_stop \<le> max_tokens (demo_nreq ''r'' demo_prefill_params)" by (simp_all add: demo_nreq_def demo_stop_def)
  note main = handoff_accepted [OF 1 r 2 demo_finished [of None] 3 4, of ex_env]
  define x where "x = od_set ''prefill_created'' (JInt 7) (od_del ''eldr_sig'' demo_kvt)"
  define body where "body = decode_body ex_payload [JInt 1, JInt 2] x"
  have u: "unpack_prefill (JObj d) = Inr (demo_kvt, [JInt 1, JInt 2])" using main by simp
  have p: "decode_posted ex_env ex_payload (JObj d) body"
    unfolding body_def x_def by (rule example_posts [OF u]) (simp_all add: demo_kvt_def d_def jget_or_def)
  have b: "od_get body ''kv_transfer_params'' = Some (JObj x)" by (simp add: body_def decode_body_def od_simps)
  have "validate_prefill_first demo_decoder (Some (demo_sampling x)) (Some [1, 2]) False = Inr ()"
    using main [THEN conjunct2, rule_format, of body x "demo_sampling x" demo_decoder] p b
    by (simp add: demo_sampling_def plain_params_def handoff_supported_def demo_decoder_def demo_nreq_def)
  with u p b show ?thesis by blast
qed

definition demo_route_env :: "(int, nat) proxy_env" where
  "demo_route_env = ex_env\<lparr>e_b64decode := b64decode, e_frombuffer := (\<lambda>_. frombuffer_i2)\<rparr>"

definition demo_counts :: "16 word list list list" where
  "demo_counts = [[[sum_row ex_cells [3] 2 False 2 0 0, sum_row ex_cells [3] 2 False 2 0 1]]]"

definition demo_centroids :: "int centroid_data" where
  "demo_centroids = \<lparr>cd_json = [(''L'', JInt 1), (''e'', JInt 2)], centroid_matrix = None, cd_mask = None, cd_idf = None\<rparr>"


end
