(* ===== verification/Capture_Control.thy ===== *)
theory Capture_Control
  imports Pool_Safety Signature Json
begin

text \<open>
  Switching expert capture on and off between the phases of an experiment
  (\<^verbatim>\<open>vllm/eldr/control.py\<close>): the switch of a worker with its rollback, the checks of worker and
  engine, and the phase change that empties the prefix cache first. Routers are the list of their
  \<^verbatim>\<open>capture_fn\<close> attributes; what calling a router's setter does, including raising an exception
  after a partial effect, is a parameter.
\<close>

section \<open>The switch\<close>

record 'c capture_env =
  sig_mod :: sig_state
  sig_enabled :: bool
  tr_enabled :: bool
  environment :: "(string, string) odict"
  router_fns :: "'c option list"

record 'c CaptureSwitch =
  callbacks :: "'c list"
  switch_enabled :: bool
  transitions :: nat

definition str_bool :: "bool \<Rightarrow> string" where
  "str_bool b = (if b then ''1'' else ''0'')"

definition make_switch :: "'c capture_env \<Rightarrow> 'c CaptureSwitch res" where
  "make_switch env =
     (if \<not> sig_enabled env \<or> \<not> tr_enabled env \<or> od_get (environment env) ''ELDR'' \<noteq> Some ''1'' \<or> router_fns env = []
        \<or> None \<in> set (router_fns env)
      then Inl (ValueError ''Initial fully enabled native capture required'')
      else Inr \<lparr>callbacks = map the (router_fns env), switch_enabled = True, transitions = 0\<rparr>)"

type_synonym 'c setter = "nat \<Rightarrow> 'c option \<Rightarrow> 'c option \<Rightarrow> py_error option \<times> 'c option"

text \<open>\<^verbatim>\<open>BaseRouter.set_capture_fn\<close>.\<close>

definition plain_setter :: "'c setter" where
  "plain_setter i cb old = (None, cb)"

fun set_callbacks :: "'c setter \<Rightarrow> bool \<Rightarrow> nat \<Rightarrow> 'c list \<Rightarrow> 'c option list \<Rightarrow> py_error option \<times> 'c option list" where
  "set_callbacks setter b i (cb # cbs) (f # fs) =
     (case setter i (if b then Some cb else None) f of
        (Some e, f') \<Rightarrow> (Some e, f' # fs)
      | (None, f') \<Rightarrow> (let (r, fs') = set_callbacks setter b (Suc i) cbs fs in (r, f' # fs')))"
| "set_callbacks setter b i _ fs = (None, fs)"

definition expected_fns :: "'c CaptureSwitch \<Rightarrow> nat \<Rightarrow> 'c option list" where
  "expected_fns sw n = (if switch_enabled sw then map Some (callbacks sw) else replicate n None)"

fun restore_fns :: "'c option list \<Rightarrow> 'c option list \<Rightarrow> 'c option list" where
  "restore_fns (f # fs) (e # es) = e # restore_fns fs es"
| "restore_fns fs _ = fs"

record switch_status =
  st_enabled :: bool
  st_callbacks :: nat
  st_signature_enabled :: bool
  st_transport_enabled :: bool
  st_environment :: string
  st_transitions :: nat
  st_resident :: bool

definition switch_report :: "'c CaptureSwitch \<Rightarrow> 'c capture_env \<Rightarrow> switch_status res" where
  "switch_report sw env =
     (case od_get (environment env) ''ELDR'' of
        None \<Rightarrow> Inl KeyError
      | Some v \<Rightarrow> Inr \<lparr>st_enabled = switch_enabled sw, st_callbacks = length (filter (\<lambda>f. f \<noteq> None) (router_fns env)),
          st_signature_enabled = sig_enabled env, st_transport_enabled = tr_enabled env, st_environment = v,
          st_transitions = transitions sw, st_resident = (sig_ESC (sig_mod env) \<noteq> None)\<rparr>)"

definition apply_switch :: "'c setter \<Rightarrow> bool \<Rightarrow> 'c CaptureSwitch \<Rightarrow> 'c capture_env \<Rightarrow> py_error option \<times> 'c CaptureSwitch \<times> 'c capture_env" where
  "apply_switch setter b sw env =
     (let old_refs = sig_REFS (sig_mod env); old_nt = sig_NT (sig_mod env); was = switch_enabled sw;
          (raised, fs) = set_callbacks setter b 0 (callbacks sw) (router_fns env) in
      case raised of
        None \<Rightarrow> (None, sw\<lparr>switch_enabled := b, transitions := Suc (transitions sw)\<rparr>,
          env\<lparr>router_fns := fs, sig_enabled := b, tr_enabled := b, environment := od_set ''ELDR'' (str_bool b) (environment env),
              sig_mod := (sig_mod env)\<lparr>sig_REFS := replicate (sig_L (sig_mod env)) None, sig_NT := 0\<rparr>\<rparr>)
      | Some e \<Rightarrow> (Some e, sw,
          env\<lparr>router_fns := restore_fns fs (expected_fns sw (length fs)), sig_enabled := was, tr_enabled := was,
              environment := od_set ''ELDR'' (str_bool was) (environment env),
              sig_mod := (sig_mod env)\<lparr>sig_REFS := old_refs, sig_NT := old_nt\<rparr>\<rparr>))"

definition set_enabled ::
  "'c setter \<Rightarrow> json \<Rightarrow> 'c CaptureSwitch \<Rightarrow> 'c capture_env \<Rightarrow> switch_status res \<times> 'c CaptureSwitch \<times> 'c capture_env" where
  "set_enabled setter v sw env =
     (case v of
        JBool b \<Rightarrow>
          if switch_enabled sw \<noteq> sig_enabled env \<or> switch_enabled sw \<noteq> tr_enabled env
            \<or> od_get (environment env) ''ELDR'' \<noteq> Some (str_bool (switch_enabled sw))
            \<or> list_ex (\<lambda>(f, cb). f \<noteq> cb) (zip (router_fns env) (expected_fns sw (length (router_fns env))))
          then (Inl (ValueError ''Capture state changed outside phase controller''), sw, env)
          else if b \<noteq> switch_enabled sw then
            (case apply_switch setter b sw env of
               (Some e, sw', env') \<Rightarrow> (Inl e, sw', env')
             | (None, sw', env') \<Rightarrow> (switch_report sw' env', sw', env'))
          else (switch_report sw env, sw, env)
      | _ \<Rightarrow> (Inl (ValueError ''Explicit boolean required''), sw, env))"

section \<open>Checks\<close>

record control_config =
  cc_async_scheduling :: json
  cc_prefix_caching :: json
  cc_chunked_prefill :: json
  cc_disable_hybrid :: json
  cc_enforce_eager :: json
  cc_tp :: json
  cc_pp :: json
  cc_dp :: json
  cc_expert_parallel :: json
  cc_executor :: json
  cc_speculative :: json
  cc_transfer :: "(string \<times> string) option"
  cc_num_gpu_blocks :: json
  cc_block_size :: json
  cc_max_model_len :: json

definition in_range :: "json \<Rightarrow> int \<Rightarrow> int \<Rightarrow> bool" where
  "in_range v lo hi = (case v of JInt n \<Rightarrow> lo \<le> n \<and> n \<le> hi | _ \<Rightarrow> False)"

definition at_least :: "json \<Rightarrow> int \<Rightarrow> bool" where
  "at_least v lo = (case v of JInt n \<Rightarrow> lo \<le> n | _ \<Rightarrow> False)"

definition modes :: "string list" where
  "modes = [''on'', ''off'', ''status'']"

text \<open>The process identifiers and the reset flag come from the caller as integers and a boolean.\<close>

definition require_supported :: "control_config \<Rightarrow> string \<Rightarrow> int \<Rightarrow> int \<Rightarrow> bool \<Rightarrow> string \<Rightarrow> unit res" where
  "require_supported c process_name core_pid worker_pid reset mode =
     (if mode \<notin> set modes then Inl (ValueError ''Explicit phase mode required'')
      else if core_pid \<noteq> worker_pid then Inl (ValueError ''Serialized core and worker must be the same process'')
      else if reset \<noteq> (mode \<noteq> ''status'') then Inl (ValueError ''Core must confirm an unforced empty-prefix reset'')
      else if cc_async_scheduling c \<noteq> JBool False \<or> \<not> is_bool (cc_prefix_caching c) \<or> cc_chunked_prefill c \<noteq> JBool False
        \<or> cc_disable_hybrid c \<noteq> JBool True \<or> cc_enforce_eager c \<noteq> JBool True
        \<or> \<not> py_eq (cc_tp c) (JInt 1) \<or> \<not> py_eq (cc_pp c) (JInt 1) \<or> \<not> py_eq (cc_dp c) (JInt 1) \<or> truthy (cc_expert_parallel c)
        \<or> cc_executor c \<noteq> JStr ''uni'' \<or> cc_speculative c \<noteq> JNull
        \<or> cc_transfer c \<noteq> Some (''kv_producer'', ''NixlConnector'') \<or> take 10 process_name \<noteq> ''EngineCore''
      then Inl (ValueError ''Requires synchronous eager UniProc NIXL producer'')
      else if \<not> at_least (cc_num_gpu_blocks c) 1 \<or> \<not> in_range (cc_block_size c) 1 127 \<or> \<not> in_range (cc_max_model_len c) 1 32767
      then Inl (ValueError ''Initialized KV capacity and supported count bounds required'')
      else Inr ())"

text \<open>What the engine core checks of itself: the flags and collections of its scheduler, and the pool.\<close>

record core =
  core_async :: bool
  core_batch_queue :: bool
  core_paused :: bool
  sched_running :: "string list"
  sched_waiting :: "string list"
  sched_skipped_waiting :: "string list"
  sched_requests :: "string list"
  sched_delayed_free :: "string list"
  core_pool :: BlockPool

definition require_empty_core :: "core \<Rightarrow> BlockPool res" where
  "require_empty_core c =
     (if core_async c \<or> core_batch_queue c \<or> core_paused c
      then Inl (ValueError ''Unpaused synchronous serialized core required'')
      else if list_ex (\<lambda>xs. xs \<noteq> []) [sched_running c, sched_waiting c, sched_skipped_waiting c, sched_requests c, sched_delayed_free c]
      then Inl (ValueError ''All generation and retained KV requests must be absent'')
      else
        let p = core_pool c in
        if num_gpu_blocks p < 1 \<or> int (length (blocks p)) \<noteq> num_gpu_blocks p \<or> num_gpu_blocks p - get_num_free_blocks p \<noteq> 1
        then Inl (ValueError ''Only the reserved null KV block may remain used'')
        else Inr p)"

section \<open>Worker and engine\<close>

record worker_status = switch_status +
  ws_pid :: int
  ws_process_name :: string
  ws_layers :: nat
  ws_experts :: nat
  ws_prefix_cache_supported :: bool
  ws_prefix_cache_enabled :: json
  ws_same_process_checked :: bool
  ws_kv_capacity_tokens :: json
  ws_kv_block_size :: json
  ws_max_model_len :: json

definition validate_worker :: "int \<Rightarrow> worker_status \<Rightarrow> string \<Rightarrow> unit res" where
  "validate_worker pid s requested =
     (if ws_pid s \<noteq> pid \<or> \<not> ws_prefix_cache_supported s \<or> \<not> ws_same_process_checked s \<or> ws_layers s < 1
        \<or> st_signature_enabled s \<noteq> st_enabled s \<or> st_transport_enabled s \<noteq> st_enabled s
        \<or> st_environment s \<noteq> str_bool (st_enabled s) \<or> st_callbacks s \<noteq> (if st_enabled s then ws_layers s else 0)
        \<or> (requested \<noteq> ''status'' \<and> st_enabled s \<noteq> (requested = ''on''))
      then Inl (ValueError ''Consistent separately validated same-process worker required'')
      else Inr ())"

text \<open>\<^verbatim>\<open>w_plain\<close> says for each router whether it is an unmodified plain router.\<close>

record 'c capture_worker =
  w_env :: "'c capture_env"
  w_switch :: "'c CaptureSwitch option"
  w_plain :: "bool list"
  w_config :: control_config
  w_pid :: int
  w_process_name :: string

definition worker_switch :: "'c capture_worker \<Rightarrow> 'c CaptureSwitch res" where
  "worker_switch w =
     (case w_switch w of
        Some sw \<Rightarrow> Inr sw
      | None \<Rightarrow>
          let n = length (router_fns (w_env w)) in
          if n \<noteq> sig_L (sig_mod (w_env w)) \<or> n = 0 then Inl (ValueError ''Exactly one router per signature layer required'')
          else if False \<in> set (w_plain w) then Inl (ValueError ''Unmodified plain BaseRouter capture setter required'')
          else make_switch (w_env w))"

definition jmul :: "json \<Rightarrow> json \<Rightarrow> json" where
  "jmul a b = (case (a, b) of (JInt x, JInt y) \<Rightarrow> JInt (x * y) | _ \<Rightarrow> JNull)"

definition worker_report :: "'c capture_worker \<Rightarrow> switch_status \<Rightarrow> worker_status" where
  "worker_report w s = switch_status.extend s
     (worker_status.fields (w_pid w) (w_process_name w) (sig_L (sig_mod (w_env w))) (sig_E (sig_mod (w_env w))) True
        (cc_prefix_caching (w_config w)) True (jmul (cc_num_gpu_blocks (w_config w)) (cc_block_size (w_config w)))
        (cc_block_size (w_config w)) (cc_max_model_len (w_config w)))"

definition worker_capture :: "string \<Rightarrow> int \<Rightarrow> bool \<Rightarrow> 'c capture_worker \<Rightarrow> worker_status res \<times> 'c capture_worker" where
  "worker_capture mode core_pid prefix_reset w =
     (case res_bind (require_supported (w_config w) (w_process_name w) core_pid (w_pid w) prefix_reset mode) (\<lambda>_. worker_switch w) of
        Inl e \<Rightarrow> (Inl e, w)
      | Inr sw \<Rightarrow>
          let (r, sw', env') = set_enabled plain_setter (JBool (if mode = ''status'' then switch_enabled sw else mode = ''on'')) sw (w_env w);
              w' = w\<lparr>w_switch := Some sw', w_env := env'\<rparr>
          in (res_bind r (\<lambda>s. Inr (worker_report w' s)), w'))"

text \<open>
  The executor has one worker in the engine's process, so the collective call is the worker's
  method and its result a list of one. The two fields added to the answer are constants per branch.
\<close>

record phase_status = worker_status +
  ph_generation_empty :: bool
  ph_prefix_reset :: bool

definition capture_with_empty_prefix ::
  "int \<Rightarrow> string \<Rightarrow> core \<Rightarrow> 'c capture_worker \<Rightarrow> phase_status res \<times> core \<times> 'c capture_worker" where
  "capture_with_empty_prefix pid mode c w =
     (if mode \<notin> set modes then (Inl (ValueError ''Explicit capture mode required''), c, w)
      else case require_empty_core c of
        Inl e \<Rightarrow> (Inl e, c, w)
      | Inr _ \<Rightarrow>
          let (before, w1) = worker_capture ''status'' pid False w in
          (case res_bind before (\<lambda>s. res_bind (validate_worker pid s ''status'') (\<lambda>_. Inr s)) of
             Inl e \<Rightarrow> (Inl e, c, w1)
           | Inr s \<Rightarrow>
               if mode = ''status'' then (Inr (worker_status.extend s (phase_status.fields True False)), c, w1)
               else
                 let (ok, p) = reset_prefix_cache (core_pool c); c1 = c\<lparr>core_pool := p\<rparr> in
                 if \<not> ok then (Inl (ValueError ''Unforced prefix-cache reset did not succeed''), c1, w1)
                 else (case require_empty_core c1 of
                   Inl e \<Rightarrow> (Inl e, c1, w1)
                 | Inr _ \<Rightarrow>
                     if list_ex (\<lambda>b. block_hash (heap p b) \<noteq> None) (blocks p)
                     then (Inl (ValueError ''Cached prefix hashes remain after reset''), c1, w1)
                     else
                       let (after, w2) = worker_capture mode pid True w1 in
                       (res_bind after (\<lambda>t. res_bind (validate_worker pid t mode) (\<lambda>_.
                          Inr (worker_status.extend t (phase_status.fields True True)))), c1, w2))))"

section \<open>The switch is atomic\<close>

text \<open>A setter that returns has set the attribute.\<close>

definition setter_ok :: "'c setter \<Rightarrow> bool" where
  "setter_ok setter \<longleftrightarrow> (\<forall>i cb old f. setter i cb old = (None, f) \<longrightarrow> f = cb)"

definition consistent :: "'c CaptureSwitch \<Rightarrow> 'c capture_env \<Rightarrow> bool" where
  "consistent sw env \<longleftrightarrow> sig_enabled env = switch_enabled sw \<and>
     tr_enabled env = switch_enabled sw \<and> od_get (environment env) ''ELDR'' = Some (str_bool (switch_enabled sw)) \<and>
     router_fns env = expected_fns sw (length (callbacks sw))"

lemma expected_length [simp]: "length (expected_fns sw (length (callbacks sw))) = length (callbacks sw)"
  by (simp add: expected_fns_def)

lemma od_set_same: "od_get d k = Some v \<Longrightarrow> od_set k v d = d"
  by (induction d) (auto split: if_splits)

lemma set_callbacks_length: "length (snd (set_callbacks setter b i cbs fs)) = length fs"
  by (induction setter b i cbs fs rule: set_callbacks.induct) (auto split: prod.splits option.splits)

lemma set_callbacks_done:
  assumes "setter_ok setter" "set_callbacks setter b i cbs fs = (None, fs')" "length cbs = length fs"
  shows "fs' = (if b then map Some cbs else replicate (length fs) None)"
  using assms
proof (induction setter b i cbs fs arbitrary: fs' rule: set_callbacks.induct)
  case (1 setter b i cb cbs f fs)
  from 1(3) obtain f' gs where f: "setter i (if b then Some cb else None) f = (None, f')"
    and gs: "set_callbacks setter b (Suc i) cbs fs = (None, gs)" "fs' = f' # gs"
    by (auto split: prod.splits option.splits)
  have "f' = (if b then Some cb else None)" using 1(2) f unfolding setter_ok_def by blast
  moreover have "gs = (if b then map Some cbs else replicate (length fs) None)" using 1(1) [OF f [symmetric] refl 1(2) gs(1)] 1(4) by simp
  ultimately show ?case using gs(2) by simp
qed auto

lemma restore_all: "length es = length fs \<Longrightarrow> restore_fns fs es = es"
  by (induction fs es rule: restore_fns.induct) auto

lemma zip_differs: "length xs = length ys \<Longrightarrow> list_ex (\<lambda>(x, y). x \<noteq> y) (zip xs ys) \<longleftrightarrow> xs \<noteq> ys"
  by (induction xs ys rule: list_induct2) auto

lemma make_switch_consistent: "make_switch env = Inr sw \<Longrightarrow> consistent sw env"
  by (auto simp: make_switch_def consistent_def expected_fns_def str_bool_def comp_def split: if_splits
      intro!: map_idI [symmetric]) (metis option.collapse)

text \<open>A failed application restores everything.\<close>

lemma apply_raises:
  assumes c: "consistent sw env" and a: "apply_switch setter b sw env = (Some e, sw', env')"
  shows "sw' = sw \<and> env' = env \<and> fst (set_callbacks setter b 0 (callbacks sw) (router_fns env)) = Some e"
proof -
  obtain r fs where f: "set_callbacks setter b 0 (callbacks sw) (router_fns env) = (r, fs)" by (metis surj_pair)
  have len: "length fs = length (router_fns env)" using set_callbacks_length [of setter b 0 "callbacks sw" "router_fns env"] f by simp
  have "restore_fns fs (expected_fns sw (length fs)) = router_fns env"
    using c len by (simp add: consistent_def restore_all)
  moreover have "od_set ''ELDR'' (str_bool (switch_enabled sw)) (environment env) = environment env"
    using c by (intro od_set_same) (simp add: consistent_def)
  moreover have "sig_enabled env = switch_enabled sw" "tr_enabled env = switch_enabled sw" using c by (simp_all add: consistent_def)
  ultimately show ?thesis using a by (auto simp: apply_switch_def Let_def f split: option.splits)
qed

lemma apply_done:
  assumes c: "consistent sw env" and ok: "setter_ok setter" and a: "apply_switch setter b sw env = (None, sw', env')"
  shows "consistent sw' env' \<and> switch_enabled sw' = b \<and> callbacks sw' = callbacks sw \<and> transitions sw' = Suc (transitions sw) \<and>
     sig_mod env' = (sig_mod env)\<lparr>sig_REFS := replicate (sig_L (sig_mod env)) None, sig_NT := 0\<rparr>"
proof -
  obtain fs where f: "set_callbacks setter b 0 (callbacks sw) (router_fns env) = (None, fs)"
    using a by (auto simp: apply_switch_def Let_def split: prod.splits option.splits)
  have "fs = (if b then map Some (callbacks sw) else replicate (length (router_fns env)) None)"
    using set_callbacks_done [OF ok f] c by (simp add: consistent_def)
  then show ?thesis using a c by (auto simp: apply_switch_def Let_def f consistent_def expected_fns_def od_simps)
qed

lemma report_consistent:
  assumes "consistent sw env"
  shows "\<exists>s. switch_report sw env = Inr s \<and> st_enabled s = switch_enabled sw \<and> st_transitions s = transitions sw \<and>
     st_callbacks s = (if switch_enabled sw then length (callbacks sw) else 0)"
proof -
  have fns: "router_fns env = expected_fns sw (length (callbacks sw))" using assms by (simp add: consistent_def)
  have "length (filter (\<lambda>f. f \<noteq> None) (router_fns env)) = (if switch_enabled sw then length (callbacks sw) else 0)"
    by (subst fns) (simp add: expected_fns_def filter_map comp_def)
  then show ?thesis using assms by (auto simp: switch_report_def consistent_def)
qed

lemma set_enabled_cases:
  assumes c: "consistent sw env" and ok: "setter_ok setter" and s: "set_enabled setter v sw env = (r, sw', env')"
  obtains (refused) "\<nexists>b. v = JBool b" "r = Inl (ValueError ''Explicit boolean required'')" "sw' = sw" "env' = env"
  | (same) "v = JBool (switch_enabled sw)" "r = switch_report sw env" "sw' = sw" "env' = env"
  | (raised) b e where "v = JBool b" "r = Inl e" "sw' = sw" "env' = env"
      "fst (set_callbacks setter b 0 (callbacks sw) (router_fns env)) = Some e"
  | (switched) "v = JBool (\<not> switch_enabled sw)" "r = switch_report sw' env'" "consistent sw' env'"
      "switch_enabled sw' = (\<not> switch_enabled sw)" "callbacks sw' = callbacks sw" "transitions sw' = Suc (transitions sw)"
      "sig_mod env' = (sig_mod env)\<lparr>sig_REFS := replicate (sig_L (sig_mod env)) None, sig_NT := 0\<rparr>"
proof (cases "\<exists>b. v = JBool b")
  case False
  then show thesis using s refused by (cases v) (auto simp: set_enabled_def)
next
  case True
  then obtain b where b: "v = JBool b" by blast
  have "\<not> list_ex (\<lambda>(f, cb). f \<noteq> cb) (zip (router_fns env) (expected_fns sw (length (router_fns env))))"
    using c by (subst zip_differs) (auto simp: consistent_def)
  then have s': "set_enabled setter v sw env =
      (if b \<noteq> switch_enabled sw then
         (case apply_switch setter b sw env of (Some e, sw', env') \<Rightarrow> (Inl e, sw', env') | (None, sw', env') \<Rightarrow> (switch_report sw' env', sw', env'))
       else (switch_report sw env, sw, env))"
    using c by (simp add: set_enabled_def b consistent_def)
  show thesis
  proof (cases "b = switch_enabled sw")
    case True
    then show thesis using s s' b by (intro same) auto
  next
    case False
    obtain x sw1 env1 where a: "apply_switch setter b sw env = (x, sw1, env1)" by (metis surj_pair)
    show thesis
    proof (cases x)
      case None
      from apply_done [OF c ok a [unfolded None]] show thesis using s s' b False a None by (intro switched) auto
    next
      case (Some e)
      from apply_raises [OF c a [unfolded Some]] show thesis using s s' b False a Some by (intro raised) auto
    qed
  qed
qed

text \<open>Calls with any setters, and capture working on the signature module in between.\<close>

inductive switch_run :: "'c CaptureSwitch \<Rightarrow> 'c capture_env \<Rightarrow> bool" where
  made: "make_switch env = Inr sw \<Longrightarrow> switch_run sw env"
| call: "switch_run sw env \<Longrightarrow> setter_ok setter \<Longrightarrow> set_enabled setter v sw env = (r, sw', env') \<Longrightarrow> switch_run sw' env'"
| captured: "switch_run sw env \<Longrightarrow> switch_run sw (env\<lparr>sig_mod := st\<rparr>)"

lemma switch_run_consistent: "switch_run sw env \<Longrightarrow> consistent sw env"
proof (induction rule: switch_run.induct)
  case (made env sw)
  then show ?case by (rule make_switch_consistent)
next
  case (call sw env setter v r sw' env')
  from call.IH call.hyps(2,3) show ?case by (cases rule: set_enabled_cases) (use call.IH in auto)
next
  case (captured sw env st)
  then show ?case by (simp add: consistent_def)
qed

text \<open>
  C18. The capture switch is atomic. In every state reached by calls with arbitrary setters, failing
  ones included, a call either fails and leaves the switch, all routers, both module flags, the
  environment variable and the pending signature state exactly as they were, and then either the
  argument was not a boolean or a router's setter raised that error; or it succeeds and every router,
  flag and the environment agree with the requested value, and a real change counts one transition
  and drops half-captured signatures but keeps the block counters.
\<close>

theorem capture_switch_atomic:
  assumes "switch_run sw env" "setter_ok setter" "set_enabled setter v sw env = (r, sw', env')"
  shows "case r of
      Inl e \<Rightarrow> sw' = sw \<and> env' = env \<and> ((\<nexists>b. v = JBool b) \<or>
        (\<exists>b. v = JBool b \<and> fst (set_callbacks setter b 0 (callbacks sw) (router_fns env)) = Some e))
    | Inr s \<Rightarrow> v = JBool (st_enabled s) \<and> switch_enabled sw' = st_enabled s \<and> sig_enabled env' = st_enabled s \<and>
        tr_enabled env' = st_enabled s \<and> od_get (environment env') ''ELDR'' = Some (str_bool (st_enabled s)) \<and>
        router_fns env' = (if st_enabled s then map Some (callbacks sw) else replicate (length (callbacks sw)) None) \<and>
        (if st_enabled s = switch_enabled sw then sw' = sw \<and> env' = env
         else transitions sw' = Suc (transitions sw) \<and>
           sig_mod env' = (sig_mod env)\<lparr>sig_REFS := replicate (sig_L (sig_mod env)) None, sig_NT := 0\<rparr>)"
proof -
  note c = switch_run_consistent [OF assms(1)]
  from c assms(2,3) show ?thesis
  proof (cases rule: set_enabled_cases)
    case refused
    then show ?thesis by simp
  next
    case same
    obtain s where "switch_report sw env = Inr s" "st_enabled s = switch_enabled sw" using report_consistent [OF c] by blast
    then show ?thesis using same c by (simp add: consistent_def expected_fns_def split: if_splits)
  next
    case (raised b e)
    then show ?thesis by simp
  next
    case switched
    obtain s where "switch_report sw' env' = Inr s" "st_enabled s = switch_enabled sw'" using report_consistent [OF switched(3)] by blast
    then show ?thesis using switched by (simp add: consistent_def expected_fns_def split: if_splits)
  qed
qed

section \<open>A phase change meets an empty prefix cache\<close>

text \<open>A successful reset of a reachable pool.\<close>

lemma reset_clean:
  assumes "pool_run p H" "reset_prefix_cache p = (True, p')"
  shows "(\<forall>b \<in> set (blocks p). b \<noteq> null_block p \<longrightarrow> H b = 0) \<and> cached_block_hash_to_block p' = []"
proof -
  obtain xs where x: "pool_at p xs {}" "set xs = {b \<in> set (blocks p). b \<noteq> null_block p \<and> H b = 0}"
    using pool_run_free_list [OF assms(1)] by blast
  have "set xs = set (blocks p) - {null_block p}" "cached_block_hash_to_block p' = []"
    using reset_spec [OF x(1)] assms(2) by (auto split: if_splits)
  then show ?thesis unfolding x(2) by auto
qed

lemma lookup_empty: "cached_block_hash_to_block p = [] \<Longrightarrow> 0 \<le> g \<Longrightarrow> g < 2 ^ 32 \<Longrightarrow> get_cached_block bh (g # gs) p = Inr None"
  by (simp add: get_one_block_def make_block_hash_with_group_id_def to_bytes4_def)

text \<open>Asking for the status changes nothing but the switch object that may have been made.\<close>

lemma set_enabled_status: "set_enabled setter (JBool (switch_enabled sw)) sw env = (r, sw', env') \<Longrightarrow> sw' = sw \<and> env' = env"
  by (auto simp: set_enabled_def split: if_splits)

lemma worker_status_env: "worker_capture ''status'' pid reset w = (r, w') \<Longrightarrow> w_env w' = w_env w"
  by (auto simp: worker_capture_def Let_def split: sum.splits prod.splits dest: set_enabled_status)

lemma plain_setter_ok: "setter_ok plain_setter"
  by (simp add: setter_ok_def plain_setter_def)

lemma worker_report_simps [simp]:
  "st_enabled (worker_report w s) = st_enabled s" "st_callbacks (worker_report w s) = st_callbacks s"
  "ws_layers (worker_report w s) = sig_L (sig_mod (w_env w))"
  by (simp_all add: worker_report_def switch_status.defs worker_status.defs)

lemma worker_answer:
  assumes "worker_capture mode pid reset w = (Inr s, w')"
  shows "\<exists>sw. w_switch w' = Some sw \<and> st_enabled s = switch_enabled sw"
  using assms
  by (auto simp: worker_capture_def Let_def switch_report_def set_enabled_def res_simps split: sum.splits prod.splits if_splits option.splits)

definition worker_ok :: "'c capture_worker \<Rightarrow> bool" where
  "worker_ok w \<longleftrightarrow> (\<forall>sw. w_switch w = Some sw \<longrightarrow> consistent sw (w_env w))"

lemma worker_switch_consistent: "worker_ok w \<Longrightarrow> worker_switch w = Inr sw \<Longrightarrow> consistent sw (w_env w)"
  by (auto simp: worker_ok_def worker_switch_def Let_def make_switch_consistent split: option.splits if_splits)

lemma worker_capture_ok:
  assumes ok: "worker_ok w" and step: "worker_capture mode pid reset w = (r, w')"
  shows "worker_ok w'"
proof (cases "res_bind (require_supported (w_config w) (w_process_name w) pid (w_pid w) reset mode) (\<lambda>_. worker_switch w)")
  case (Inl e)
  then show ?thesis using ok step by (simp add: worker_capture_def)
next
  case (Inr sw)
  then have c: "consistent sw (w_env w)" using worker_switch_consistent [OF ok] by (auto simp: res_simps)
  define v where "v = JBool (if mode = ''status'' then switch_enabled sw else mode = ''on'')"
  obtain x sw' env' where s: "set_enabled plain_setter v sw (w_env w) = (x, sw', env')" by (metis surj_pair)
  have "consistent sw' env'" using c plain_setter_ok s by (cases rule: set_enabled_cases) (use c in auto)
  then show ?thesis using step Inr s by (auto simp: worker_capture_def worker_ok_def Let_def v_def)
qed

text \<open>What a phase change that got past its checks has done.\<close>

definition prefix_empty :: "core \<Rightarrow> bool" where
  "prefix_empty c \<longleftrightarrow> sched_running c = [] \<and> sched_waiting c = [] \<and> sched_skipped_waiting c = [] \<and> sched_requests c = [] \<and>
     sched_delayed_free c = [] \<and> cached_block_hash_to_block (core_pool c) = [] \<and>
     (\<forall>b \<in> set (blocks (core_pool c)). block_hash (heap (core_pool c) b) = None)"

lemma phase_cases:
  assumes "capture_with_empty_prefix pid mode c w = (r, c', w')"
  obtains (early) "w_env w' = w_env w" "\<forall>s. r = Inr s \<longrightarrow> mode = ''status''" "mode = ''status'' \<longrightarrow> c' = c"
  | (switched) w1 before p after where "mode \<noteq> ''status''" "worker_capture ''status'' pid False w = (before, w1)" "reset_prefix_cache (core_pool c) = (True, p)"
      "c' = c\<lparr>core_pool := p\<rparr>" "require_empty_core c' = Inr p" "\<not> list_ex (\<lambda>b. block_hash (heap p b) \<noteq> None) (blocks p)"
      "worker_capture mode pid True w1 = (after, w')"
      "\<forall>s. r = Inr s \<longrightarrow> (\<exists>t. after = Inr t \<and> validate_worker pid t mode = Inr ())"
proof -
  obtain before w1 where b: "worker_capture ''status'' pid False w = (before, w1)" by (metis surj_pair)
  note env = worker_status_env [OF b]
  obtain ok p where p: "reset_prefix_cache (core_pool c) = (ok, p)" by (metis surj_pair)
  obtain after w2 where a: "worker_capture mode pid True w1 = (after, w2)" by (metis surj_pair)
  define c1 where "c1 = c\<lparr>core_pool := p\<rparr>"
  have same: "require_empty_core c1 = Inr q \<Longrightarrow> q = p" for q
    by (auto simp: require_empty_core_def c1_def Let_def split: if_splits)
  show thesis
  proof (cases "mode \<in> set modes \<and> (\<exists>q. require_empty_core c = Inr q) \<and>
      (\<exists>s. res_bind before (\<lambda>s. res_bind (validate_worker pid s ''status'') (\<lambda>_. Inr s)) = Inr s) \<and> mode \<noteq> ''status'' \<and>
      ok \<and> (\<exists>q. require_empty_core c1 = Inr q) \<and> \<not> list_ex (\<lambda>b. block_hash (heap p b) \<noteq> None) (blocks p)")
    case False
    then show thesis using assms env b p
      by (intro early) (auto simp: capture_with_empty_prefix_def c1_def [symmetric] Let_def split: sum.splits if_splits)
  next
    case True
    then obtain q q1 s where t: "mode \<in> set modes" "require_empty_core c = Inr q"
      "res_bind before (\<lambda>s. res_bind (validate_worker pid s ''status'') (\<lambda>_. Inr s)) = Inr s" "mode \<noteq> ''status''" "ok"
      "require_empty_core c1 = Inr q1" "\<not> list_ex (\<lambda>b. block_hash (heap p b) \<noteq> None) (blocks p)" by blast
    have "capture_with_empty_prefix pid mode c w = (res_bind after (\<lambda>t. res_bind (validate_worker pid t mode) (\<lambda>_.
        Inr (worker_status.extend t (phase_status.fields True True)))), c1, w2)"
      using t(4) t(7) by (simp add: capture_with_empty_prefix_def t(1,2,3,5,6) b p a c1_def [symmetric] Let_def)
    then have "r = res_bind after (\<lambda>t. res_bind (validate_worker pid t mode) (\<lambda>_. Inr (worker_status.extend t (phase_status.fields True True))))"
      "c' = c1" "w' = w2" using assms by simp_all
    then show thesis using t b p a same by (intro switched) (auto simp: c1_def res_simps)
  qed
qed

text \<open>
  C19. Capture never changes while a cached prefix could be reused. Take an engine whose block pool is
  in any reachable state with references \<open>H\<close>. If a phase change turned capture on or off, even one
  that then reports an error, or if it reported success, then no request was left in the
  scheduler, no client held a block, every block's hash is gone and no hash can hit the cache;
  a reported success means that the worker's flags and routers all have the requested state. Asking
  for the status changes neither engine nor capture state.
\<close>

theorem phase_change_empties_prefix:
  assumes pool: "pool_run (core_pool c) H" and w: "worker_ok w" and step: "capture_with_empty_prefix pid mode c w = (r, c', w')"
  shows "((sig_enabled (w_env w') \<noteq> sig_enabled (w_env w) \<or> mode \<noteq> ''status'' \<and> (\<exists>s. r = Inr s)) \<longrightarrow>
       prefix_empty c' \<and> (\<forall>b \<in> set (blocks (core_pool c)). b \<noteq> null_block (core_pool c) \<longrightarrow> H b = 0) \<and>
       (\<forall>bh g gs. 0 \<le> g \<and> g < 2 ^ 32 \<longrightarrow> get_cached_block bh (g # gs) (core_pool c') = Inr None)) \<and>
     (mode \<noteq> ''status'' \<and> (\<exists>s. r = Inr s) \<longrightarrow> (\<exists>sw. w_switch w' = Some sw \<and> consistent sw (w_env w') \<and> switch_enabled sw = (mode = ''on''))) \<and>
     (mode = ''status'' \<longrightarrow> c' = c \<and> w_env w' = w_env w)"
  using step
proof (cases rule: phase_cases)
  case early
  then show ?thesis by auto
next
  case (switched w1 before p after)
  have clean: "\<forall>b \<in> set (blocks (core_pool c)). b \<noteq> null_block (core_pool c) \<longrightarrow> H b = 0" "cached_block_hash_to_block p = []"
    using reset_clean [OF pool switched(3)] by auto
  have "prefix_empty c'"
    using switched(5,6) clean(2) unfolding prefix_empty_def switched(4)
    by (auto simp: require_empty_core_def Let_def list_ex_iff split: if_splits)
  moreover have "get_cached_block bh (g # gs) (core_pool c') = Inr None" if "0 \<le> g \<and> g < 2 ^ 32" for bh g gs
    using clean(2) that by (simp add: switched(4) lookup_empty del: get_cached_block.simps)
  moreover have "\<exists>sw. w_switch w' = Some sw \<and> consistent sw (w_env w') \<and> switch_enabled sw = (mode = ''on'')" if "r = Inr s" for s
  proof -
    obtain t where t: "after = Inr t" "validate_worker pid t mode = Inr ()" using switched(8) \<open>r = Inr s\<close> by blast
    obtain sw where sw: "w_switch w' = Some sw" "st_enabled t = switch_enabled sw"
      using worker_answer [of mode pid True w1 t w'] switched(7) t(1) by auto
    have "worker_ok w'" using worker_capture_ok [OF worker_capture_ok [OF w switched(2)] switched(7)] .
    moreover have "st_enabled t = (mode = ''on'')" using t(2) switched(1) by (auto simp: validate_worker_def split: if_splits)
    ultimately show ?thesis using sw by (auto simp: worker_ok_def)
  qed
  ultimately show ?thesis using clean(1) switched(1) by blast
qed

section \<open>Witnesses\<close>

definition demo_capture_env :: "nat capture_env" where
  "demo_capture_env = \<lparr>sig_mod = \<lparr>sig_L = 2, sig_E = 4, sig_NT = 3, sig_REFS = [None, None], sig_ESC = None\<rparr>, sig_enabled = True,
     tr_enabled = True, environment = [(''ELDR'', ''1'')], router_fns = [Some 10, Some 11]\<rparr>"

definition demo_switch :: "nat CaptureSwitch" where
  "demo_switch = \<lparr>callbacks = [10, 11], switch_enabled = True, transitions = 0\<rparr>"

text \<open>The second router's setter clears the attribute and then raises.\<close>

definition failing_setter :: "nat setter" where
  "failing_setter i cb old = (if i = 1 then (Some (RuntimeError ''set''), None) else (None, cb))"

theorem capture_switch_atomic_witness:
  "\<exists>sw' env'. set_enabled failing_setter (JBool False) demo_switch demo_capture_env = (Inl (RuntimeError ''set''), sw', env') \<and>
     sw' = demo_switch \<and> env' = demo_capture_env"
proof -
  have run: "switch_run demo_switch demo_capture_env"
    by (rule switch_run.made) (simp add: make_switch_def demo_switch_def demo_capture_env_def)
  have ok: "setter_ok failing_setter" by (simp add: setter_ok_def failing_setter_def)
  obtain r sw' env' where s: "set_enabled failing_setter (JBool False) demo_switch demo_capture_env = (r, sw', env')" by (metis surj_pair)
  have "fst (set_enabled failing_setter (JBool False) demo_switch demo_capture_env) = Inl (RuntimeError ''set'')"
    by (simp add: set_enabled_def apply_switch_def demo_switch_def demo_capture_env_def failing_setter_def expected_fns_def str_bool_def Let_def)
  then have "r = Inl (RuntimeError ''set'')" using s by simp
  with capture_switch_atomic [OF run ok s] s show ?thesis by simp
qed

definition demo_control_config :: control_config where
  "demo_control_config = \<lparr>cc_async_scheduling = JBool False, cc_prefix_caching = JBool True, cc_chunked_prefill = JBool False,
     cc_disable_hybrid = JBool True, cc_enforce_eager = JBool True, cc_tp = JInt 1, cc_pp = JInt 1, cc_dp = JInt 1,
     cc_expert_parallel = JBool False, cc_executor = JStr ''uni'', cc_speculative = JNull,
     cc_transfer = Some (''kv_producer'', ''NixlConnector''), cc_num_gpu_blocks = JInt 4, cc_block_size = JInt 16,
     cc_max_model_len = JInt 1024\<rparr>"

definition demo_capture_worker :: "nat capture_worker" where
  "demo_capture_worker = \<lparr>w_env = demo_capture_env, w_switch = None, w_plain = [True, True], w_config = demo_control_config,
     w_pid = 7, w_process_name = ''EngineCore_0''\<rparr>"

definition demo_core :: core where
  "demo_core = \<lparr>core_async = False, core_batch_queue = False, core_paused = False, sched_running = [], sched_waiting = [],
     sched_skipped_waiting = [], sched_requests = [], sched_delayed_free = [], core_pool = pool4\<rparr>"

lemma demo_phase: "sig_enabled (w_env (snd (snd (capture_with_empty_prefix 7 ''off'' demo_core demo_capture_worker)))) = False"
  by code_simp

theorem phase_change_empties_prefix_witness:
  "sig_enabled (w_env demo_capture_worker) = True \<and>
     sig_enabled (w_env (snd (snd (capture_with_empty_prefix 7 ''off'' demo_core demo_capture_worker)))) = False \<and>
     prefix_empty (fst (snd (capture_with_empty_prefix 7 ''off'' demo_core demo_capture_worker)))"
proof -
  obtain r c' w' where s: "capture_with_empty_prefix 7 ''off'' demo_core demo_capture_worker = (r, c', w')" by (metis surj_pair)
  have w: "worker_ok demo_capture_worker" by (simp add: worker_ok_def demo_capture_worker_def)
  have on: "sig_enabled (w_env demo_capture_worker) = True" by (simp add: demo_capture_worker_def demo_capture_env_def)
  have p: "pool_run (core_pool demo_core) (\<lambda>_. 0)" using pool4_run(1) by (simp add: demo_core_def)
  show ?thesis using phase_change_empties_prefix [OF p w s] demo_phase on s by simp
qed

end
