(* ===== verification/Request_Queue.thy ===== *)
theory Request_Queue
  imports Complex_Main "HOL-Library.Multiset" "HOL-Library.Char_ord" "HOL-Library.List_Lexorder" Prelude
begin

text \<open>
  The waiting queues of the scheduler (\<^verbatim>\<open>v1/core/sched/request_queue.py\<close>): first come first served over a
  deque, and by priority over a binary heap in a list. The heap operations are those of Python's
  \<^verbatim>\<open>heapq\<close>, which compares requests with \<^verbatim>\<open>Request.__lt__\<close>. Both queues meet one contract, stated over
  the order in which a queue is iterated.
\<close>

section \<open>Requests and their order\<close>

text \<open>The fields \<^verbatim>\<open>__lt__\<close> compares; the last is the object's identity.\<close>

datatype qreq = QReq (qr_priority: int) (qr_arrival: rat) (qr_id: string) (qr_obj: nat)

definition request_lt :: "qreq \<Rightarrow> qreq \<Rightarrow> bool" where
  "request_lt a b =
     (if qr_priority a \<noteq> qr_priority b then qr_priority a < qr_priority b
      else if qr_arrival a \<noteq> qr_arrival b then qr_arrival a < qr_arrival b
      else if qr_id a \<noteq> qr_id b then qr_id a < qr_id b
      else qr_obj a < qr_obj b)"

instantiation qreq :: linorder
begin

definition less_qreq :: "qreq \<Rightarrow> qreq \<Rightarrow> bool" where
  "less_qreq = request_lt"

definition less_eq_qreq :: "qreq \<Rightarrow> qreq \<Rightarrow> bool" where
  "less_eq_qreq a b \<longleftrightarrow> a < b \<or> a = (b :: qreq)"

instance
proof
  fix a b c :: qreq
  show "(a < b) = (a \<le> b \<and> \<not> b \<le> a)" by (auto simp: less_eq_qreq_def less_qreq_def request_lt_def split: if_splits)
  show "a \<le> a" by (simp add: less_eq_qreq_def)
  show "a \<le> b \<Longrightarrow> b \<le> c \<Longrightarrow> a \<le> c" by (cases a; cases b; cases c) (auto simp: less_eq_qreq_def less_qreq_def request_lt_def split: if_splits)
  show "a \<le> b \<Longrightarrow> b \<le> a \<Longrightarrow> a = b" by (auto simp: less_eq_qreq_def less_qreq_def request_lt_def split: if_splits)
  show "a \<le> b \<or> b \<le> a" by (cases a; cases b) (auto simp: less_eq_qreq_def less_qreq_def request_lt_def)
qed

end

section \<open>The heap\<close>

text \<open>\<^verbatim>\<open>_siftdown\<close>: the item bubbles from its position towards the start position.\<close>

function siftdown :: "('a :: linorder) list \<Rightarrow> nat \<Rightarrow> nat \<Rightarrow> 'a \<Rightarrow> 'a list" where
  "siftdown a s p x =
     (if s < p then
        let q = (p - 1) div 2 in
        if x < a ! q then siftdown (a[p := a ! q]) s q x else a[p := x]
      else a[p := x])"
  by auto

termination siftdown
  by (relation "measure (\<lambda>(_, _, p, _). p)") auto

text \<open>The loop of \<^verbatim>\<open>_siftup\<close>: the smaller child moves up until a leaf is reached.\<close>

function hole_down :: "('a :: linorder) list \<Rightarrow> nat \<Rightarrow> 'a list \<times> nat" where
  "hole_down a p =
     (let c = 2 * p + 1 in
      if c < length a then
        let c' = (if c + 1 < length a \<and> \<not> a ! c < a ! (c + 1) then c + 1 else c)
        in hole_down (a[p := a ! c']) c'
      else (a, p))"
  by auto

termination hole_down
  by (relation "measure (\<lambda>(a, p). length a - p)") (auto simp: Let_def)

declare siftdown.simps [simp del] hole_down.simps [simp del]

definition siftup :: "('a :: linorder) list \<Rightarrow> nat \<Rightarrow> 'a list" where
  "siftup a s = (let x = a ! s; (b, p) = hole_down a s in siftdown b s p x)"

definition heappush :: "('a :: linorder) list \<Rightarrow> 'a \<Rightarrow> 'a list" where
  "heappush h x = siftdown (h @ [x]) 0 (length h) x"

definition heappop :: "('a :: linorder) list \<Rightarrow> ('a \<times> 'a list) res" where
  "heappop h =
     (if h = [] then Inl IndexError
      else
        let x = last h; h' = butlast h in
        if h' = [] then Inr (x, []) else Inr (h' ! 0, siftup (h'[0 := x]) 0))"

definition heapify :: "('a :: linorder) list \<Rightarrow> 'a list" where
  "heapify h = fold (\<lambda>i h. siftup h i) (rev [0..<length h div 2]) h"

section \<open>The queues\<close>

datatype SchedulingPolicy = FCFS | PRIORITY

datatype RequestQueue = FCFSQ "qreq list" | PriorityQ "qreq list"

definition create_request_queue :: "SchedulingPolicy \<Rightarrow> RequestQueue" where
  "create_request_queue policy = (case policy of PRIORITY \<Rightarrow> PriorityQ [] | FCFS \<Rightarrow> FCFSQ [])"

fun add_request :: "qreq \<Rightarrow> RequestQueue \<Rightarrow> RequestQueue" where
  "add_request r (FCFSQ q) = FCFSQ (q @ [r])"
| "add_request r (PriorityQ h) = PriorityQ (heappush h r)"

fun pop_request :: "RequestQueue \<Rightarrow> (qreq \<times> RequestQueue) res" where
  "pop_request (FCFSQ q) = (case q of [] \<Rightarrow> Inl IndexError | r # q' \<Rightarrow> Inr (r, FCFSQ q'))"
| "pop_request (PriorityQ h) = (if h = [] then Inl IndexError else res_bind (heappop h) (\<lambda>(r, h'). Inr (r, PriorityQ h')))"

fun peek_request :: "RequestQueue \<Rightarrow> qreq res" where
  "peek_request (FCFSQ q) = (if q = [] then Inl IndexError else Inr (q ! 0))"
| "peek_request (PriorityQ h) = (if h = [] then Inl IndexError else Inr (h ! 0))"

fun prepend_request :: "qreq \<Rightarrow> RequestQueue \<Rightarrow> RequestQueue" where
  "prepend_request r (FCFSQ q) = FCFSQ (r # q)"
| "prepend_request r (PriorityQ h) = add_request r (PriorityQ h)"

text \<open>\<^verbatim>\<open>__iter__\<close> of the priority queue pops a copy; each pop shortens it.\<close>

lemma siftdown_length [simp]: "length (siftdown a s p x) = length a"
  by (induction a s p x rule: siftdown.induct) (subst siftdown.simps, auto simp: Let_def)

lemma hole_down_length [simp]: "length (fst (hole_down a p)) = length a"
  by (induction a p rule: hole_down.induct) (subst hole_down.simps, auto simp: Let_def)

lemma siftup_length [simp]: "length (siftup a s) = length a"
  using hole_down_length [of a s] by (simp add: siftup_def case_prod_beta Let_def)

lemma heappop_length: "heappop h = Inr (x, h') \<Longrightarrow> length h = Suc (length h')"
  by (cases h rule: rev_cases) (auto simp: heappop_def Let_def split: if_splits)

function heap_iter :: "('a :: linorder) list \<Rightarrow> 'a list" where
  "heap_iter h = (case heappop h of Inl _ \<Rightarrow> [] | Inr (x, h') \<Rightarrow> x # heap_iter h')"
  by auto

termination heap_iter
  by (relation "measure length") (auto dest: heappop_length)

declare heap_iter.simps [simp del]

fun queue_iter :: "RequestQueue \<Rightarrow> qreq list" where
  "queue_iter (FCFSQ q) = q"
| "queue_iter (PriorityQ h) = heap_iter h"

fun prepend_requests :: "RequestQueue \<Rightarrow> RequestQueue \<Rightarrow> RequestQueue" where
  "prepend_requests other (FCFSQ q) = FCFSQ (rev (queue_iter other) @ q)"
| "prepend_requests other (PriorityQ h) = fold add_request (queue_iter other) (PriorityQ h)"

fun remove_request :: "qreq \<Rightarrow> RequestQueue \<Rightarrow> RequestQueue res" where
  "remove_request r (FCFSQ q) = (if r \<in> set q then Inr (FCFSQ (remove1 r q)) else Inl (ValueError ''not in deque''))"
| "remove_request r (PriorityQ h) =
     (if r \<in> set h then Inr (PriorityQ (heapify (remove1 r h))) else Inl (ValueError ''not in list''))"

fun remove_requests :: "qreq list \<Rightarrow> RequestQueue \<Rightarrow> RequestQueue" where
  "remove_requests rs (FCFSQ q) = FCFSQ (filter (\<lambda>r. r \<notin> set rs) q)"
| "remove_requests rs (PriorityQ h) = PriorityQ (heapify (filter (\<lambda>r. r \<notin> set rs) h))"

fun queue_len :: "RequestQueue \<Rightarrow> nat" where
  "queue_len (FCFSQ q) = length q"
| "queue_len (PriorityQ h) = length h"

definition queue_bool :: "RequestQueue \<Rightarrow> bool" where
  "queue_bool q = (case q of FCFSQ xs \<Rightarrow> 0 < length xs | PriorityQ h \<Rightarrow> h \<noteq> [])"

section \<open>The heap is correct\<close>

abbreviation par :: "nat \<Rightarrow> nat" where
  "par i \<equiv> (i - 1) div 2"

text \<open>The edges below positions from \<^verbatim>\<open>s\<close> on are ordered.\<close>

definition heap_from :: "nat \<Rightarrow> ('a :: linorder) list \<Rightarrow> bool" where
  "heap_from s a \<longleftrightarrow> (\<forall>i < length a. 0 < i \<and> s \<le> par i \<longrightarrow> a ! par i \<le> a ! i)"

abbreviation heap_ok :: "('a :: linorder) list \<Rightarrow> bool" where
  "heap_ok \<equiv> heap_from 0"

text \<open>Positions at and below \<^verbatim>\<open>s\<close> in the tree.\<close>

inductive below :: "nat \<Rightarrow> nat \<Rightarrow> bool" for s where
  here: "below s s"
| child: "below s (par p) \<Longrightarrow> 0 < p \<Longrightarrow> below s p"

lemma below_le: "below s p \<Longrightarrow> s \<le> p"
  by (induction rule: below.induct) auto

lemma below_par: "below s p \<Longrightarrow> s < p \<Longrightarrow> below s (par p)"
  by (cases rule: below.cases) auto

lemma par_less: "0 < i \<Longrightarrow> par i < i"
  by auto

lemma list_update_swap_mset:
  assumes "p < length a" "q < length a"
  shows "mset ((a[p := a ! q])[q := x]) = mset (a[p := x])"
proof (cases "p = q")
  case False
  have "(a[p := a ! q])[q := x] = ((a[p := x])[p := (a[p := x]) ! q])[q := (a[p := x]) ! p]" using assms False by simp
  then show ?thesis using assms mset_swap [of q "a[p := x]" p] by simp
qed simp

lemma siftdown_mset: "p < length a \<Longrightarrow> mset (siftdown a s p x) = mset (a[p := x])"
proof (induction a s p x rule: siftdown.induct)
  case (1 a s p x)
  have q: "par p < length a" using 1(2) by simp
  show ?case
    using 1 q list_update_swap_mset [OF 1(2) q, of x] by (subst siftdown.simps) (auto simp: Let_def)
qed

text \<open>All edges hold except the one above \<^verbatim>\<open>p\<close>, and its children are above its parent.\<close>

definition bubble :: "nat \<Rightarrow> nat \<Rightarrow> ('a :: linorder) list \<Rightarrow> bool" where
  "bubble s p b \<longleftrightarrow> (\<forall>i < length b. 0 < i \<and> s \<le> par i \<and> i \<noteq> p \<longrightarrow> b ! par i \<le> b ! i) \<and>
     (\<forall>i < length b. 0 < i \<and> par i = p \<and> 0 < p \<and> s \<le> par p \<longrightarrow> b ! par p \<le> b ! i)"

lemma bubble_done: "bubble s p b \<Longrightarrow> p \<le> s \<or> b ! par p \<le> b ! p \<Longrightarrow> below s p \<Longrightarrow> heap_from s b"
proof -
  assume b: "bubble s p b" "p \<le> s \<or> b ! par p \<le> b ! p" and d: "below s p"
  have "b ! par i \<le> b ! i" if "i < length b" "0 < i" "s \<le> par i" for i
  proof (cases "i = p")
    case True
    then show ?thesis using b(2) that par_less [of i] by auto
  next
    case False
    then show ?thesis using b(1) that by (simp add: bubble_def)
  qed
  then show ?thesis by (simp add: heap_from_def)
qed

lemma bubble_step:
  assumes b: "bubble s p b" and p: "p < length b" "0 < p" "s \<le> par p" and x: "b ! p < b ! par p"
  shows "bubble s (par p) ((b[p := b ! par p])[par p := b ! p])"
proof -
  define q where "q = par p"
  define b' where "b' = (b[p := b ! q])[q := b ! p]"
  have ne: "q \<noteq> p" "q < length b" using p unfolding q_def by auto
  have v: "b' ! i = (if i = q then b ! p else if i = p then b ! q else b ! i)" if "i < length b" for i
    using that ne p unfolding b'_def by (simp add: nth_list_update)
  have E: "b ! par i \<le> b ! i" if "i < length b" "0 < i" "s \<le> par i" "i \<noteq> p" for i
    using b that unfolding bubble_def by blast
  have C: "b ! q \<le> b ! i" if "i < length b" "0 < i" "par i = p" for i
    using b that p(2,3) unfolding bubble_def q_def by blast
  have edge: "b' ! par i \<le> b' ! i" if i: "i < length b" "0 < i" "s \<le> par i" "i \<noteq> q" for i
  proof -
    have pi: "par i < length b" using i par_less [of i] by linarith
    consider "i = p" | "i \<noteq> p" "par i = q" | "i \<noteq> p" "par i = p" | "i \<noteq> p" "par i \<noteq> p" "par i \<noteq> q" by blast
    then show ?thesis
    proof cases
      case 1
      then have "par i = q" by (simp only: q_def)
      then show ?thesis using v [OF pi] v [OF i(1)] i(4) 1 x unfolding q_def by (metis less_imp_le)
    next
      case 2
      have "b ! q \<le> b ! i" using E [OF i(1-3) 2(1)] 2(2) by (simp only:)
      then show ?thesis using v [OF pi] v [OF i(1)] 2 i(4) x unfolding q_def by (metis less_imp_le order_trans)
    next
      case 3
      then show ?thesis using v [OF pi] v [OF i(1)] C [OF i(1,2)] i(4) ne by metis
    next
      case 4
      then show ?thesis using v [OF pi] v [OF i(1)] E [OF i(1-3)] i(4) by metis
    qed
  qed
  have children: "b' ! par q \<le> b' ! i" if i: "i < length b" "0 < i" "par i = q" "0 < q" "s \<le> par q" for i
  proof -
    have q: "par q < q" "par q < length b" "q < p" using par_less [OF i(4)] par_less [OF p(2)] ne unfolding q_def by linarith+
    have up: "b ! par q \<le> b ! q" using E [OF ne(2) i(4,5) ne(1)] .
    have vq: "b' ! par q = b ! par q" using v [OF q(2)] q by auto
    have "i \<noteq> q" using i(3) par_less [OF i(2)] by auto
    then have "b' ! i = (if i = p then b ! q else b ! i)" using v [OF i(1)] by simp
    moreover have "b ! q \<le> b ! i" if "i \<noteq> p" using E [OF i(1,2) _ that] i(3) p(3) unfolding q_def by metis
    ultimately show ?thesis using up vq by (auto intro: order_trans)
  qed
  have "length b' = length b" by (simp add: b'_def)
  then have "bubble s q b'" unfolding bubble_def using edge children by metis
  then show ?thesis unfolding b'_def q_def .
qed

lemma siftdown_heap:
  assumes "bubble s p (a[p := x])" "p < length a" "below s p"
  shows "heap_from s (siftdown a s p x)"
  using assms
proof (induction a s p x rule: siftdown.induct)
  case (1 a s p x)
  define q where "q = par p"
  show ?case
  proof (cases "s < p \<and> x < a ! q")
    case True
    then have p: "0 < p" "below s q" using below_par [OF 1(4)] unfolding q_def by auto
    then have q: "s \<le> q" "q < p" using below_le par_less unfolding q_def by auto
    define b where "b = a[p := x]"
    have v: "b ! p = x" "b ! q = a ! q" "(b[p := b ! q])[q := b ! p] = (a[p := a ! q])[q := x]"
      using 1(3) q unfolding b_def by simp_all
    have "bubble s q ((a[p := a ! q])[q := x])"
      using bubble_step [of s p b] 1(2,3) p(1) q(1) v True unfolding b_def q_def by simp
    then have "heap_from s (siftdown (a[p := a ! q]) s q x)"
      using 1(1) [OF _ refl] True 1(3) q p(2) unfolding q_def by simp
    then show ?thesis using True unfolding q_def by (subst siftdown.simps) (simp add: Let_def)
  next
    case False
    have "siftdown a s p x = a[p := x]" using False unfolding q_def by (subst siftdown.simps) (auto simp: Let_def)
    moreover have "p \<le> s \<or> a[p := x] ! par p \<le> a[p := x] ! p"
    proof (cases "s < p")
      case True
      then have "par p < p" by auto
      then show ?thesis using False True 1(3) unfolding q_def by simp
    qed simp
    ultimately show ?thesis using bubble_done [OF 1(2) _ 1(4)] by simp
  qed
qed

text \<open>The edges at the hole \<^verbatim>\<open>p\<close> do not count, and its children are above its parent.\<close>

definition hole :: "nat \<Rightarrow> nat \<Rightarrow> ('a :: linorder) list \<Rightarrow> bool" where
  "hole s p a \<longleftrightarrow> (\<forall>i < length a. 0 < i \<and> s \<le> par i \<and> i \<noteq> p \<and> par i \<noteq> p \<longrightarrow> a ! par i \<le> a ! i) \<and>
     (\<forall>i < length a. 0 < i \<and> par i = p \<and> 0 < p \<and> s \<le> par p \<longrightarrow> a ! par p \<le> a ! i)"

lemma children: "0 < i \<and> par i = p \<longleftrightarrow> i = 2 * p + 1 \<or> i = 2 * p + 2"
  by presburger

lemma hole_step:
  assumes h: "hole s p a" and c: "c < length a" "0 < c" "par c = p" and below: "s \<le> p"
    and least: "\<And>i. i < length a \<Longrightarrow> 0 < i \<Longrightarrow> par i = p \<Longrightarrow> a ! c \<le> a ! i"
  shows "hole s c (a[p := a ! c])"
proof -
  define b where "b = a[p := a ! c]"
  have pc: "p < c" using c par_less [of c] by auto
  have v: "b ! i = (if i = p then a ! c else a ! i)" if "i < length a" for i using that pc c(1) by (simp add: b_def nth_list_update)
  have E: "a ! par i \<le> a ! i" if "i < length a" "0 < i" "s \<le> par i" "i \<noteq> p" "par i \<noteq> p" for i
    using h that unfolding hole_def by blast
  have C: "a ! par p \<le> a ! i" if "i < length a" "0 < i" "par i = p" "0 < p" "s \<le> par p" for i
    using h that unfolding hole_def by blast
  have edge: "b ! par i \<le> b ! i" if i: "i < length a" "0 < i" "s \<le> par i" "i \<noteq> c" "par i \<noteq> c" for i
  proof -
    have pi: "par i < length a" "par i \<noteq> i" using i par_less [of i] by auto
    consider "par i = p" | "i = p" "par i \<noteq> p" | "i \<noteq> p" "par i \<noteq> p" by blast
    then show ?thesis
    proof cases
      case 1
      then show ?thesis using v [OF i(1)] v [OF pi(1)] least [OF i(1,2)] pi(2) by metis
    next
      case 2
      then show ?thesis using v [OF i(1)] v [OF pi(1)] C [OF c] i(2,3) by metis
    next
      case 3
      then show ?thesis using v [OF i(1)] v [OF pi(1)] E [OF i(1-3)] by metis
    qed
  qed
  have ch: "b ! par c \<le> b ! i" if i: "i < length a" "0 < i" "par i = c" for i
  proof -
    have ne: "i \<noteq> p" "par i \<noteq> p" "s \<le> par i" using i(3) pc par_less [OF i(2)] below by linarith+
    have "b ! par c = a ! c" using v [of p] pc c by simp
    moreover have "b ! i = a ! i" using v [OF i(1)] ne(1) by simp
    ultimately show ?thesis using E [OF i(1,2) ne(3,1,2)] i(3) by metis
  qed
  have "length b = length a" by (simp add: b_def)
  then show ?thesis unfolding b_def [symmetric] hole_def using edge ch by metis
qed

lemma hole_down_spec:
  assumes "hole s p a" "p < length a" "below s p" "hole_down a p = (b, p')"
  shows "hole s p' b \<and> p' < length b \<and> below s p' \<and> length b \<le> 2 * p' + 1 \<and> length b = length a \<and> mset (b[p' := x]) = mset (a[p := x])"
  using assms
proof (induction a p rule: hole_down.induct)
  case (1 a p)
  define c where "c = (if 2 * p + 2 < length a \<and> \<not> a ! (2 * p + 1) < a ! (2 * p + 2) then 2 * p + 2 else 2 * p + 1)"
  show ?case
  proof (cases "2 * p + 1 < length a")
    case False
    then have "b = a" "p' = p" using 1(5) by (simp_all add: hole_down.simps [of a p] Let_def)
    then show ?thesis using 1 False by simp
  next
    case True
    have rec: "hole_down (a[p := a ! c]) c = (b, p')"
      using 1(5) True by (simp add: hole_down.simps [of a p] Let_def c_def cong: if_cong)
    have c: "c < length a" "0 < c" "par c = p" using True by (auto simp: c_def)
    have least: "a ! c \<le> a ! i" if "i < length a" "0 < i" "par i = p" for i
      using that children [of i p] by (auto simp: c_def)
    have "hole s c (a[p := a ! c])" using hole_step [OF 1(2) c _ least] below_le [OF 1(4)] by blast
    moreover have "below s c" using below.child [of s c] 1(4) c by simp
    ultimately have IH: "hole s p' b \<and> p' < length b \<and> below s p' \<and> length b \<le> 2 * p' + 1 \<and> length b = length (a[p := a ! c]) \<and>
        mset (b[p' := x]) = mset ((a[p := a ! c])[c := x])"
      using 1(1) [OF refl True refl] rec c(1) by (simp add: c_def cong: if_cong)
    then show ?thesis using list_update_swap_mset [OF 1(3) c(1), of x] by simp
  qed
qed

lemma siftup_spec:
  assumes "heap_from (Suc s) a" "s < length a"
  shows "heap_from s (siftup a s) \<and> mset (siftup a s) = mset a"
proof -
  obtain b p where bp: "hole_down a s = (b, p)" by (metis surj_pair)
  have "hole s s a" using assms(1) unfolding hole_def heap_from_def by (metis Suc_leI le_neq_implies_less par_less not_le)
  from hole_down_spec [OF this assms(2) below.here bp, of "a ! s"]
  have h: "hole s p b" "p < length b" "below s p" "length b \<le> 2 * p + 1" "mset (b[p := a ! s]) = mset a" by auto
  have leaf: "i < length b \<Longrightarrow> 0 < i \<Longrightarrow> par i \<noteq> p" for i using children [of i p] h(4) by auto
  have "bubble s p (b[p := a ! s])"
    unfolding bubble_def
  proof (intro conjI allI impI)
    fix i assume i: "i < length (b[p := a ! s])" "0 < i \<and> s \<le> par i \<and> i \<noteq> p"
    have "par i \<noteq> p" using leaf i by simp
    then show "b[p := a ! s] ! par i \<le> b[p := a ! s] ! i" using h(1) i unfolding hole_def by simp
  next
    fix i assume i: "i < length (b[p := a ! s])" "0 < i \<and> par i = p \<and> 0 < p \<and> s \<le> par p"
    then have False using leaf [of i] unfolding length_list_update by blast
    then show "b[p := a ! s] ! par p \<le> b[p := a ! s] ! i" ..
  qed
  then have "heap_from s (siftdown b s p (a ! s))" using h by (intro siftdown_heap)
  moreover have "mset (siftdown b s p (a ! s)) = mset a" using siftdown_mset [OF h(2)] h(5) by simp
  ultimately show ?thesis by (simp add: siftup_def bp)
qed

lemma heap_min: "heap_ok a \<Longrightarrow> i < length a \<Longrightarrow> a ! 0 \<le> a ! i"
proof (induction i rule: less_induct)
  case (less i)
  show ?case
  proof (cases "i = 0")
    case False
    then have "a ! 0 \<le> a ! par i" using less par_less [of i] by simp
    also have "\<dots> \<le> a ! i" using less(2,3) False by (simp add: heap_from_def)
    finally show ?thesis .
  qed simp
qed

lemma heappush_spec: "heap_ok h \<Longrightarrow> heap_ok (heappush h x) \<and> mset (heappush h x) = add_mset x (mset h)"
proof -
  assume h: "heap_ok h"
  have below: "below 0 p" for p
  proof (induction p rule: less_induct)
    case (less p)
    show ?case
    proof (cases "p = 0")
      case True
      show ?thesis unfolding True by (rule below.here)
    next
      case False
      show ?thesis using False by (simp add: below.child [OF less [OF par_less]])
    qed
  qed
  have "bubble 0 (length h) (h @ [x])"
    unfolding bubble_def
  proof (intro conjI allI impI)
    fix i assume i: "i < length (h @ [x])" "0 < i \<and> 0 \<le> par i \<and> i \<noteq> length h"
    then have "par i < length h" using par_less [of i] by simp
    then show "(h @ [x]) ! par i \<le> (h @ [x]) ! i" using h i by (simp add: heap_from_def nth_append)
  next
    fix i assume "i < length (h @ [x])" "0 < i \<and> par i = length h \<and> 0 < length h \<and> 0 \<le> par (length h)"
    then show "(h @ [x]) ! par (length h) \<le> (h @ [x]) ! i" using par_less [of i] by auto
  qed
  then show ?thesis using siftdown_heap [of 0 "length h" "h @ [x]" x] siftdown_mset [of "length h" "h @ [x]" 0 x] below
    by (simp add: heappush_def)
qed

lemma heappop_spec:
  assumes "heap_ok h" "h \<noteq> []"
  obtains x h' where "heappop h = Inr (x, h')" "heap_ok h'" "mset h = add_mset x (mset h')" "\<forall>y \<in># mset h. x \<le> y"
proof -
  obtain h0 x where h: "h = h0 @ [x]" using assms(2) by (metis rev_exhaust)
  have m: "\<forall>y \<in># mset h. h ! 0 \<le> y" using heap_min [OF assms(1)] by (metis in_set_conv_nth set_mset_mset)
  show thesis
  proof (cases "h0 = []")
    case True
    then show thesis using that [of x "[]"] m h by (simp add: heappop_def heap_from_def)
  next
    case False
    have "heap_from (Suc 0) (h0[0 := x])"
      unfolding heap_from_def
    proof (intro allI impI)
      fix i assume i: "i < length (h0[0 := x])" "0 < i \<and> Suc 0 \<le> par i"
      have q: "par i < length h0" "par i \<noteq> 0" "i \<noteq> 0" using i par_less [of i] by simp_all
      have "h ! par i \<le> h ! i" using assms(1) i unfolding heap_from_def h by simp
      then show "h0[0 := x] ! par i \<le> h0[0 := x] ! i" using i q by (simp add: h nth_append)
    qed
    then have s: "heap_ok (siftup (h0[0 := x]) 0)" "mset (siftup (h0[0 := x]) 0) = mset (h0[0 := x])"
      using siftup_spec [of 0 "h0[0 := x]"] False by simp_all
    have "mset h = add_mset (h0 ! 0) (mset (h0[0 := x]))" using False by (simp add: h mset_update)
    then show thesis using that [of "h0 ! 0" "siftup (h0[0 := x]) 0"] s m False
      by (simp add: heappop_def h Let_def nth_append)
  qed
qed

lemma heapify_spec: "heap_ok (heapify h) \<and> mset (heapify h) = mset h"
proof -
  have "heap_from (n - k) (fold (\<lambda>i h. siftup h i) (rev [n - k..<n]) h) \<and> mset (fold (\<lambda>i h. siftup h i) (rev [n - k..<n]) h) = mset h \<and>
      length (fold (\<lambda>i h. siftup h i) (rev [n - k..<n]) h) = length h" if "n = length h div 2" "k \<le> n" for n k
    using that
  proof (induction k)
    case 0
    then show ?case by (auto simp: heap_from_def)
  next
    case (Suc k)
    define g where "g = fold (\<lambda>i h. siftup h i) (rev [n - k..<n]) h"
    have e: "[n - Suc k..<n] = (n - Suc k) # [n - k..<n]" using Suc.prems(2) by (simp add: upt_conv_Cons Suc_diff_Suc)
    have g: "heap_from (Suc (n - Suc k)) g" "mset g = mset h" "length g = length h" "n - Suc k < length g"
      using Suc by (simp_all add: g_def Suc_diff_Suc)
    from siftup_spec [OF g(1,4)] g show ?case unfolding e by (simp add: g_def [symmetric])
  qed
  from this [of "length h div 2" "length h div 2"] show ?thesis by (simp add: heapify_def)
qed

lemma heap_iter_sort: "heap_ok h \<Longrightarrow> heap_iter h = sort h"
proof (induction h rule: heap_iter.induct)
  case (1 h)
  show ?case
  proof (cases "h = []")
    case True
    then show ?thesis by (simp add: heap_iter.simps [of "[]"] heappop_def)
  next
    case False
    obtain x h' where p: "heappop h = Inr (x, h')" "heap_ok h'" "mset h = add_mset x (mset h')" "\<forall>y \<in># mset h. x \<le> y"
      by (rule heappop_spec [OF 1(2) False])
    have "sorted (x # sort h')" "mset (x # sort h') = mset h" using p(3,4) by auto
    then have "sort h = x # sort h'" by (metis properties_for_sort)
    then show ?thesis using 1(1) [OF p(1)] p by (simp add: heap_iter.simps [of h])
  qed
qed

section \<open>The contract of a queue\<close>

text \<open>
  The order a policy keeps: where a new request goes, where a request put back goes, and the message of
  removing a request that is not there.
\<close>

definition place :: "SchedulingPolicy \<Rightarrow> qreq \<Rightarrow> qreq list \<Rightarrow> qreq list" where
  "place policy r xs = (case policy of FCFS \<Rightarrow> xs @ [r] | PRIORITY \<Rightarrow> insort r xs)"

definition put_back :: "SchedulingPolicy \<Rightarrow> qreq \<Rightarrow> qreq list \<Rightarrow> qreq list" where
  "put_back policy r xs = (case policy of FCFS \<Rightarrow> r # xs | PRIORITY \<Rightarrow> insort r xs)"

definition not_there :: "SchedulingPolicy \<Rightarrow> py_error" where
  "not_there policy = ValueError (case policy of FCFS \<Rightarrow> ''not in deque'' | PRIORITY \<Rightarrow> ''not in list'')"

fun queue_ok :: "SchedulingPolicy \<Rightarrow> RequestQueue \<Rightarrow> bool" where
  "queue_ok FCFS (FCFSQ xs) = True"
| "queue_ok PRIORITY (PriorityQ h) = heap_ok h"
| "queue_ok _ _ = False"

locale request_queue =
  fixes ok :: "'q \<Rightarrow> bool" and iter :: "'q \<Rightarrow> 'r list"
    and add :: "'r \<Rightarrow> 'q \<Rightarrow> 'q" and pop :: "'q \<Rightarrow> ('r \<times> 'q) res" and peek :: "'q \<Rightarrow> 'r res"
    and prepend :: "'r \<Rightarrow> 'q \<Rightarrow> 'q" and prepends :: "'q \<Rightarrow> 'q \<Rightarrow> 'q"
    and rem :: "'r \<Rightarrow> 'q \<Rightarrow> 'q res" and rems :: "'r list \<Rightarrow> 'q \<Rightarrow> 'q" and len :: "'q \<Rightarrow> nat" and nonempty :: "'q \<Rightarrow> bool"
    and ins :: "'r \<Rightarrow> 'r list \<Rightarrow> 'r list" and front :: "'r \<Rightarrow> 'r list \<Rightarrow> 'r list" and absent :: py_error
  assumes add: "ok q \<Longrightarrow> ok (add r q) \<and> iter (add r q) = ins r (iter q)"
    and pop_nil: "ok q \<Longrightarrow> iter q = [] \<Longrightarrow> pop q = Inl IndexError"
    and pop_cons: "ok q \<Longrightarrow> iter q = x # xs \<Longrightarrow> \<exists>q'. pop q = Inr (x, q') \<and> ok q' \<and> iter q' = xs"
    and peek: "ok q \<Longrightarrow> peek q = (case iter q of [] \<Rightarrow> Inl IndexError | x # _ \<Rightarrow> Inr x)"
    and prepend: "ok q \<Longrightarrow> ok (prepend r q) \<and> iter (prepend r q) = front r (iter q)"
    and prepends: "ok q \<Longrightarrow> ok (prepends other q) \<and> iter (prepends other q) = fold front (iter other) (iter q)"
    and rem_absent: "ok q \<Longrightarrow> r \<notin> set (iter q) \<Longrightarrow> rem r q = Inl absent"
    and rem_present: "ok q \<Longrightarrow> r \<in> set (iter q) \<Longrightarrow> \<exists>q'. rem r q = Inr q' \<and> ok q' \<and> iter q' = remove1 r (iter q)"
    and rems: "ok q \<Longrightarrow> ok (rems rs q) \<and> iter (rems rs q) = filter (\<lambda>r. r \<notin> set rs) (iter q)"
    and len: "ok q \<Longrightarrow> len q = length (iter q)"
    and nonempty: "ok q \<Longrightarrow> nonempty q = (iter q \<noteq> [])"
begin

lemma pop_sim:
  "ok q \<Longrightarrow> (case pop q of Inl e \<Rightarrow> iter q = [] \<and> e = IndexError | Inr (r, q') \<Rightarrow> ok q' \<and> iter q = r # iter q')"
  using pop_nil [of q] pop_cons [of q] by (cases "iter q") fastforce+

lemma rem_sim:
  "ok q \<Longrightarrow> (case rem r q of Inl e \<Rightarrow> r \<notin> set (iter q) \<and> e = absent
     | Inr q' \<Rightarrow> r \<in> set (iter q) \<and> ok q' \<and> iter q' = remove1 r (iter q))"
  using rem_absent [of q r] rem_present [of q r] by (cases "r \<in> set (iter q)") fastforce+

lemma peek_is_next: "ok q \<Longrightarrow> peek q = map_sum id fst (pop q)"
  using pop_nil [of q] pop_cons [of q] peek [of q] by (cases "iter q") fastforce+

text \<open>A request that was put back under a policy that serves it first is the next one popped.\<close>

lemma pop_put_back: "ok q \<Longrightarrow> front r (iter q) = r # iter q \<Longrightarrow> \<exists>q'. pop (prepend r q) = Inr (r, q') \<and> iter q' = iter q"
  using prepend [of q r] pop_cons [of "prepend r q" r "iter q"] by auto

end

lemma fold_front: "fold (put_back FCFS) ys xs = rev ys @ xs"
  by (induction ys arbitrary: xs) (simp_all add: put_back_def)

interpretation fcfs: request_queue "queue_ok FCFS" queue_iter add_request pop_request peek_request prepend_request
  prepend_requests remove_request remove_requests queue_len queue_bool "place FCFS" "put_back FCFS" "not_there FCFS"
proof (unfold_locales, goal_cases)
  case (1 q r) then show ?case by (cases q) (simp_all add: place_def)
next
  case (2 q) then show ?case by (cases q) simp_all
next
  case (3 q x xs) then show ?case by (cases q) simp_all
next
  case (4 q) then show ?case by (cases q) (auto split: list.splits)
next
  case (5 q r) then show ?case by (cases q) (simp_all add: put_back_def)
next
  case (6 q other) then show ?case by (cases q) (simp_all add: fold_front)
next
  case (7 q r) then show ?case by (cases q) (simp_all add: not_there_def)
next
  case (8 q r) then show ?case by (cases q) simp_all
next
  case (9 q rs) then show ?case by (cases q) simp_all
next
  case (10 q) then show ?case by (cases q) simp_all
next
  case (11 q) then show ?case by (cases q) (simp_all add: queue_bool_def)
qed

lemma sort_mset: "mset xs = mset ys \<Longrightarrow> sort xs = sort (ys :: ('a :: linorder) list)"
  by (rule properties_for_sort) simp_all

lemma sort_heappush: "heap_ok h \<Longrightarrow> sort (heappush h x) = insort x (sort h)"
  using heappush_spec [of h x] sort_mset [of "heappush h x" "x # h"] by simp

lemma sort_heapify: "sort (heapify h) = sort h"
  using heapify_spec [of h] by (intro sort_mset) simp

lemma sort_remove1: "sort (remove1 x xs) = remove1 x (sort xs)"
  by (rule properties_for_sort) (simp_all add: sorted_remove1)

lemma priority_adds:
  "heap_ok h \<Longrightarrow> \<exists>h'. fold add_request rs (PriorityQ h) = PriorityQ h' \<and> heap_ok h' \<and> sort h' = fold insort rs (sort h)"
proof (induction rs arbitrary: h)
  case (Cons r rs)
  from Cons.IH [of "heappush h r"] heappush_spec [OF Cons.prems, of r] sort_heappush [OF Cons.prems, of r]
  show ?case by simp
qed simp

lemma priority_pop:
  assumes "heap_ok h" "h \<noteq> []"
  obtains h' where "heappop h = Inr (hd (sort h), h')" "heap_ok h'" "sort h' = tl (sort h)"
proof -
  obtain x h' where p: "heappop h = Inr (x, h')" "heap_ok h'" "mset h = add_mset x (mset h')" "\<forall>y \<in># mset h. x \<le> y"
    by (rule heappop_spec [OF assms])
  have s: "sort h = x # sort h'"
    using heap_iter_sort [OF assms(1)] heap_iter_sort [OF p(2)] p(1) by (simp add: heap_iter.simps [of h])
  show thesis by (rule that [of h']) (simp_all add: s p(1,2))
qed

lemma heappop_head: "heappop h = Inr (x, h') \<Longrightarrow> x = h ! 0"
  by (cases h rule: rev_cases) (auto simp: heappop_def Let_def nth_append split: if_splits)

lemma heap_head: "heap_ok h \<Longrightarrow> h \<noteq> [] \<Longrightarrow> h ! 0 = hd (sort h)"
  by (rule priority_pop [of h]) (auto dest: heappop_head)

lemma heappush_ok: "heap_ok h \<Longrightarrow> heap_ok (heappush h x)"
  using heappush_spec by blast

lemma heapify_ok: "heap_ok (heapify h)"
  using heapify_spec by blast

lemma sort_eq_Nil: "sort xs = [] \<longleftrightarrow> xs = []"
  by (metis length_0_conv length_sort)

lemma put_back_priority: "put_back PRIORITY = insort"
  by (intro ext) (simp add: put_back_def)

lemmas heap_simps = sort_eq_Nil heap_iter_sort sort_heappush heappush_ok heapify_ok sort_heapify sort_remove1 filter_sort heap_head

interpretation prio: request_queue "queue_ok PRIORITY" queue_iter add_request pop_request peek_request prepend_request
  prepend_requests remove_request remove_requests queue_len queue_bool "place PRIORITY" "put_back PRIORITY" "not_there PRIORITY"
proof (unfold_locales, goal_cases)
  case (1 q r) then show ?case by (cases q) (simp_all add: place_def heap_simps)
next
  case (2 q) then show ?case by (cases q) (simp_all add: heap_simps)
next
  case (3 q x xs)
  then obtain h where h: "q = PriorityQ h" "heap_ok h" "sort h = x # xs" by (cases q) (simp_all add: heap_iter_sort)
  then have "h \<noteq> []" by auto
  from h(2) this show ?case
    by (rule priority_pop) (use h in \<open>auto simp: heap_iter_sort\<close>)
next
  case (4 q)
  then obtain h where h: "q = PriorityQ h" "heap_ok h" by (cases q) simp_all
  then show ?case by (cases "sort h") (auto simp: heap_simps)
next
  case (5 q r) then show ?case by (cases q) (simp_all add: put_back_def heap_simps)
next
  case (6 q other)
  then obtain h where h: "q = PriorityQ h" "heap_ok h" by (cases q) simp_all
  then show ?case using priority_adds [OF h(2), of "queue_iter other"] by (auto simp: put_back_priority heap_iter_sort)
next
  case (7 q r) then show ?case by (cases q) (simp_all add: not_there_def heap_iter_sort)
next
  case (8 q r) then show ?case by (cases q) (simp_all add: heap_simps)
next
  case (9 q rs) then show ?case by (cases q) (simp_all add: heap_simps)
next
  case (10 q) then show ?case by (cases q) (simp_all add: heap_iter_sort)
next
  case (11 q) then show ?case by (cases q) (auto simp: queue_bool_def heap_simps)
qed

section \<open>Both queues refine an ordered list\<close>

datatype queue_op =
    Add qreq | Pop | Peek | Prepend qreq | PrependAll RequestQueue | Remove qreq | RemoveAll "qreq list" | Len | Bool | Iter

datatype queue_out = NoneOut | ReqOut qreq | LenOut nat | BoolOut bool | IterOut "qreq list"

fun queue_step :: "queue_op \<Rightarrow> RequestQueue \<Rightarrow> (queue_out \<times> RequestQueue) res" where
  "queue_step (Add r) q = Inr (NoneOut, add_request r q)"
| "queue_step Pop q = map_sum id (\<lambda>(r, q'). (ReqOut r, q')) (pop_request q)"
| "queue_step Peek q = map_sum id (\<lambda>r. (ReqOut r, q)) (peek_request q)"
| "queue_step (Prepend r) q = Inr (NoneOut, prepend_request r q)"
| "queue_step (PrependAll other) q = Inr (NoneOut, prepend_requests other q)"
| "queue_step (Remove r) q = map_sum id (\<lambda>q'. (NoneOut, q')) (remove_request r q)"
| "queue_step (RemoveAll rs) q = Inr (NoneOut, remove_requests rs q)"
| "queue_step Len q = Inr (LenOut (queue_len q), q)"
| "queue_step Bool q = Inr (BoolOut (queue_bool q), q)"
| "queue_step Iter q = Inr (IterOut (queue_iter q), q)"

text \<open>The same operations on the list of waiting requests in the order of the policy.\<close>

fun list_step :: "SchedulingPolicy \<Rightarrow> queue_op \<Rightarrow> qreq list \<Rightarrow> (queue_out \<times> qreq list) res" where
  "list_step p (Add r) xs = Inr (NoneOut, place p r xs)"
| "list_step p Pop xs = (case xs of [] \<Rightarrow> Inl IndexError | x # ys \<Rightarrow> Inr (ReqOut x, ys))"
| "list_step p Peek xs = (case xs of [] \<Rightarrow> Inl IndexError | x # ys \<Rightarrow> Inr (ReqOut x, xs))"
| "list_step p (Prepend r) xs = Inr (NoneOut, put_back p r xs)"
| "list_step p (PrependAll other) xs = Inr (NoneOut, fold (put_back p) (queue_iter other) xs)"
| "list_step p (Remove r) xs = (if r \<in> set xs then Inr (NoneOut, remove1 r xs) else Inl (not_there p))"
| "list_step p (RemoveAll rs) xs = Inr (NoneOut, filter (\<lambda>r. r \<notin> set rs) xs)"
| "list_step p Len xs = Inr (LenOut (length xs), xs)"
| "list_step p Bool xs = Inr (BoolOut (xs \<noteq> []), xs)"
| "list_step p Iter xs = Inr (IterOut xs, xs)"

text \<open>A sequence of calls: an operation that raises leaves the queue as it was.\<close>

primrec run_ops :: "('o \<Rightarrow> 's \<Rightarrow> (queue_out \<times> 's) res) \<Rightarrow> 'o list \<Rightarrow> 's \<Rightarrow> queue_out res list \<times> 's" where
  "run_ops f [] s = ([], s)"
| "run_ops f (x # xs) s =
     (case f x s of
        Inl e \<Rightarrow> let (os, t) = run_ops f xs s in (Inl e # os, t)
      | Inr (y, s') \<Rightarrow> let (os, t) = run_ops f xs s' in (Inr y # os, t))"

text \<open>The contract gives the simulation of one call, for either queue.\<close>

definition steps_with :: "(queue_out \<times> RequestQueue) res \<Rightarrow> (queue_out \<times> qreq list) res \<Rightarrow> (RequestQueue \<Rightarrow> bool) \<Rightarrow> bool" where
  "steps_with m n ok \<longleftrightarrow>
     (case m of Inl e \<Rightarrow> n = Inl e | Inr (y, q) \<Rightarrow> n = Inr (y, queue_iter q) \<and> ok q)"

lemma step_from_contract:
  assumes rq: "request_queue ok queue_iter add_request pop_request peek_request prepend_request
      prepend_requests remove_request remove_requests queue_len queue_bool (place p) (put_back p) (not_there p)"
    and q: "ok q"
  shows "steps_with (queue_step x q) (list_step p x (queue_iter q)) ok"
proof (cases x)
  case Pop
  then show ?thesis using request_queue.pop_sim [OF rq q] by (auto simp: steps_with_def split: sum.splits)
next
  case (Remove r)
  then show ?thesis using request_queue.rem_sim [OF rq q, of r] by (auto simp: steps_with_def split: sum.splits)
next
  case Peek
  then show ?thesis using q request_queue.peek [OF rq q] by (auto simp: steps_with_def split: list.splits)
qed (use q request_queue.add [OF rq q] request_queue.prepend [OF rq q] request_queue.prepends [OF rq q]
  request_queue.rems [OF rq q] request_queue.len [OF rq q] request_queue.nonempty [OF rq q] in \<open>auto simp: steps_with_def\<close>)

lemma step_sim: "queue_ok p q \<Longrightarrow> steps_with (queue_step x q) (list_step p x (queue_iter q)) (queue_ok p)"
  by (cases p) (auto intro: step_from_contract [OF fcfs.request_queue_axioms] step_from_contract [OF prio.request_queue_axioms])

lemma run_sim:
  "queue_ok p q \<Longrightarrow> run_ops (list_step p) xs (queue_iter q) = map_prod id queue_iter (run_ops queue_step xs q)"
proof (induction xs arbitrary: q)
  case (Cons x xs)
  from step_sim [OF Cons.prems, of x] Cons show ?case
    by (auto simp: steps_with_def case_prod_beta Let_def split: sum.splits)
qed simp

lemma create_ok: "queue_ok p (create_request_queue p) \<and> queue_iter (create_request_queue p) = []"
  by (cases p) (simp_all add: create_request_queue_def heap_from_def heap_iter_sort)

text \<open>
  C21. A waiting queue behaves as the list of its requests in the order of its policy: for every sequence of
  calls on a fresh queue, the answers and the errors are those of the list, and iterating the queue then
  gives the list. Under first come first served a new request goes to the end and one put back to the
  front. Under priority the binary heap keeps the list sorted by priority, arrival time, id and
  identity, so the next request is always the least one waiting, also after removals from the middle.
\<close>

theorem request_queue_refines_order:
  "map_prod id queue_iter (run_ops queue_step ops (create_request_queue policy)) = run_ops (list_step policy) ops []"
  using run_sim [of policy "create_request_queue policy" ops] create_ok [of policy] by simp

end
