(* ===== verification/Spec2Isabelle.thy ===== *)
theory Spec2Isabelle
  imports Kv_Safety Offload_Safety Encoder_Sched Handoff Capture_Control Request_Queue
begin

text \<open>
  \<^bold>\<open>ELDR on vLLM: a verification library\<close>

  ELDR serves mixture-of-experts models with separate prefill and decode engines. A prefill engine counts,
  while it computes a prompt, how often every layer selects every expert; the counts are the prompt's
  signature. A proxy sends each prompt to a prefill engine, receives the first token, the description of
  the key-value blocks to fetch and the signature, compares the signature with a centroid per decode
  engine, picks among the decode engines close enough the least loaded one, and hands the request over. Both engines
  are vLLM with ELDR's hooks. The library models the router, the hooks and the parts of vLLM they
  stand on as executable functions, and proves what each part promises and what the parts promise together.

  \<^bold>\<open>Conventions\<close>

  An operation that may raise returns \<open>py_error + 'a\<close>; every raise, failed assertion and failed lookup of
  the source is a branch (\<open>Prelude\<close>). Python dictionaries are association lists in insertion order
  (\<open>Ordered_Dict\<close>), values from JSON are a datatype with Python's truth and equality (\<open>Json\<close>), objects
  shared by reference live in a store. Code outside the repository is a parameter: hash functions, floating
  point and NumPy routines (\<open>Numpy\<close>), random generators, the clock, MessagePack. Where a property needs
  something of a parameter it is a named hypothesis, and the witness instantiates it. Integers are
  unbounded as in Python, except in the kernels, where 8, 16 and 32 bit words wrap. Concurrency is an
  inductive run relation: each rule is what happens between two points where control can change hands. All loops
  are total functions; no fuel is used except as a bound that the source itself has.

  \<^bold>\<open>The block pool\<close> (\<open>vllm/v1/core\<close>)

  \<open>Free_Queue\<close> is the doubly linked free list of \<open>kv_cache_utils.py\<close> over a store of blocks; it refines a
  list. \<open>Block_Hash\<close> is the chained block hash with its extra keys, cache keys and incremental hashing:
  equal hashes mean equal prefixes if the hash function is injective, and hashing while tokens
  arrive gives the same hashes as hashing at the end. \<open>Hash_Map\<close> and \<open>Block_Pool\<close> are \<open>block_pool.py\<close>.
  \<open>Pool_Safety\<close> runs the pool against clients that free only what they hold: reference counts are exact, the free
  list holds exactly the unreferenced blocks, allocation never returns a block in use or one that a lookup can still
  find, lookup is sound and complete, and the reset of the cache succeeds exactly when nothing is held.

  \<^bold>\<open>The KV cache manager\<close> (\<open>vllm/v1/core\<close>)

  \<open>Kv_Manager\<close> is \<open>kv_cache_manager.py\<close> with the coordinators of \<open>kv_cache_coordinator.py\<close> for one group and for
  no prefix caching, and the managers of \<open>single_type_kv_cache_manager.py\<close> for full, sliding window and chunked local
  attention. \<open>Kv_Blocks\<close> relates the block lists of the requests to the pool's reference counts and shows what each
  phase of an allocation does to both; it also gives the specification of the search for cached prefixes. \<open>Kv_Safety\<close> runs
  a manager with one group against a scheduler that keeps its contract (\<open>slot_contract\<close>): what requests hold is what the pool counts, a block still
  written to is private and without a hash, the decision of \<open>allocate_slots\<close> is right, so that no later step of
  it fails, and for full attention a prefix hit is the longest cached prefix.

  \<^bold>\<open>Other caches and queues of the scheduler\<close>

  \<open>Offload\<close> is \<open>vllm/v1/kv_offload\<close> with its LRU and ARC policies behind one contract, \<open>Offload_Safety\<close> its accounting:
  blocks in use are never evicted, ids are never handed out twice. \<open>Encoder_Cache\<close> is
  \<open>encoder_cache_manager.py\<close> and \<open>Encoder_Sched\<close> the scheduler's choice of encoder inputs with the model runner's
  reads: what is read has been scheduled. \<open>Request_Queue\<close> is \<open>request_queue.py\<close> with the heap algorithms
  of \<open>heapq\<close>: both queues refine an ordered list. \<open>Stop_Check\<close> is \<open>sched/utils.py\<close>, the stop conditions and the
  search for repeated output.

  \<^bold>\<open>Signatures\<close> (\<open>vllm/eldr\<close>)

  \<open>Signature\<close> holds the counting kernel (\<open>counts.py\<close>), the sum over a request's blocks (\<open>batch_sum.py\<close>), installation
  and recording (\<open>signature.py\<close>), the copy to the host (\<open>transport.py\<close>) and the scratch allocator (\<open>scratch.py\<close>): the
  programs of a kernel launch commute, and the 16 bit count of an expert is the number of prompt tokens that chose it, for
  any batching and any cached prefix, without overflow under the limits the configuration check imposes.
  \<open>Capture_Control\<close> is \<open>control.py\<close>, the switch between experiment phases: switching is atomic and happens only
  on an engine without cached prefixes.

  \<^bold>\<open>Hand-off\<close>

  \<open>Base64\<close> and \<open>Nixl_Sched\<close> are the scheduler side of the NIXL connector, \<open>Nixl_Safety\<close> its runs: every remote prefill is
  pulled or released exactly once. \<open>Handoff\<close> is \<open>vllm/eldr/prefill_first.py\<close> and the composition: what a prefill engine
  reports when it finishes is accepted by the proxy and then by the decode engine, and the array the router
  decodes is the count the kernels computed.

  \<^bold>\<open>Routing\<close> (\<open>eldr/serving\<close>)

  \<open>Clustering\<close> is \<open>clustering.py\<close>, \<open>Routing\<close> is \<open>routing.py\<close>, \<open>baselines.py\<close> and \<open>prefix_hash.py\<close>,
  \<open>Centroid_Update\<close> the online refit with its worker thread, \<open>Prefill_Http\<close> and \<open>Proxy\<close> the
  HTTP side: chosen decoders lie in the locality band and are least loaded there, a background fit
  uses exactly the window it was started with and is eventually installed, in-flight counts are exact in every interleaving of
  requests, and every accepted transfer goes to one decoder or is released.

  \<^bold>\<open>Interfaces\<close>

  A component is used through a locale where it has several providers or a client of its own: the block
  index behind the pool, the cache policy (LRU, ARC and the choice by name), the codec of the hand-off (base64
  and the count array) and the waiting queue (first come first served and priority). Each is interpreted on
  the model's own operations.

  \<^bold>\<open>What the model shows to be wrong\<close>

  Hashing of blocks completed by generated tokens drops all but the last image; a LoRA name and
  a cache salt can collide; the encoder scheduler skips an input the drafter reads; a release request
  without fields stops the engine core; ARC refuses a store although an idle block could be evicted.

  \<^bold>\<open>Not modelled\<close>

  The rest of the scheduler; the coordinator for several groups with prefix caching and the Mamba, cross-attention and
  sink managers, which override allocation; the model runner, models, attention and
  custom kernels, compilation, quantisation, sampling and speculative decoding, which compute with floating
  point on a device; the NIXL worker, which drives RDMA; executors, engine processes and their
  sockets; the OpenAI entry points, tool and reasoning parsers and renderers, which are large and not
  touched by ELDR; configuration and argument parsing; metrics, logging, tracing and plots; the calibration program
  and the gate-probability ablation, which are floating-point experiments; benchmarks, examples and experiment
  drivers, which start processes and read files.
\<close>

end
